(* ===== verification/Prelude.thy ===== *)
theory Prelude
  imports Main "HOL-Library.Word"
begin

text \<open>
  What every component shares: the machine integers of the 32-bit Windows build (\<^verbatim>\<open>int\<close>,
  \<^verbatim>\<open>long\<close>, \<^verbatim>\<open>unsigned long\<close> and \<^verbatim>\<open>uint32_t\<close> are all 32 bits wide there), the ways a
  C statement can go wrong, the type of a computation that may go wrong or never return, bounded
  byte copies, and the generic lemmas on words and lists the components use.
\<close>

unbundle bit_operations_syntax

type_synonym u8 = "8 word"
type_synonym u32 = "32 word"
type_synonym u64 = "64 word"

named_theorems prog_simps \<open>how the sequencing operators compute\<close>

section \<open>Computations that may fault or never return\<close>

text \<open>
  A \<^verbatim>\<open>prog\<close> is \<open>None\<close> when the code never returns (a loop that spins for ever), and
  otherwise an outcome: a value, or the fault that stops the process. An \<open>assert\<close> that fails
  is a fault (the debug build aborts); so is any access through a null or a freed pointer, an array
  access outside its bounds, the use of a variable that was never assigned and a call to
  \<^verbatim>\<open>memcpy\<close> with overlapping ranges.
\<close>

datatype fault =
    NullDeref
  | WildPointer
  | OutOfBounds
  | AssertionFailed
  | Uninitialised
  | Overlap

datatype 'a outcome = Ok 'a | Fault fault

type_synonym 'a prog = "'a outcome option"

definition ret :: "'a \<Rightarrow> 'a prog" where
  "ret x = Some (Ok x)"

definition abort :: "fault \<Rightarrow> 'a prog" where
  "abort e = Some (Fault e)"

definition diverge :: "'a prog" where
  "diverge = None"

definition bnd :: "'a prog \<Rightarrow> ('a \<Rightarrow> 'b prog) \<Rightarrow> 'b prog" where
  "bnd m f = (case m of None \<Rightarrow> None
     | Some r \<Rightarrow> (case r of Ok x \<Rightarrow> f x | Fault e \<Rightarrow> Some (Fault e)))"

definition require :: "bool \<Rightarrow> fault \<Rightarrow> unit prog" where
  "require b e = (if b then ret () else abort e)"

definition assert_c :: "bool \<Rightarrow> unit prog" where
  "assert_c b = require b AssertionFailed"

lemma bnd_ret [simp, prog_simps]: "bnd (ret x) f = f x"
  and bnd_abort [simp, prog_simps]: "bnd (abort e) f = abort e"
  and bnd_diverge [simp, prog_simps]: "bnd diverge f = diverge"
  by (simp_all add: bnd_def ret_def abort_def diverge_def)

lemma bnd_None [simp]: "bnd None f = None"
  by (simp add: bnd_def)

lemma prog_inject [simp]:
  "ret x = ret y \<longleftrightarrow> x = y"
  "abort e = abort e' \<longleftrightarrow> e = e'"
  "ret x \<noteq> abort e" "abort e \<noteq> ret x"
  "ret x \<noteq> diverge" "diverge \<noteq> ret x"
  "abort e \<noteq> diverge" "diverge \<noteq> abort e"
  by (simp_all add: ret_def abort_def diverge_def)

lemma ret_Some [simp]: "ret x \<noteq> None" "None \<noteq> ret x" "abort e \<noteq> None" "None \<noteq> abort e"
  by (simp_all add: ret_def abort_def)

lemma bnd_ret_right [simp]: "bnd m ret = m"
  by (simp add: bnd_def ret_def split: option.splits outcome.splits)

lemma bnd_assoc: "bnd (bnd m f) g = bnd m (\<lambda>x. bnd (f x) g)"
  by (simp add: bnd_def split: option.splits outcome.splits)

lemma bnd_eq_ret: "bnd m f = ret y \<longleftrightarrow> (\<exists>x. m = ret x \<and> f x = ret y)"
  by (auto simp: bnd_def ret_def split: option.splits outcome.splits)

lemma bnd_ret_elim:
  assumes "bnd m f = ret y"
  obtains x where "m = ret x" "f x = ret y"
  using assms by (auto simp: bnd_eq_ret)

lemma require_simps [simp, prog_simps]:
  "require True e = ret ()" "require False e = abort e"
  by (simp_all add: require_def)

lemma assert_c_simps [simp, prog_simps]:
  "assert_c True = ret ()" "assert_c False = abort AssertionFailed"
  by (simp_all add: assert_c_def)

lemma require_eq_ret [simp]: "require b e = ret u \<longleftrightarrow> b"
  by (simp add: require_def)

lemma assert_c_eq_ret [simp]: "assert_c b = ret u \<longleftrightarrow> b"
  by (simp add: assert_c_def)

lemma bnd_mono [partial_function_mono]:
  fixes B :: "('e \<Rightarrow> 'f option) \<Rightarrow> 'a prog" and C :: "'a \<Rightarrow> ('e \<Rightarrow> 'f option) \<Rightarrow> 'b prog"
  assumes "mono_option B" and "\<And>y. mono_option (\<lambda>f. C y f)"
  shows "mono_option (\<lambda>f. bnd (B f) (\<lambda>y. C y f))"
proof (rule monotoneI)
  fix f g :: "'e \<Rightarrow> 'f option"
  assume fg: "option.le_fun f g"
  have B: "option_ord (B f) (B g)" using assms(1) fg unfolding monotone_def by blast
  have C: "option_ord (C y f) (C y g)" for y using assms(2) [of y] fg unfolding monotone_def by blast
  show "option_ord (bnd (B f) (\<lambda>y. C y f)) (bnd (B g) (\<lambda>y. C y g))"
  proof (cases "B f")
    case None
    then show ?thesis by (simp add: flat_ord_def)
  next
    case (Some r)
    with B have "B g = Some r" by (simp add: flat_ord_def)
    with Some C show ?thesis by (cases r) (simp_all add: bnd_def flat_ord_def)
  qed
qed

section \<open>Bytes and memcpy\<close>

type_synonym bytes = "u8 list"

definition memcpy :: "bytes \<Rightarrow> nat \<Rightarrow> bytes \<Rightarrow> nat \<Rightarrow> nat \<Rightarrow> bytes prog" where
  "memcpy dst d src s n =
     (if d + n \<le> length dst \<and> s + n \<le> length src
      then ret (take d dst @ take n (drop s src) @ drop (d + n) dst)
      else abort OutOfBounds)"

text \<open>The same call when source and destination lie in one array.\<close>

definition memcpy_within :: "bytes \<Rightarrow> nat \<Rightarrow> nat \<Rightarrow> nat \<Rightarrow> bytes prog" where
  "memcpy_within a d s n =
     (if n > 0 \<and> d < s + n \<and> s < d + n then abort Overlap else memcpy a d a s n)"

lemma memcpy_ok:
  "d + n \<le> length dst \<Longrightarrow> s + n \<le> length src \<Longrightarrow>
   memcpy dst d src s n = ret (take d dst @ take n (drop s src) @ drop (d + n) dst)"
  by (simp add: memcpy_def)

lemma memcpy_zero: "d \<le> length dst \<Longrightarrow> s \<le> length src \<Longrightarrow> memcpy dst d src s 0 = ret dst"
  by (simp add: memcpy_def)

section \<open>Words\<close>

lemma and_pow2_minus_1:
  fixes w :: "'a::len word"
  assumes "k < LENGTH('a)"
  shows "unat (w AND (2 ^ k - 1)) = unat w mod 2 ^ k"
proof -
  have "w AND (2 ^ k - 1) = take_bit k w"
    by (simp add: take_bit_eq_mask mask_eq_exp_minus_1)
  then show ?thesis
    by (simp only: unsigned_take_bit_eq) (simp add: take_bit_eq_mod)
qed

lemma unat_pow2:
  assumes "k < LENGTH('a)"
  shows "unat (2 ^ k :: 'a::len word) = 2 ^ k"
proof -
  have "unat (of_nat (2 ^ k) :: 'a word) = 2 ^ k"
    using assms by (simp only: unat_of_nat) (simp add: power_strict_increasing)
  then show ?thesis by simp
qed

lemma unat_add_mod_pow2:
  fixes a b :: "'a::len word"
  assumes "k \<le> LENGTH('a)"
  shows "unat (a + b) mod 2 ^ k = (unat a + unat b) mod 2 ^ k"
  using assms by (simp add: unat_word_ariths mod_mod_cancel le_imp_power_dvd)

lemma unat_add_diff_mod_pow2:
  fixes a b :: "'a::len word"
  assumes "k \<le> LENGTH('a)"
  shows "(unat b + unat (a - b)) mod 2 ^ k = unat a mod 2 ^ k"
  using unat_add_mod_pow2 [OF assms, of b "a - b"] by simp

section \<open>Positions in a ring\<close>

text \<open>
  A run of \<open>n\<close> positions that starts at \<open>off\<close> and wraps around a ring of size \<open>N\<close>.
\<close>

lemma ring_pos_inj:
  fixes i j off N :: nat
  assumes "(off + i) mod N = (off + j) mod N" "i < N" "j < N"
  shows "i = j"
proof -
  have "i = j" if "i \<le> j" "(off + j) mod N = (off + i) mod N" "j < N" for i j
  proof -
    from that(2) have "N dvd j - i" using that(1) by (subst (asm) mod_eq_dvd_iff_nat) auto
    with that show ?thesis by (auto dest: dvd_imp_le)
  qed
  from this [of i j] this [of j i] assms show ?thesis by (metis nat_le_linear)
qed

lemma mod_wrap:
  fixes off i N :: nat
  assumes "off < N" "i < N"
  shows "(off + i) mod N = (if off + i < N then off + i else off + i - N)"
  using assms by (simp add: mod_if)

lemma ring_pos_beyond:
  fixes a u f N i :: nat
  assumes "(a + u) mod N = f" "u \<le> i"
  shows "(a + i) mod N = (f + (i - u)) mod N"
proof -
  have "a + i = (a + u) + (i - u)" using assms(2) by simp
  then show ?thesis using assms(1) by (metis mod_add_left_eq)
qed

lemma ring_pos_before:
  fixes a u f N i :: nat
  assumes "(a + u) mod N = f" "i < u" "u \<le> N"
  shows "(a + i) mod N = (f + (N - u + i)) mod N"
proof -
  have "(f + (N - u + i)) mod N = ((a + u) + (N - u + i)) mod N"
    using assms(1) by (metis mod_add_left_eq)
  also have "(a + u) + (N - u + i) = (a + i) + N" using assms(2,3) by simp
  finally show ?thesis by simp
qed

end
