(* ===== verification/CoreLock.thy ===== *)
theory CoreLock
  imports Prelude
begin

text \<open>
  The reader/writer spin lock of \<^verbatim>\<open>net/corelock.c\<close>. Every shared access of the four
  operations is one atomic step of a thread (an interlocked operation or the read of a volatile
  field), so an operation is a small machine over a program counter, and any number of threads
  interleave their steps. The lemmas show that a writer excludes everybody, that readers share, and
  that from every reachable state all threads can be run to completion.
\<close>

section \<open>The lock and its operations\<close>

record rwlock =
  lk_read :: u32
  lk_write :: u32

definition rwlock_init :: rwlock where
  "rwlock_init = \<lparr>lk_read = 0, lk_write = 0\<rparr>"

text \<open>
  Where a thread stands. \<open>RSpin\<close> is the inner loop on \<open>write\<close>, \<open>RInc\<close> the increment,
  \<open>RCheck\<close> the test after it, \<open>RDec\<close> the decrement before the retry; \<open>WCas\<close> is the loop
  on the compare-and-exchange and \<open>WWait\<close> the loop on \<open>read\<close>. \<open>RHold\<close> and \<open>WHold\<close>
  are the critical sections, between a lock and its unlock.
\<close>

datatype pc = Idle | RSpin | RInc | RCheck | RDec | RHold | WCas | WWait | WHold

fun rwlock_rlock :: "pc \<Rightarrow> rwlock \<Rightarrow> pc \<times> rwlock" where
  "rwlock_rlock RSpin l = (if lk_write l \<noteq> 0 then (RSpin, l) else (RInc, l))"
| "rwlock_rlock RInc l = (RCheck, l\<lparr>lk_read := lk_read l + 1\<rparr>)"
| "rwlock_rlock RCheck l = (if lk_write l \<noteq> 0 then (RDec, l) else (RHold, l))"
| "rwlock_rlock RDec l = (RSpin, l\<lparr>lk_read := lk_read l - 1\<rparr>)"
| "rwlock_rlock p l = (p, l)"

fun rwlock_wlock :: "pc \<Rightarrow> rwlock \<Rightarrow> pc \<times> rwlock" where
  "rwlock_wlock WCas l = (if lk_write l = 0 then (WWait, l\<lparr>lk_write := 1\<rparr>) else (WCas, l))"
| "rwlock_wlock WWait l = (if lk_read l \<noteq> 0 then (WWait, l) else (WHold, l))"
| "rwlock_wlock p l = (p, l)"

fun rwlock_runlock :: "pc \<Rightarrow> rwlock \<Rightarrow> pc \<times> rwlock" where
  "rwlock_runlock RHold l = (Idle, l\<lparr>lk_read := lk_read l - 1\<rparr>)"
| "rwlock_runlock p l = (p, l)"

fun rwlock_wunlock :: "pc \<Rightarrow> rwlock \<Rightarrow> pc \<times> rwlock" where
  "rwlock_wunlock WHold l = (Idle, l\<lparr>lk_write := 0\<rparr>)"
| "rwlock_wunlock p l = (p, l)"

section \<open>Threads interleaving their steps\<close>

record lock_sys =
  the_lock :: rwlock
  pcs :: "nat \<Rightarrow> pc"

definition lock_sys_init :: lock_sys where
  "lock_sys_init = \<lparr>the_lock = rwlock_init, pcs = (\<lambda>_. Idle)\<rparr>"

definition thread_moves :: "nat \<Rightarrow> pc \<times> rwlock \<Rightarrow> lock_sys \<Rightarrow> lock_sys" where
  "thread_moves i r s = \<lparr>the_lock = snd r, pcs = (pcs s)(i := fst r)\<rparr>"

inductive lock_step :: "nat \<Rightarrow> lock_sys \<Rightarrow> lock_sys \<Rightarrow> bool" for n where
  call_rlock: "i < n \<Longrightarrow> pcs s i = Idle \<Longrightarrow>
     lock_step n s (thread_moves i (RSpin, the_lock s) s)"
| call_wlock: "i < n \<Longrightarrow> pcs s i = Idle \<Longrightarrow>
     lock_step n s (thread_moves i (WCas, the_lock s) s)"
| in_rlock: "i < n \<Longrightarrow> pcs s i \<in> {RSpin, RInc, RCheck, RDec} \<Longrightarrow>
     lock_step n s (thread_moves i (rwlock_rlock (pcs s i) (the_lock s)) s)"
| in_wlock: "i < n \<Longrightarrow> pcs s i \<in> {WCas, WWait} \<Longrightarrow>
     lock_step n s (thread_moves i (rwlock_wlock (pcs s i) (the_lock s)) s)"
| do_runlock: "i < n \<Longrightarrow> pcs s i = RHold \<Longrightarrow>
     lock_step n s (thread_moves i (rwlock_runlock (pcs s i) (the_lock s)) s)"
| do_wunlock: "i < n \<Longrightarrow> pcs s i = WHold \<Longrightarrow>
     lock_step n s (thread_moves i (rwlock_wunlock (pcs s i) (the_lock s)) s)"

inductive lock_steps :: "nat \<Rightarrow> lock_sys \<Rightarrow> lock_sys \<Rightarrow> bool" for n where
  lock_refl: "lock_steps n s s"
| lock_trans: "lock_step n s t \<Longrightarrow> lock_steps n t u \<Longrightarrow> lock_steps n s u"

definition lock_reachable :: "nat \<Rightarrow> lock_sys \<Rightarrow> bool" where
  "lock_reachable n s \<longleftrightarrow> lock_steps n lock_sys_init s"

section \<open>The invariant\<close>

definition counted :: "pc set" where
  "counted = {RCheck, RDec, RHold}"

definition owning :: "pc set" where
  "owning = {WWait, WHold}"

definition at :: "nat \<Rightarrow> lock_sys \<Rightarrow> pc set \<Rightarrow> nat set" where
  "at n s P = {i. i < n \<and> pcs s i \<in> P}"

text \<open>
  The reader count is the number of threads between the increment and the matching decrement, the
  write flag is set exactly while one thread owns it, and once that thread is past its wait loop no
  reader holds the lock.
\<close>

definition lock_inv :: "nat \<Rightarrow> lock_sys \<Rightarrow> bool" where
  "lock_inv n s \<longleftrightarrow>
     lk_read (the_lock s) = of_nat (card (at n s counted)) \<and>
     card (at n s owning) = (if lk_write (the_lock s) = 0 then 0 else 1) \<and>
     (at n s {WHold} \<noteq> {} \<longrightarrow> at n s {RHold} = {})"

lemma finite_at [simp]: "finite (at n s P)"
  by (simp add: at_def)

lemma at_moves:
  "i < n \<Longrightarrow> at n (thread_moves i (p, l) s) P =
     (if p \<in> P then insert i (at n s P) else at n s P - {i})"
  by (auto simp: at_def thread_moves_def)

lemma at_mem: "i < n \<Longrightarrow> i \<in> at n s P \<longleftrightarrow> pcs s i \<in> P"
  by (simp add: at_def)

lemma the_lock_moves [simp]: "the_lock (thread_moves i r s) = snd r"
  by (simp add: thread_moves_def)

lemma pcs_moves [simp]: "pcs (thread_moves i r s) = (pcs s)(i := fst r)"
  by (simp add: thread_moves_def)

lemma card_at_le: "card (at n s P) \<le> n"
proof -
  have "at n s P \<subseteq> {..<n}" by (auto simp: at_def)
  from card_mono [OF _ this] show ?thesis by simp
qed

lemma read_zero_iff:
  assumes "lock_inv n s" and "n < 2 ^ 32"
  shows "lk_read (the_lock s) = 0 \<longleftrightarrow> at n s counted = {}"
proof -
  have "card (at n s counted) < 2 ^ 32"
    using card_at_le [of n s counted] assms(2) by linarith
  then have "(of_nat (card (at n s counted)) :: u32) = 0 \<longleftrightarrow> card (at n s counted) = 0"
    by (cases "card (at n s counted) = 0") (auto simp: word_of_nat_eq_0_iff dest: nat_dvd_not_less)
  with assms(1) show ?thesis by (simp add: lock_inv_def)
qed

lemma of_nat_card_pred:
  assumes "finite A" "i \<in> A"
  shows "(of_nat (card A - Suc 0) :: u32) = of_nat (card A) - 1"
proof -
  have "0 < card A" using assms by (auto simp: card_gt_0_iff)
  then show ?thesis by (simp add: of_nat_diff)
qed

text \<open>
  One lemma per kind of move, stated on the sets of threads at each place; a step of an operation
  is then a case split on the program counter.
\<close>

lemma lock_inv_moves:
  assumes inv: "lock_inv n s" and i: "i < n"
    and rd: "lk_read l = lk_read (the_lock s)
      + (if p \<in> counted then 1 else 0) - (if pcs s i \<in> counted then 1 else 0)"
    and wr: "lk_write l = (if p \<in> owning \<and> pcs s i \<notin> owning then 1
      else if p \<notin> owning \<and> pcs s i \<in> owning then 0 else lk_write (the_lock s))"
    and own: "p \<in> owning \<Longrightarrow> pcs s i \<in> owning \<or> lk_write (the_lock s) = 0"
    and excl: "p = WHold \<Longrightarrow> at n s {RHold} - {i} = {}"
    and excl': "p = RHold \<Longrightarrow> at n s {WHold} - {i} = {}"
  shows "lock_inv n (thread_moves i (p, l) s)"
proof -
  let ?t = "thread_moves i (p, l) s"
  have I: "lk_read (the_lock s) = of_nat (card (at n s counted))"
    "card (at n s owning) = (if lk_write (the_lock s) = 0 then 0 else 1)"
    "at n s {WHold} \<noteq> {} \<longrightarrow> at n s {RHold} = {}"
    using inv by (simp_all add: lock_inv_def)
  have mem: "i \<in> at n s P \<longleftrightarrow> pcs s i \<in> P" for P
    using i by (rule at_mem)
  have 1: "lk_read l = of_nat (card (at n ?t counted))"
    unfolding at_moves [OF i] using rd I(1) mem [of counted]
    by (auto simp: of_nat_card_pred insert_absorb)
  have 2: "card (at n ?t owning) = (if lk_write l = 0 then 0 else 1)"
    unfolding at_moves [OF i] using wr own I(2) mem [of owning]
    by (auto simp: insert_absorb card_1_singleton_iff split: if_splits)
  have 3: "at n ?t {WHold} \<noteq> {} \<longrightarrow> at n ?t {RHold} = {}"
    unfolding at_moves [OF i] using I(3) excl excl' by auto
  show ?thesis using 1 2 3 by (simp add: lock_inv_def)
qed

lemmas moves_simps = counted_def owning_def

lemma lock_step_inv:
  assumes "lock_step n s t" and inv: "lock_inv n s" and n: "n < 2 ^ 32"
  shows "lock_inv n t"
  using assms(1)
proof cases
  case (call_rlock i)
  show ?thesis unfolding call_rlock(1)
    by (rule lock_inv_moves [OF inv]) (use call_rlock in \<open>simp_all add: moves_simps\<close>)
next
  case (call_wlock i)
  show ?thesis unfolding call_wlock(1)
    by (rule lock_inv_moves [OF inv]) (use call_wlock in \<open>simp_all add: moves_simps\<close>)
next
  case (in_rlock i)
  obtain p l where r: "rwlock_rlock (pcs s i) (the_lock s) = (p, l)" by fastforce
  have free: "at n s {WHold} = {}" if "lk_write (the_lock s) = 0"
    using inv that by (auto simp: lock_inv_def at_def owning_def)
  show ?thesis unfolding in_rlock(1) r
    by (rule lock_inv_moves [OF inv])
      (use in_rlock r free in \<open>auto simp: moves_simps split: if_splits\<close>)
next
  case (in_wlock i)
  obtain p l where r: "rwlock_wlock (pcs s i) (the_lock s) = (p, l)" by fastforce
  have free: "at n s {RHold} = {}" if "lk_read (the_lock s) = 0"
    using read_zero_iff [OF inv n] that by (auto simp: at_def counted_def)
  show ?thesis unfolding in_wlock(1) r
    by (rule lock_inv_moves [OF inv])
      (use in_wlock r free in \<open>auto simp: moves_simps split: if_splits\<close>)
next
  case (do_runlock i)
  show ?thesis unfolding do_runlock(1) do_runlock(3) rwlock_runlock.simps
    by (rule lock_inv_moves [OF inv]) (use do_runlock in \<open>simp_all add: moves_simps\<close>)
next
  case (do_wunlock i)
  show ?thesis unfolding do_wunlock(1) do_wunlock(3) rwlock_wunlock.simps
    by (rule lock_inv_moves [OF inv]) (use do_wunlock in \<open>simp_all add: moves_simps\<close>)
qed

lemma lock_steps_inv:
  "lock_steps n s t \<Longrightarrow> lock_inv n s \<Longrightarrow> n < 2 ^ 32 \<Longrightarrow> lock_inv n t"
  by (induction rule: lock_steps.induct) (blast intro: lock_step_inv)+

lemma lock_inv_init: "lock_inv n lock_sys_init"
  by (simp add: lock_inv_def lock_sys_init_def rwlock_init_def at_def counted_def owning_def)

lemma lock_reachable_inv: "lock_reachable n s \<Longrightarrow> n < 2 ^ 32 \<Longrightarrow> lock_inv n s"
  unfolding lock_reachable_def by (blast intro: lock_steps_inv lock_inv_init)

section \<open>Running every thread to completion\<close>

definition rank_sum :: "(pc \<Rightarrow> nat) \<Rightarrow> nat \<Rightarrow> lock_sys \<Rightarrow> nat" where
  "rank_sum f n s = (\<Sum>i<n. f (pcs s i))"

fun writer_rank :: "pc \<Rightarrow> nat" where
  "writer_rank WCas = 3"
| "writer_rank WWait = 2"
| "writer_rank WHold = 1"
| "writer_rank _ = 0"

fun retreat_rank :: "pc \<Rightarrow> nat" where
  "retreat_rank RCheck = 2"
| "retreat_rank RDec = 1"
| "retreat_rank RHold = 1"
| "retreat_rank _ = 0"

fun advance_rank :: "pc \<Rightarrow> nat" where
  "advance_rank RDec = 5"
| "advance_rank RSpin = 4"
| "advance_rank RInc = 3"
| "advance_rank RCheck = 2"
| "advance_rank RHold = 1"
| "advance_rank _ = 0"

lemma rank_sum_moves:
  assumes "i < n"
  shows "rank_sum f n (thread_moves i (p, l) s) + f (pcs s i) = rank_sum f n s + f p"
proof -
  have "(\<Sum>j<n. f (((pcs s)(i := p)) j)) = f p + (\<Sum>j\<in>{..<n} - {i}. f (pcs s j))"
    using assms by (subst sum.remove [of _ i]) (auto intro!: sum.cong)
  moreover have "(\<Sum>j<n. f (pcs s j)) = f (pcs s i) + (\<Sum>j\<in>{..<n} - {i}. f (pcs s j))"
    using assms by (subst sum.remove [of _ i]) auto
  ultimately show ?thesis by (simp add: rank_sum_def)
qed

lemma rank_sum_less:
  "i < n \<Longrightarrow> f p < f (pcs s i) \<Longrightarrow> rank_sum f n (thread_moves i (p, l) s) < rank_sum f n s"
  using rank_sum_moves [of i n f p l s] by linarith

lemma rank_sum_same:
  "i < n \<Longrightarrow> f p = f (pcs s i) \<Longrightarrow> rank_sum f n (thread_moves i (p, l) s) = rank_sum f n s"
  using rank_sum_moves [of i n f p l s] by linarith

lemma rank_sum_pos: "0 < rank_sum f n s \<Longrightarrow> \<exists>i<n. 0 < f (pcs s i)"
  unfolding rank_sum_def by (metis gr0I lessThan_iff less_irrefl sum.neutral)

lemma writer_rank_pos: "0 < writer_rank p \<longleftrightarrow> p \<in> {WCas, WWait, WHold}"
  by (cases p) auto

text \<open>
  While a writer is about, the writers' ranks go down, or the readers retreat until the writer that
  owns the flag gets in; with no writer left, every reader advances.
\<close>

definition lock_potential :: "nat \<Rightarrow> lock_sys \<Rightarrow> nat \<times> nat" where
  "lock_potential n s = (rank_sum writer_rank n s,
     if 0 < rank_sum writer_rank n s then rank_sum retreat_rank n s else rank_sum advance_rank n s)"

definition drains :: "nat \<Rightarrow> lock_sys \<Rightarrow> lock_sys \<Rightarrow> bool" where
  "drains n s t \<longleftrightarrow> lock_step n s t \<and>
     (lock_potential n t, lock_potential n s) \<in> less_than <*lex*> less_than"

lemma drains_writer:
  assumes "lock_step n s (thread_moves i (p, l) s)" "i < n" "writer_rank p < writer_rank (pcs s i)"
  shows "\<exists>t. drains n s t"
  using assms rank_sum_less [of i n writer_rank p s l] by (auto simp: drains_def lock_potential_def)

lemma drains_retreat:
  assumes "lock_step n s (thread_moves i (p, l) s)" "i < n" "0 < rank_sum writer_rank n s"
    "writer_rank p = 0" "writer_rank (pcs s i) = 0" "retreat_rank p < retreat_rank (pcs s i)"
  shows "\<exists>t. drains n s t"
proof -
  have "drains n s (thread_moves i (p, l) s)"
    using assms rank_sum_less [of i n retreat_rank p s l] rank_sum_same [of i n writer_rank p s l]
    by (simp add: drains_def lock_potential_def)
  then show ?thesis ..
qed

lemma drains_advance:
  assumes "lock_step n s (thread_moves i (p, l) s)" "i < n" "rank_sum writer_rank n s = 0"
    "writer_rank p = 0" "advance_rank p < advance_rank (pcs s i)"
  shows "\<exists>t. drains n s t"
proof -
  have "writer_rank (pcs s i) = 0" using assms(2,3) by (simp add: rank_sum_def)
  then have "drains n s (thread_moves i (p, l) s)"
    using assms rank_sum_less [of i n advance_rank p s l] rank_sum_same [of i n writer_rank p s l]
    by (simp add: drains_def lock_potential_def)
  then show ?thesis ..
qed

lemma drain_readers:
  assumes no_writer: "rank_sum writer_rank n s = 0" and inv: "lock_inv n s"
    and i: "i < n" and busy: "pcs s i \<noteq> Idle"
  shows "\<exists>t. drains n s t"
proof -
  have none: "writer_rank (pcs s j) = 0" if "j < n" for j
    using no_writer that by (simp add: rank_sum_def)
  then have "at n s owning = {}" by (fastforce simp: at_def owning_def)
  with inv have free: "lk_write (the_lock s) = 0" by (auto simp: lock_inv_def split: if_splits)
  consider "pcs s i \<in> {RSpin, RInc, RCheck, RDec}" | "pcs s i = RHold"
    using busy none [OF i] by (cases "pcs s i") auto
  then show ?thesis
  proof cases
    case 1
    obtain p l where r: "rwlock_rlock (pcs s i) (the_lock s) = (p, l)" by fastforce
    from 1 r free have "writer_rank p = 0" "advance_rank p < advance_rank (pcs s i)" by auto
    with lock_step.in_rlock [OF i 1] i no_writer show ?thesis
      unfolding r by (blast intro: drains_advance)
  next
    case 2
    from lock_step.do_runlock [OF i 2] i no_writer 2 show ?thesis
      by (auto intro: drains_advance)
  qed
qed

lemma drain_writers:
  assumes writer: "0 < rank_sum writer_rank n s" and inv: "lock_inv n s" and n: "n < 2 ^ 32"
  shows "\<exists>t. drains n s t"
proof -
  consider (hold) i where "i < n" "pcs s i = WHold" | (wait) i where "i < n" "pcs s i = WWait"
    | (cas) i where "i < n" "pcs s i = WCas" "at n s owning = {}"
  proof -
    from rank_sum_pos [OF writer] obtain k where "k < n" "pcs s k \<in> {WCas, WWait, WHold}"
      by (auto simp: writer_rank_pos)
    then show thesis using that by (cases "at n s owning = {}") (auto simp: at_def owning_def)
  qed
  then show ?thesis
  proof cases
    case hold
    then show ?thesis using lock_step.do_wunlock [of i n s] by (auto intro: drains_writer)
  next
    case wait
    show ?thesis
    proof (cases "lk_read (the_lock s) = 0")
      case True
      with wait show ?thesis using lock_step.in_wlock [of i n s] by (auto intro: drains_writer)
    next
      case False
      then obtain j where j: "j < n" "pcs s j \<in> counted"
        using read_zero_iff [OF inv n] by (auto simp: at_def)
      from wait inv have "lk_write (the_lock s) \<noteq> 0"
        by (auto simp: lock_inv_def at_def owning_def split: if_splits)
      with j writer show ?thesis
        using lock_step.in_rlock [of j n s] lock_step.do_runlock [of j n s]
        by (auto simp: counted_def intro: drains_retreat)
    qed
  next
    case cas
    with inv have "lk_write (the_lock s) = 0" by (auto simp: lock_inv_def split: if_splits)
    with cas show ?thesis using lock_step.in_wlock [of i n s] by (auto intro: drains_writer)
  qed
qed

lemma lock_drains_to_idle:
  assumes "lock_inv n s" and n: "n < 2 ^ 32"
  shows "\<exists>t. lock_steps n s t \<and> (\<forall>i<n. pcs t i = Idle)"
  using assms(1)
proof (induction "lock_potential n s" arbitrary: s rule: wf_induct [OF wf_lex_prod [OF wf_less_than wf_less_than]])
  case (1 s)
  show ?case
  proof (cases "\<forall>i<n. pcs s i = Idle")
    case True
    then show ?thesis by (blast intro: lock_steps.lock_refl)
  next
    case False
    then obtain t where t: "drains n s t"
      using drain_readers [OF _ 1(2)] drain_writers [OF _ 1(2) n] by (metis neq0_conv)
    then have "lock_step n s t" by (simp add: drains_def)
    moreover from this have "lock_inv n t" by (rule lock_step_inv) (use 1(2) n in auto)
    with t 1(1) [rule_format, OF _ refl] obtain u where "lock_steps n t u" "\<forall>i<n. pcs u i = Idle"
      unfolding drains_def by blast
    ultimately show ?thesis by (blast intro: lock_steps.lock_trans)
  qed
qed

section \<open>What the lock guarantees\<close>

lemma lock_steps_append: "lock_steps n s t \<Longrightarrow> lock_steps n t u \<Longrightarrow> lock_steps n s u"
  by (induction rule: lock_steps.induct) (auto intro: lock_steps.intros)

lemma lock_reachable_step: "lock_reachable n s \<Longrightarrow> lock_step n s t \<Longrightarrow> lock_reachable n t"
  unfolding lock_reachable_def by (blast intro: lock_steps_append lock_steps.intros)

lemma lock_reachable_init: "lock_reachable n lock_sys_init"
  by (simp add: lock_reachable_def lock_steps.lock_refl)

definition readers_in :: "nat \<Rightarrow> lock_sys" where
  "readers_in k = \<lparr>the_lock = \<lparr>lk_read = of_nat k, lk_write = 0\<rparr>,
     pcs = (\<lambda>i. if i < k then RHold else Idle)\<rparr>"

definition writer_in :: lock_sys where
  "writer_in = \<lparr>the_lock = \<lparr>lk_read = 0, lk_write = 1\<rparr>, pcs = (\<lambda>_. Idle)(0 := WHold)\<rparr>"

lemma readers_in_reachable: "k \<le> n \<Longrightarrow> lock_reachable n (readers_in k)"
proof (induction k)
  case 0
  have "readers_in 0 = lock_sys_init"
    by (simp add: readers_in_def lock_sys_init_def rwlock_init_def)
  then show ?case by (simp add: lock_reachable_init)
next
  case (Suc k)
  let ?s0 = "readers_in k" and ?r = "\<lparr>lk_read = of_nat k, lk_write = 0\<rparr>"
  let ?s1 = "thread_moves k (RSpin, ?r) ?s0"
  let ?s2 = "thread_moves k (RInc, ?r) ?s1"
  let ?s3 = "thread_moves k (RCheck, ?r\<lparr>lk_read := of_nat k + 1\<rparr>) ?s2"
  let ?s4 = "thread_moves k (RHold, ?r\<lparr>lk_read := of_nat k + 1\<rparr>) ?s3"
  have k: "k < n" and s0: "lock_reachable n ?s0" using Suc by simp_all
  have lock: "the_lock ?s0 = ?r" "pcs ?s0 k = Idle" by (simp_all add: readers_in_def)
  have "lock_reachable n ?s1"
    using lock_reachable_step [OF s0 lock_step.call_rlock [OF k lock(2)]] by (simp add: lock)
  then have "lock_reachable n ?s2"
    using lock_reachable_step [OF _ lock_step.in_rlock [of k n ?s1]] k by simp
  then have "lock_reachable n ?s3"
    using lock_reachable_step [OF _ lock_step.in_rlock [of k n ?s2]] k by simp
  then have "lock_reachable n ?s4"
    using lock_reachable_step [OF _ lock_step.in_rlock [of k n ?s3]] k by simp
  moreover have "?s4 = readers_in (Suc k)"
    by (auto simp: thread_moves_def readers_in_def fun_eq_iff less_Suc_eq)
  ultimately show ?case by simp
qed

lemma writer_in_reachable: "lock_reachable 2 writer_in"
proof -
  let ?s1 = "thread_moves 0 (WCas, rwlock_init) lock_sys_init"
  let ?s2 = "thread_moves 0 (WWait, rwlock_init\<lparr>lk_write := 1\<rparr>) ?s1"
  let ?s3 = "thread_moves 0 (WHold, rwlock_init\<lparr>lk_write := 1\<rparr>) ?s2"
  have "lock_reachable 2 ?s1"
    using lock_reachable_step [OF lock_reachable_init lock_step.call_wlock [of 0 2 lock_sys_init]]
    by (simp add: lock_sys_init_def)
  then have "lock_reachable 2 ?s2"
    using lock_reachable_step [OF _ lock_step.in_wlock [of 0 2 ?s1]] by (simp add: rwlock_init_def)
  then have "lock_reachable 2 ?s3"
    using lock_reachable_step [OF _ lock_step.in_wlock [of 0 2 ?s2]] by (simp add: rwlock_init_def)
  moreover have "?s3 = writer_in"
    by (simp add: thread_moves_def writer_in_def rwlock_init_def lock_sys_init_def)
  ultimately show ?thesis by simp
qed

text \<open>
  C9. In every state that fewer than \<open>2 ^ 32\<close> threads can reach, a thread inside the write section is
  alone: no other thread is inside the write section or inside a read section.
\<close>

theorem rwlock_exclusion:
  assumes "lock_reachable n s" and "n < 2 ^ 32"
    and "i < n" and "j < n" and "i \<noteq> j" and "pcs s i = WHold"
  shows "pcs s j \<noteq> WHold \<and> pcs s j \<noteq> RHold"
proof -
  have inv: "lock_inv n s" using assms(1,2) by (rule lock_reachable_inv)
  have i: "i \<in> at n s owning" "i \<in> at n s {WHold}"
    using assms by (simp_all add: at_def owning_def)
  have "at n s {RHold} = {}" using inv i(2) unfolding lock_inv_def by blast
  have "card (at n s owning) \<noteq> 0" using i(1) by auto
  then have one: "card (at n s owning) = 1" using inv unfolding lock_inv_def by presburger
  from one obtain k where "at n s owning = {k}" by (rule card_1_singletonE)
  with i(1) have "at n s owning = {i}" by simp
  with assms(5) have "j \<notin> at n s owning" by simp
  then have "pcs s j \<noteq> WHold" using at_mem [OF assms(4)] by (auto simp: owning_def)
  moreover have "pcs s j \<noteq> RHold"
    using \<open>at n s {RHold} = {}\<close> at_mem [OF assms(4), of s "{RHold}"] by simp
  ultimately show ?thesis by simp
qed

theorem rwlock_exclusion_witness: "pcs writer_in 1 \<noteq> WHold \<and> pcs writer_in 1 \<noteq> RHold"
  by (rule rwlock_exclusion [OF writer_in_reachable, of 0]) (simp_all add: writer_in_def)

text \<open>
  C10. The spin loops cannot deadlock: from every reachable state some schedule runs every thread out
  of its critical section and out of its lock operation.
\<close>

theorem rwlock_can_complete:
  assumes "lock_reachable n s" and "n < 2 ^ 32"
  shows "\<exists>t. lock_steps n s t \<and> (\<forall>i<n. pcs t i = Idle)"
  using lock_reachable_inv [OF assms] assms(2) by (rule lock_drains_to_idle)

theorem rwlock_can_complete_witness:
  "\<exists>t. lock_steps 2 writer_in t \<and> (\<forall>i<2. pcs t i = Idle)"
  by (rule rwlock_can_complete [OF writer_in_reachable]) simp

text \<open>
  Readers share: any number of threads can be inside the read section at the same time.
\<close>

theorem rwlock_readers_share: "\<exists>s. lock_reachable n s \<and> (\<forall>i<n. pcs s i = RHold)"
  using readers_in_reachable [of n n] by (force simp: readers_in_def)

theorem rwlock_readers_share_witness: "\<exists>s. lock_reachable 3 s \<and> (\<forall>i<3. pcs s i = RHold)"
  by (rule rwlock_readers_share)

end
