(* ===== verification/Locks.thy ===== *)
theory Locks
  imports CoreLock
begin

text \<open>
  The locks of \<^verbatim>\<open>net/lock.h\<close>. The spin lock is one word that threads compete for with a compare and
  exchange; any number of threads interleave their steps, and at most one of them is ever inside. The
  reader/writer lock of the header takes the same steps as the one of \<^verbatim>\<open>net/corelock.c\<close>, so what is proved
  of that one holds for it. The two classes that wrap a critical section and an SRW lock of the system
  have no code of their own.
\<close>

section \<open>The spin lock\<close>

text \<open>\<open>SCas\<close> is the loop of \<^verbatim>\<open>lock\<close>, \<open>SHold\<close> the section between \<^verbatim>\<open>lock\<close> and \<^verbatim>\<open>unlock\<close>.\<close>

datatype spin_pc = SIdle | SCas | SHold

definition spinlock_init :: u32 where
  "spinlock_init = 0"

fun spinlock_lock :: "spin_pc \<Rightarrow> u32 \<Rightarrow> spin_pc \<times> u32" where
  "spinlock_lock SCas l = (if l = 0 then (SHold, 1) else (SCas, l))"
| "spinlock_lock p l = (p, l)"

fun spinlock_unlock :: "spin_pc \<Rightarrow> u32 \<Rightarrow> spin_pc \<times> u32" where
  "spinlock_unlock SHold l = (SIdle, 0)"
| "spinlock_unlock p l = (p, l)"

record spin_sys =
  spin_word :: u32
  spin_pcs :: "nat \<Rightarrow> spin_pc"

definition spin_sys_init :: spin_sys where
  "spin_sys_init = \<lparr>spin_word = spinlock_init, spin_pcs = (\<lambda>_. SIdle)\<rparr>"

definition spin_moves :: "nat \<Rightarrow> spin_pc \<times> u32 \<Rightarrow> spin_sys \<Rightarrow> spin_sys" where
  "spin_moves i r s = \<lparr>spin_word = snd r, spin_pcs = (spin_pcs s)(i := fst r)\<rparr>"

inductive spin_step :: "spin_sys \<Rightarrow> spin_sys \<Rightarrow> bool" where
  call_lock: "spin_pcs s i = SIdle \<Longrightarrow> spin_step s (spin_moves i (SCas, spin_word s) s)"
| try_lock: "spin_pcs s i = SCas \<Longrightarrow> spin_step s (spin_moves i (spinlock_lock SCas (spin_word s)) s)"
| do_unlock: "spin_pcs s i = SHold \<Longrightarrow> spin_step s (spin_moves i (spinlock_unlock SHold (spin_word s)) s)"

inductive spin_reachable :: "spin_sys \<Rightarrow> bool" where
  spin_start: "spin_reachable spin_sys_init"
| spin_next: "spin_reachable s \<Longrightarrow> spin_step s t \<Longrightarrow> spin_reachable t"

text \<open>The word is zero exactly when nobody is inside, and otherwise one thread is.\<close>

definition spin_inv :: "spin_sys \<Rightarrow> bool" where
  "spin_inv s \<longleftrightarrow> (if spin_word s = 0 then \<forall>i. spin_pcs s i \<noteq> SHold
     else (\<exists>i. spin_pcs s i = SHold) \<and> (\<forall>i j. spin_pcs s i = SHold \<longrightarrow> spin_pcs s j = SHold \<longrightarrow> i = j))"

lemma spin_step_inv: "spin_step s t \<Longrightarrow> spin_inv s \<Longrightarrow> spin_inv t"
proof (induction rule: spin_step.induct)
  case (call_lock s i)
  then show ?case by (auto simp: spin_inv_def spin_moves_def split: if_splits) (metis spin_pc.distinct)+
next
  case (try_lock s i)
  then show ?case by (auto simp: spin_inv_def spin_moves_def split: if_splits) (metis spin_pc.distinct)+
next
  case (do_unlock s i)
  then show ?case by (auto simp: spin_inv_def spin_moves_def split: if_splits)
qed

lemma spin_reachable_inv: "spin_reachable s \<Longrightarrow> spin_inv s"
  by (induction rule: spin_reachable.induct)
    (simp_all add: spin_inv_def spin_sys_init_def spinlock_init_def spin_step_inv [unfolded spin_inv_def])

lemma spinlock_exclusive:
  assumes "spin_reachable s" "spin_pcs s i = SHold" "spin_pcs s j = SHold"
  shows "i = j"
  using spin_reachable_inv [OF assms(1)] assms(2,3) by (auto simp: spin_inv_def split: if_splits)

text \<open>A thread that waits gets in as soon as the lock is free, and whoever is inside can free it.\<close>

lemma spinlock_progress:
  assumes "spin_reachable s" "spin_pcs s i = SCas"
  shows "\<exists>t u. spin_step s t \<and> (spin_pcs t i = SHold \<or> spin_step t u \<and> spin_pcs u i = SHold)"
proof (cases "spin_word s = 0")
  case True
  then have "spin_step s (spin_moves i (SHold, 1) s)" using try_lock [OF assms(2)] by simp
  moreover have "spin_pcs (spin_moves i (SHold, 1) s) i = SHold" by (simp add: spin_moves_def)
  ultimately show ?thesis by blast
next
  case False
  then obtain j where j: "spin_pcs s j = SHold"
    using spin_reachable_inv [OF assms(1)] by (auto simp: spin_inv_def split: if_splits)
  let ?t = "spin_moves j (SIdle, 0) s" and ?u = "spin_moves i (SHold, 1) (spin_moves j (SIdle, 0) s)"
  have "spin_step s ?t" using do_unlock [OF j] by simp
  moreover have "i \<noteq> j" using assms(2) j by auto
  then have "spin_step ?t ?u" "spin_pcs ?u i = SHold"
    using try_lock [of ?t i] assms(2) by (simp_all add: spin_moves_def)
  ultimately show ?thesis by blast
qed

text \<open>
  C11. The spin lock excludes and hands over: whatever the interleaving of any number of threads, two
  threads inside the lock are the same thread, and a thread that waits can be inside within two steps.
\<close>

theorem spinlock_exclusion:
  assumes "spin_reachable s"
  shows "(\<forall>i j. spin_pcs s i = SHold \<longrightarrow> spin_pcs s j = SHold \<longrightarrow> i = j) \<and>
    (\<forall>i. spin_pcs s i = SCas \<longrightarrow>
      (\<exists>t u. spin_step s t \<and> (spin_pcs t i = SHold \<or> spin_step t u \<and> spin_pcs u i = SHold)))"
  using spinlock_exclusive [OF assms] spinlock_progress [OF assms] by blast

definition spin_contended :: spin_sys where
  "spin_contended = \<lparr>spin_word = 1, spin_pcs = (\<lambda>i. if i = 0 then SHold else if i = 1 then SCas else SIdle)\<rparr>"

lemma spin_contended_reachable: "spin_reachable spin_contended"
proof -
  let ?s1 = "spin_moves 0 (SCas, 0) spin_sys_init"
  let ?s2 = "spin_moves 0 (SHold, 1) ?s1"
  have 1: "spin_step spin_sys_init ?s1"
    using call_lock [of spin_sys_init 0] by (simp add: spin_sys_init_def spinlock_init_def)
  have 2: "spin_step ?s1 ?s2" using try_lock [of ?s1 0] by (simp add: spin_moves_def)
  have 3: "spin_step ?s2 (spin_moves 1 (SCas, 1) ?s2)"
    using call_lock [of ?s2 1] by (simp add: spin_moves_def spin_sys_init_def)
  have "spin_moves 1 (SCas, 1) ?s2 = spin_contended"
    by (auto simp: spin_moves_def spin_contended_def spin_sys_init_def)
  then show ?thesis using spin_next [OF spin_next [OF spin_next [OF spin_start 1] 2] 3] by simp
qed

theorem spinlock_exclusion_witness:
  "spin_pcs spin_contended 0 = SHold \<and> spin_pcs spin_contended 1 = SCas \<and>
    (\<exists>t u. spin_step spin_contended t \<and> (spin_pcs t 1 = SHold \<or> spin_step t u \<and> spin_pcs u 1 = SHold))"
proof -
  have pcs: "spin_pcs spin_contended 0 = SHold" "spin_pcs spin_contended 1 = SCas" by (simp_all add: spin_contended_def)
  with spinlock_exclusion [OF spin_contended_reachable] show ?thesis by blast
qed

section \<open>The reader/writer lock\<close>

fun cpp_rlock :: "pc \<Rightarrow> rwlock \<Rightarrow> pc \<times> rwlock" where
  "cpp_rlock RSpin l = (if lk_write l \<noteq> 0 then (RSpin, l) else (RInc, l))"
| "cpp_rlock RInc l = (RCheck, l\<lparr>lk_read := lk_read l + 1\<rparr>)"
| "cpp_rlock RCheck l = (if lk_write l \<noteq> 0 then (RDec, l) else (RHold, l))"
| "cpp_rlock RDec l = (RSpin, l\<lparr>lk_read := lk_read l - 1\<rparr>)"
| "cpp_rlock p l = (p, l)"

fun cpp_wlock :: "pc \<Rightarrow> rwlock \<Rightarrow> pc \<times> rwlock" where
  "cpp_wlock WCas l = (if lk_write l = 0 then (WWait, l\<lparr>lk_write := 1\<rparr>) else (WCas, l))"
| "cpp_wlock WWait l = (if lk_read l \<noteq> 0 then (WWait, l) else (WHold, l))"
| "cpp_wlock p l = (p, l)"

fun cpp_runlock :: "pc \<Rightarrow> rwlock \<Rightarrow> pc \<times> rwlock" where
  "cpp_runlock RHold l = (Idle, l\<lparr>lk_read := lk_read l - 1\<rparr>)"
| "cpp_runlock p l = (p, l)"

fun cpp_wunlock :: "pc \<Rightarrow> rwlock \<Rightarrow> pc \<times> rwlock" where
  "cpp_wunlock WHold l = (Idle, l\<lparr>lk_write := 0\<rparr>)"
| "cpp_wunlock p l = (p, l)"

definition cpp_rwlock :: rwlock where
  "cpp_rwlock = \<lparr>lk_read = 0, lk_write = 0\<rparr>"

lemma cpp_rwlock_eq:
  "cpp_rlock p l = rwlock_rlock p l" "cpp_wlock p l = rwlock_wlock p l"
  "cpp_runlock p l = rwlock_runlock p l" "cpp_wunlock p l = rwlock_wunlock p l" "cpp_rwlock = rwlock_init"
  by (cases p; simp)+ (simp add: cpp_rwlock_def rwlock_init_def)

end
