(* ===== verification/TimerRings.thy ===== *)
theory TimerRings
  imports TimerLinks
begin

text \<open>
  Families of disjoint circular lists. A ring is a sentinel and the cells linked behind it in both
  directions; a family has one ring per head and no cell in two rings. The locale \<open>ring_family\<close>
  proves, for any pair of link fields and any set of heads, what an insertion and an unlinking do to
  the family; it is interpreted for the wheel lists and for the hash buckets.
\<close>

section \<open>Segments and rings\<close>

primrec dseg :: "(timer_node \<Rightarrow> tptr) \<Rightarrow> (timer_node \<Rightarrow> tptr) \<Rightarrow> tmem \<Rightarrow> tptr \<Rightarrow> tptr list \<Rightarrow> tptr \<Rightarrow> bool"
  where
  "dseg nx pv m a [] b \<longleftrightarrow> fld nx m a = b \<and> fld pv m b = a"
| "dseg nx pv m a (x # xs) b \<longleftrightarrow> fld nx m a = x \<and> fld pv m x = a \<and> dseg nx pv m x xs b"

definition ring :: "(timer_node \<Rightarrow> tptr) \<Rightarrow> (timer_node \<Rightarrow> tptr) \<Rightarrow> tmem \<Rightarrow> tptr \<Rightarrow> tptr list \<Rightarrow> bool" where
  "ring nx pv m h xs \<longleftrightarrow> dseg nx pv m h xs h \<and> distinct (h # xs) \<and> set (h # xs) \<subseteq> dom m"

definition is_cell :: "tptr \<Rightarrow> bool" where
  "is_cell p = (case p of Cell _ \<Rightarrow> True | _ \<Rightarrow> False)"

definition rings ::
  "(timer_node \<Rightarrow> tptr) \<Rightarrow> (timer_node \<Rightarrow> tptr) \<Rightarrow> tptr set \<Rightarrow> tmem \<Rightarrow> (tptr \<Rightarrow> tptr list) \<Rightarrow> bool" where
  "rings nx pv Hd m S \<longleftrightarrow>
     (\<forall>h\<in>Hd. ring nx pv m h (S h) \<and> (\<forall>p\<in>set (S h). is_cell p)) \<and>
     (\<forall>h\<in>Hd. \<forall>h'\<in>Hd. h \<noteq> h' \<longrightarrow> set (S h) \<inter> set (S h') = {})"

definition members :: "tptr set \<Rightarrow> (tptr \<Rightarrow> tptr list) \<Rightarrow> tptr set" where
  "members Hd S = (\<Union>h\<in>Hd. set (S h))"

text \<open>
  The effect of linking \<open>r\<close> between \<open>a\<close> and \<open>b\<close> and of unlinking \<open>r\<close>, on one pair of
  link fields.
\<close>

definition linked :: "(timer_node \<Rightarrow> tptr) \<Rightarrow> (timer_node \<Rightarrow> tptr) \<Rightarrow> tmem \<Rightarrow> tmem \<Rightarrow> tptr \<Rightarrow> tptr \<Rightarrow> tptr \<Rightarrow> bool"
  where
  "linked nx pv m m' a r b \<longleftrightarrow> dom m' = dom m \<and>
     (\<forall>q. fld nx m' q = (if q = a then r else if q = r then b else fld nx m q)) \<and>
     (\<forall>q. fld pv m' q = (if q = b then r else if q = r then a else fld pv m q))"

definition unlinked :: "(timer_node \<Rightarrow> tptr) \<Rightarrow> (timer_node \<Rightarrow> tptr) \<Rightarrow> tmem \<Rightarrow> tmem \<Rightarrow> tptr \<Rightarrow> bool" where
  "unlinked nx pv m m' r \<longleftrightarrow> dom m' = dom m \<and>
     (\<forall>q. fld nx m' q = (if q = r then Null else if q = fld pv m r then fld nx m r else fld nx m q)) \<and>
     (\<forall>q. fld pv m' q = (if q = r then Null else if q = fld nx m r then fld pv m r else fld pv m q))"

lemma dseg_snoc: "dseg nx pv m a (xs @ [y]) b \<longleftrightarrow> dseg nx pv m a xs y \<and> dseg nx pv m y [] b"
  by (induction xs arbitrary: a) auto

lemma dseg_append:
  "dseg nx pv m a (xs @ y # ys) b \<longleftrightarrow> dseg nx pv m a xs y \<and> dseg nx pv m y ys b"
  by (induction xs arbitrary: a) auto

lemma dseg_frame:
  assumes "\<And>q. q \<in> set (a # xs) \<Longrightarrow> fld nx m' q = fld nx m q"
    and "\<And>q. q \<in> set (xs @ [b]) \<Longrightarrow> fld pv m' q = fld pv m q"
  shows "dseg nx pv m' a xs b = dseg nx pv m a xs b"
  using assms by (induction xs arbitrary: a) auto

lemma dseg_last: "dseg nx pv m a xs b \<Longrightarrow> fld pv m b = last (a # xs)"
  by (induction xs arbitrary: a) auto

lemma dseg_first: "dseg nx pv m a xs b \<Longrightarrow> fld nx m a = hd (xs @ [b])"
  by (cases xs) auto

lemma dseg_link_first:
  assumes "dseg nx pv m a ys b" "linked nx pv m m' a r (hd (ys @ [b]))"
    "distinct (a # ys)" "b \<notin> set ys" "r \<notin> set (a # ys)" "r \<noteq> b"
  shows "dseg nx pv m' a (r # ys) b"
proof (cases ys)
  case Nil
  with assms show ?thesis by (auto simp: linked_def)
next
  case (Cons y zs)
  have "dseg nx pv m' y zs b = dseg nx pv m y zs b"
    by (rule dseg_frame) (use assms Cons in \<open>auto simp: linked_def\<close>)
  with assms Cons show ?thesis by (auto simp: linked_def)
qed

lemma ring_link:
  assumes "ring nx pv m h (xs @ ys)" "linked nx pv m m' (last (h # xs)) r (hd (ys @ [h]))"
    "r \<in> dom m" "r \<notin> set (h # xs @ ys)"
  shows "ring nx pv m' h (xs @ r # ys)"
proof -
  have R: "dseg nx pv m h (xs @ ys) h" "distinct (h # xs @ ys)" using assms(1) by (simp_all add: ring_def)
  have "dseg nx pv m' h (xs @ r # ys) h"
  proof (cases xs rule: rev_cases)
    case Nil
    have "dseg nx pv m' h (r # ys) h"
      by (rule dseg_link_first) (use R assms Nil in auto)
    with Nil show ?thesis by simp
  next
    case (snoc zs z)
    with R(1) have d: "dseg nx pv m h zs z" "dseg nx pv m z ys h" by (simp_all add: dseg_append)
    have "dseg nx pv m' z (r # ys) h"
      by (rule dseg_link_first [OF d(2)]) (use R assms snoc in auto)
    moreover have "hd (ys @ [h]) \<notin> set (zs @ [z])" using R(2) snoc by (cases ys) auto
    then have "dseg nx pv m' h zs z = dseg nx pv m h zs z"
      by (intro dseg_frame) (use R assms snoc in \<open>auto simp: linked_def\<close>)
    ultimately show ?thesis using d snoc by (simp add: dseg_append)
  qed
  with assms R(2) show ?thesis by (auto simp: ring_def linked_def)
qed

lemma ring_unlink:
  assumes "ring nx pv m h (xs @ r # ys)" "unlinked nx pv m m' r"
  shows "ring nx pv m' h (xs @ ys)"
proof -
  have R: "dseg nx pv m h xs r" "dseg nx pv m r ys h" "distinct (h # xs @ r # ys)"
    using assms(1) by (simp_all add: ring_def dseg_append)
  have ends: "fld pv m r = last (h # xs)" "fld nx m r = hd (ys @ [h])"
    using dseg_last [OF R(1)] dseg_first [OF R(2)] by simp_all
  have U: "fld nx m' q = (if q = r then Null else if q = last (h # xs) then hd (ys @ [h]) else fld nx m q)"
    "fld pv m' q = (if q = r then Null else if q = hd (ys @ [h]) then last (h # xs) else fld pv m q)" for q
    using assms(2) unfolding unlinked_def ends by blast+
  have right: "dseg nx pv m' (last (h # xs)) ys h"
  proof (cases ys)
    case Nil
    with R(3) U show ?thesis by auto
  next
    case (Cons y zs)
    with R(3) have "last (h # xs) \<notin> set (y # zs)" "y \<noteq> r" "y \<notin> set (zs @ [h])"
      by (cases xs rule: rev_cases; auto)+
    with Cons R(2,3) have "dseg nx pv m' y zs h = dseg nx pv m y zs h"
      by (intro dseg_frame) (auto simp: U)
    moreover have "last (h # xs) \<noteq> r" using R(3) by (cases xs rule: rev_cases) auto
    ultimately show ?thesis using Cons R(2) \<open>y \<noteq> r\<close> by (simp add: U)
  qed
  have "dseg nx pv m' h (xs @ ys) h"
  proof (cases xs rule: rev_cases)
    case Nil
    with right show ?thesis by simp
  next
    case (snoc zs z)
    have "hd (ys @ [h]) \<notin> set (zs @ [z])" using R(3) snoc by (cases ys) auto
    then have "dseg nx pv m' h zs z = dseg nx pv m h zs z"
      by (intro dseg_frame) (use R(3) snoc in \<open>auto simp: U\<close>)
    moreover have "dseg nx pv m h zs z" using R(1) snoc by (simp add: dseg_append)
    ultimately show ?thesis
      using right snoc by (cases ys) (auto simp: dseg_append)
  qed
  with assms R(3) show ?thesis by (auto simp: ring_def unlinked_def)
qed

section \<open>Families of rings\<close>

lemma rings_ring: "rings nx pv Hd m S \<Longrightarrow> h \<in> Hd \<Longrightarrow> ring nx pv m h (S h)"
  by (simp add: rings_def)

lemma rings_cell_at: "rings nx pv Hd m S \<Longrightarrow> h \<in> Hd \<Longrightarrow> p \<in> set (S h) \<Longrightarrow> is_cell p"
  by (simp add: rings_def)

lemma rings_cell: "rings nx pv Hd m S \<Longrightarrow> p \<in> members Hd S \<Longrightarrow> is_cell p \<and> p \<in> dom m"
  by (auto simp: rings_def members_def ring_def)

lemma is_cell_simps [simp]: "\<not> is_cell Null" "\<not> is_cell (NHead i j)" "\<not> is_cell (THead j)"
  "\<not> is_cell (HHead j)" "is_cell (Cell a)"
  by (simp_all add: is_cell_def)

lemma is_cell_not_Null: "is_cell p \<Longrightarrow> p \<noteq> Null"
  by auto

lemma members_upd: "h \<in> Hd \<Longrightarrow> members Hd (S(h := xs)) = set xs \<union> members (Hd - {h}) S"
  by (auto simp: members_def split: if_splits)

lemma rings_disjoint:
  "rings nx pv Hd m S \<Longrightarrow> h \<in> Hd \<Longrightarrow> set (S h) \<inter> members (Hd - {h}) S = {}"
  unfolding rings_def members_def by blast

lemma rings_updI:
  assumes R: "rings nx pv Hd m S" and h: "h \<in> Hd" and ring_h: "ring nx pv m' h zs"
    and others: "\<And>h'. h' \<in> Hd \<Longrightarrow> h' \<noteq> h \<Longrightarrow> ring nx pv m' h' (S h')"
    and cells: "\<And>p. p \<in> set zs \<Longrightarrow> is_cell p" and disj: "set zs \<inter> members (Hd - {h}) S = {}"
  shows "rings nx pv Hd m' (S(h := zs))"
  unfolding rings_def
proof (intro conjI ballI impI)
  fix h' assume h': "h' \<in> Hd"
  show "ring nx pv m' h' ((S(h := zs)) h')" using ring_h others h' by simp
  show "is_cell p" if "p \<in> set ((S(h := zs)) h')" for p
    using that cells R h' by (auto simp: rings_def split: if_splits)
  fix h'' assume "h'' \<in> Hd" "h' \<noteq> h''"
  moreover have "set zs \<inter> set (S k) = {}" if "k \<in> Hd" "k \<noteq> h" for k
    using disj that by (auto simp: members_def)
  ultimately show "set ((S(h := zs)) h') \<inter> set ((S(h := zs)) h'') = {}"
    using R h' by (auto simp: rings_def)
qed

locale ring_family =
  fixes nx pv :: "timer_node \<Rightarrow> tptr" and Hd :: "tptr set"
  assumes heads: "h \<in> Hd \<Longrightarrow> \<not> is_cell h \<and> h \<noteq> Null"
begin

lemma rings_nodes:
  assumes "rings nx pv Hd m S" "h \<in> Hd"
  shows "set (h # S h) \<subseteq> dom m" "Null \<notin> set (h # S h)"
proof -
  show "set (h # S h) \<subseteq> dom m" using rings_ring [OF assms] by (simp add: ring_def)
  show "Null \<notin> set (h # S h)"
    using heads [OF assms(2)] rings_cell_at [OF assms, of Null] by auto
qed

text \<open>A change that leaves the links of every node of the family alone keeps the family.\<close>

lemma rings_frame:
  assumes R: "rings nx pv Hd m S"
    and same: "\<And>q. q \<in> Hd \<union> members Hd S \<Longrightarrow> fld nx m' q = fld nx m q \<and> fld pv m' q = fld pv m q"
    and dom: "Hd \<union> members Hd S \<subseteq> dom m'"
  shows "rings nx pv Hd m' S"
proof -
  have "ring nx pv m' h (S h)" if h: "h \<in> Hd" for h
  proof -
    have "set (h # S h) \<subseteq> Hd \<union> members Hd S" using h by (auto simp: members_def)
    with same have "dseg nx pv m' h (S h) h = dseg nx pv m h (S h) h"
      by (intro dseg_frame) auto
    with rings_ring [OF R h] dom \<open>set (h # S h) \<subseteq> Hd \<union> members Hd S\<close> show ?thesis
      unfolding ring_def by blast
  qed
  with R show ?thesis by (simp add: rings_def)
qed

lemma ring_other:
  assumes R: "rings nx pv Hd m S" and h: "h \<in> Hd" "h' \<in> Hd" "h' \<noteq> h" and dom: "dom m' = dom m"
    and nx: "\<And>q. q \<notin> set (h # S h) \<Longrightarrow> q \<notin> X \<Longrightarrow> fld nx m' q = fld nx m q"
    and pv: "\<And>q. q \<notin> set (h # S h) \<Longrightarrow> q \<notin> X \<Longrightarrow> fld pv m' q = fld pv m q"
    and X: "X \<inter> (Hd \<union> members Hd S) = {}"
  shows "ring nx pv m' h' (S h')"
proof -
  have "set (h' # S h') \<inter> set (h # S h) = {}"
    using R h heads by (auto simp: rings_def)
  moreover have "set (h' # S h') \<inter> X = {}" using X h(2) by (auto simp: members_def)
  ultimately have "dseg nx pv m' h' (S h') h' = dseg nx pv m h' (S h') h'"
    by (intro dseg_frame nx pv) auto
  with rings_ring [OF R h(2)] dom show ?thesis by (simp add: ring_def)
qed

lemma rings_link:
  assumes R: "rings nx pv Hd m S" and h: "h \<in> Hd" and S: "S h = xs @ ys"
    and L: "linked nx pv m m' (last (h # xs)) r (hd (ys @ [h]))"
    and r: "is_cell r" "r \<in> dom m" "r \<notin> members Hd S"
  shows "rings nx pv Hd m' (S(h := xs @ r # ys))"
proof -
  have rh: "r \<notin> Hd" using heads r(1) by blast
  have ring_h: "ring nx pv m' h (xs @ r # ys)"
    by (rule ring_link [OF _ L r(2)]) (use rings_ring [OF R h] S r(3) rh h in \<open>auto simp: members_def\<close>)
  have "ring nx pv m' h' (S h')" if "h' \<in> Hd" "h' \<noteq> h" for h'
  proof (rule ring_other [OF R h that, where X = "{r}"])
    have "last (h # xs) \<in> set (h # S h)" "hd (ys @ [h]) \<in> set (h # S h)"
      using S by (auto simp: hd_append)
    then show "fld nx m' q = fld nx m q" "fld pv m' q = fld pv m q"
      if "q \<notin> set (h # S h)" "q \<notin> {r}" for q
      using L that unfolding linked_def by auto
  qed (use L r(3) rh in \<open>auto simp: linked_def\<close>)
  moreover have "is_cell p" if "p \<in> set (xs @ r # ys)" for p
    using that r(1) S rings_cell_at [OF R h, of p] by auto
  moreover have "set (xs @ r # ys) \<inter> members (Hd - {h}) S = {}"
    using rings_disjoint [OF R h] S r(3) by (auto simp: members_def)
  ultimately show ?thesis using rings_updI [OF R h ring_h] by blast
qed

lemma rings_unlink:
  assumes R: "rings nx pv Hd m S" and h: "h \<in> Hd" and S: "S h = xs @ r # ys"
    and U: "unlinked nx pv m m' r"
  shows "rings nx pv Hd m' (S(h := xs @ ys))"
proof -
  note ring_h = rings_ring [OF R h, unfolded S]
  then have "dseg nx pv m h xs r" "dseg nx pv m r ys h" by (simp_all add: ring_def dseg_append)
  then have ends: "fld pv m r \<in> set (h # S h)" "fld nx m r \<in> set (h # S h)"
    using dseg_last dseg_first S by (fastforce simp: hd_append)+
  have "ring nx pv m' h' (S h')" if "h' \<in> Hd" "h' \<noteq> h" for h'
  proof (rule ring_other [OF R h that, where X = "{}"])
    show "fld nx m' q = fld nx m q" "fld pv m' q = fld pv m q" if "q \<notin> set (h # S h)" "q \<notin> {}" for q
      using U ends that S unfolding unlinked_def by auto
  qed (use U in \<open>auto simp: unlinked_def\<close>)
  moreover have "is_cell p" if "p \<in> set (xs @ ys)" for p
    using that S rings_cell_at [OF R h, of p] by auto
  moreover have "set (xs @ ys) \<inter> members (Hd - {h}) S = {}"
    using rings_disjoint [OF R h] S by auto
  ultimately show ?thesis using rings_updI [OF R h ring_unlink [OF ring_h U]] by blast
qed

lemma rings_first_last:
  assumes "rings nx pv Hd m S" "h \<in> Hd"
  shows "fld pv m h = last (h # S h)" "fld nx m h = hd (S h @ [h])"
  using rings_ring [OF assms] by (auto simp: ring_def dest: dseg_last dseg_first)

lemma rings_ends:
  assumes "rings nx pv Hd m S" "h \<in> Hd"
  shows "fld pv m h \<in> dom m" "fld nx m h \<in> dom m" "fld pv m h \<noteq> Null" "fld nx m h \<noteq> Null"
    "h \<in> dom m" "h \<noteq> Null"
proof -
  have "fld pv m h \<in> set (h # S h)" "fld nx m h \<in> set (h # S h)"
    unfolding rings_first_last [OF assms] by (auto simp: hd_append)
  moreover note rings_nodes [OF assms(1,2)]
  ultimately show "fld pv m h \<in> dom m" "fld nx m h \<in> dom m" "fld pv m h \<noteq> Null" "fld nx m h \<noteq> Null"
    "h \<in> dom m" "h \<noteq> Null" by auto
qed

lemma rings_inner:
  assumes "rings nx pv Hd m S" "h \<in> Hd" "r \<in> set (S h)"
  shows "fld pv m r \<in> dom m" "fld nx m r \<in> dom m" "fld pv m r \<noteq> Null" "fld nx m r \<noteq> Null"
    "fld pv m r \<noteq> r" "fld nx m r \<noteq> r"
proof -
  obtain xs ys where S: "S h = xs @ r # ys" using assms(3) by (auto simp: in_set_conv_decomp)
  have R: "ring nx pv m h (xs @ r # ys)" using rings_ring [OF assms(1,2)] S by simp
  then have "fld pv m r = last (h # xs)" "fld nx m r = hd (ys @ [h])"
    by (auto simp: ring_def dseg_append dest: dseg_last dseg_first)
  then have "fld pv m r \<in> set (h # xs)" "fld nx m r \<in> set (ys @ [h])" by (auto simp: hd_append)
  moreover note rings_nodes [OF assms(1,2)]
  moreover have "r \<notin> set (h # xs)" "r \<notin> set (ys @ [h])" using R by (auto simp: ring_def)
  ultimately show "fld pv m r \<in> dom m" "fld nx m r \<in> dom m" "fld pv m r \<noteq> Null" "fld nx m r \<noteq> Null"
    "fld pv m r \<noteq> r" "fld nx m r \<noteq> r" using S by auto
qed

end

section \<open>The two families of the timer\<close>

definition wheel_heads :: "tptr set" where
  "wheel_heads = {THead k | k. k < 256} \<union> {NHead i k | i k. i < 3 \<and> k < 64}"

definition hash_heads :: "tptr set" where
  "hash_heads = {HHead k | k. k < 1024}"

interpretation wheel: ring_family list_next list_prev wheel_heads
  by unfold_locales (auto simp: wheel_heads_def)

interpretation bucket: ring_family hash_next hash_prev hash_heads
  by unfold_locales (auto simp: hash_heads_def)

text \<open>A step that writes list links only, and one that writes hash links only.\<close>

definition same_data :: "tmem \<Rightarrow> tmem \<Rightarrow> bool" where
  "same_data m m' \<longleftrightarrow> dom m' = dom m \<and> (\<forall>q. fld tn_u m' q = fld tn_u m q \<and> fld tn_call m' q = fld tn_call m q \<and>
     fld tn_expire m' q = fld tn_expire m q \<and> fld tn_id m' q = fld tn_id m q)"

definition same_list :: "tmem \<Rightarrow> tmem \<Rightarrow> bool" where
  "same_list m m' \<longleftrightarrow> (\<forall>q. fld list_next m' q = fld list_next m q \<and> fld list_prev m' q = fld list_prev m q)"

definition same_hash :: "tmem \<Rightarrow> tmem \<Rightarrow> bool" where
  "same_hash m m' \<longleftrightarrow> (\<forall>q. fld hash_next m' q = fld hash_next m q \<and> fld hash_prev m' q = fld hash_prev m q)"

lemmas same_defs = same_data_def same_list_def same_hash_def

lemma same_data_trans: "same_data m m' \<Longrightarrow> same_data m' m'' \<Longrightarrow> same_data m m''"
  and same_list_trans: "same_list m m' \<Longrightarrow> same_list m' m'' \<Longrightarrow> same_list m m''"
  and same_hash_trans: "same_hash m m' \<Longrightarrow> same_hash m' m'' \<Longrightarrow> same_hash m m''"
  by (simp_all add: same_defs)

lemma fld_folds:
  "list_prev (the (m p)) = fld list_prev m p" "list_next (the (m p)) = fld list_next m p"
  "hash_prev (the (m p)) = fld hash_prev m p" "hash_next (the (m p)) = fld hash_next m p"
  "tn_id (the (m p)) = fld tn_id m p" "tn_expire (the (m p)) = fld tn_expire m p"
  "tn_u (the (m p)) = fld tn_u m p" "tn_call (the (m p)) = fld tn_call m p"
  by (simp_all add: fld_def)

lemmas step_simps = tload_dom fld_folds fld_mupd fld_mupd_frame

lemma list_add_effect:
  assumes "r \<in> dom m" "r \<noteq> Null" "fld list_prev m r = Null" "fld list_next m r = Null"
    "h \<in> dom m" "h \<noteq> Null" "fld list_prev m h = a" "a \<in> dom m" "a \<noteq> Null" "r \<noteq> a" "r \<noteq> h"
  shows "\<exists>m'. list_add m h r = ret m' \<and> linked list_next list_prev m m' a r h \<and>
    same_data m m' \<and> same_hash m m'"
  using assms by (simp add: list_add_def step_simps linked_def same_defs)

lemma addto_hash_effect:
  assumes "r \<in> dom m" "r \<noteq> Null" "fld hash_prev m r = Null" "fld hash_next m r = Null"
    "h = HHead (HASH (fld tn_id m r))" "h \<in> dom m" "fld hash_next m h = b" "b \<in> dom m" "b \<noteq> Null"
    "r \<noteq> b" "r \<noteq> h"
  shows "\<exists>m'. addto_hash m r = ret m' \<and> linked hash_next hash_prev m m' h r b \<and>
    same_data m m' \<and> same_list m m'"
  using assms by (simp add: addto_hash_def step_simps linked_def same_defs Let_def)

lemma delfrom_list_effect:
  assumes "r \<in> dom m" "r \<noteq> Null" "fld hash_prev m r \<noteq> Null" "fld hash_next m r \<noteq> Null"
    "fld list_prev m r \<in> dom m" "fld list_prev m r \<noteq> Null" "fld list_prev m r \<noteq> r"
    "fld list_next m r \<in> dom m" "fld list_next m r \<noteq> Null" "fld list_next m r \<noteq> r"
  shows "\<exists>m'. delfrom_list m r = ret m' \<and> unlinked list_next list_prev m m' r \<and>
    same_data m m' \<and> same_hash m m'"
  using assms by (auto simp: delfrom_list_def step_simps unlinked_def same_defs)

lemma delfrom_hash_effect:
  assumes "r \<in> dom m" "r \<noteq> Null"
    "fld hash_prev m r \<in> dom m" "fld hash_prev m r \<noteq> Null" "fld hash_prev m r \<noteq> r"
    "fld hash_next m r \<in> dom m" "fld hash_next m r \<noteq> Null" "fld hash_next m r \<noteq> r"
  shows "\<exists>m'. delfrom_hash m r = ret m' \<and> unlinked hash_next hash_prev m m' r \<and>
    same_data m m' \<and> same_list m m'"
  using assms by (auto simp: delfrom_hash_def step_simps unlinked_def same_defs)

end
