(* ===== verification/CoreTimer.thy ===== *)
theory CoreTimer
  imports TimerRings
begin

text \<open>
  The timer wheel of \<^verbatim>\<open>net/coretimer.c\<close>: its state, node allocation, the wheel's four levels, adding,
  deleting, the tick and the update that catches up with the system clock. The callback a node names
  is a parameter \<open>cb\<close> of the operations that call it; it may change the timer and whatever else the
  process holds (the type variable of the world).
\<close>

section \<open>State\<close>

record core_timer =
  mem :: tmem
  brk :: nat
  index :: u32
  timer_tick :: u64
  time :: u32
  freenode :: tptr
  free_cnt :: u32
  use_cnt :: u32
  lock :: u32

type_synonym 'w callback = "nat \<Rightarrow> nat \<Rightarrow> 'w \<times> core_timer \<Rightarrow> ('w \<times> core_timer) prog"

text \<open>\<open>brk\<close> numbers the cells that \<^verbatim>\<open>malloc\<close> has handed out; a freed cell leaves the memory.\<close>

definition TIME_SLOT_LEN :: u64 where
  "TIME_SLOT_LEN = 10"

definition gettime :: "u64 \<Rightarrow> u64" where
  "gettime filetime = filetime div 10 div 1000 div TIME_SLOT_LEN"

text \<open>The spin loop of \<^verbatim>\<open>LOCK\<close> never ends when the calling thread holds the lock itself.\<close>

definition LOCK :: "core_timer \<Rightarrow> core_timer prog" where
  "LOCK t = (if lock t = 0 then ret (t\<lparr>lock := 1\<rparr>) else diverge)"

definition UNLOCK :: "core_timer \<Rightarrow> core_timer" where
  "UNLOCK t = t\<lparr>lock := 0\<rparr>"

definition zero_node :: timer_node where
  "zero_node = \<lparr>tn_u = 0, tn_call = 0, list_prev = Null, list_next = Null,
     hash_prev = Null, hash_next = Null, tn_expire = 0, tn_id = 0\<rparr>"

text \<open>
  After the \<^verbatim>\<open>memset\<close> the three loops link the sentinels of \<^verbatim>\<open>n[0..2]\<close>, \<^verbatim>\<open>t\<close> and \<^verbatim>\<open>h\<close> to
  themselves. The row \<^verbatim>\<open>n[3]\<close> exists and keeps its zeroes.
\<close>

fun new_mem :: tmem where
  "new_mem (NHead i j) = (if j < 64 then
     if i < 3 then Some (zero_node\<lparr>list_next := NHead i j, list_prev := NHead i j\<rparr>)
     else if i = 3 then Some zero_node else None else None)"
| "new_mem (THead j) = (if j < 256 then Some (zero_node\<lparr>list_next := THead j, list_prev := THead j\<rparr>) else None)"
| "new_mem (HHead j) = (if j < 1024 then Some (zero_node\<lparr>hash_next := HHead j, hash_prev := HHead j\<rparr>) else None)"
| "new_mem Null = None"
| "new_mem (Cell a) = None"

definition coretimer_new :: "u64 \<Rightarrow> core_timer" where
  "coretimer_new filetime = \<lparr>mem = new_mem, brk = 0, index = 0, timer_tick = gettime filetime, time = 0,
     freenode = Null, free_cnt = 0, use_cnt = 0, lock = 0\<rparr>"

section \<open>Allocation\<close>

text \<open>
  A fresh cell is given a zeroed node; \<^verbatim>\<open>coretimer_add\<close>, the only caller, assigns every field
  before reading any. Allocation is taken to succeed, as the code takes it.
\<close>

definition timernode_alloc :: "core_timer \<Rightarrow> (tptr \<times> core_timer) prog" where
  "timernode_alloc timer =
     bnd (LOCK timer) (\<lambda>timer.
     let node = freenode timer in
     bnd (if node \<noteq> Null then
            bnd (tload (mem timer) node) (\<lambda>n.
            ret (timer\<lparr>freenode := list_next n, free_cnt := free_cnt timer - 1\<rparr>))
          else ret timer) (\<lambda>timer.
     let timer = UNLOCK (timer\<lparr>use_cnt := use_cnt timer + 1\<rparr>) in
     if node = Null then
       ret (Cell (brk timer), timer\<lparr>mem := (mem timer)(Cell (brk timer) \<mapsto> zero_node), brk := brk timer + 1\<rparr>)
     else ret (node, timer)))"

definition free_cell :: "core_timer \<Rightarrow> tptr \<Rightarrow> core_timer" where
  "free_cell timer node = timer\<lparr>mem := (mem timer)(node := None)\<rparr>"

definition timernode_dealloc :: "core_timer \<Rightarrow> tptr \<Rightarrow> core_timer prog" where
  "timernode_dealloc timer node =
     bnd (LOCK timer) (\<lambda>timer.
     let timer = timer\<lparr>use_cnt := use_cnt timer - 1\<rparr>;
         us = drop_bit 3 (use_cnt timer);
         fc = free_cnt timer;
         timer = UNLOCK timer;
         us = (if us \<noteq> 0 then us else 1) in
     if fc \<ge> us then ret (free_cell timer node)
     else
       bnd (LOCK timer) (\<lambda>timer.
       bnd (tmod (mem timer) node (list_next_update (\<lambda>_. freenode timer))) (\<lambda>m.
       ret (UNLOCK (timer\<lparr>mem := m, freenode := node, free_cnt := free_cnt timer + 1\<rparr>)))))"

section \<open>The wheel\<close>

text \<open>The loop of \<^verbatim>\<open>addto_list\<close> that finds the level; it ends with 3 when no level matches.\<close>

function addto_level :: "u32 \<Rightarrow> u32 \<Rightarrow> nat \<Rightarrow> u32 \<Rightarrow> nat" where
  "addto_level expire current_time i msk =
     (if i < 3 then
        if (expire OR (msk - 1)) = (current_time OR (msk - 1)) then i
        else addto_level expire current_time (i + 1) (push_bit 6 msk)
      else i)"
  by pat_completeness auto
termination by (relation "measure (\<lambda>(_, _, i, _). 3 - i)") auto

definition addto_list :: "core_timer \<Rightarrow> tptr \<Rightarrow> core_timer prog" where
  "addto_list timer r =
     bnd (tload (mem timer) r) (\<lambda>rn.
     let expire = tn_expire rn; current_time = time timer in
     bnd (assert_c (\<not> expire < current_time)) (\<lambda>_.
     bnd (if (expire OR 255) = (current_time OR 255) then
            list_add (mem timer) (THead (unat (expire AND 255))) r
          else
            let i = addto_level expire current_time 0 (push_bit 6 256) in
            list_add (mem timer) (NHead i (unat (drop_bit (8 + i * 6) expire AND 63))) r) (\<lambda>m.
     ret (timer\<lparr>mem := m\<rparr>))))"

definition coretimer_add :: "core_timer \<Rightarrow> nat \<Rightarrow> nat \<Rightarrow> u32 \<Rightarrow> (u32 \<times> core_timer) prog" where
  "coretimer_add t call ctx wait =
     bnd (timernode_alloc t) (\<lambda>(r, t).
     let t = t\<lparr>index := index t + 1\<rparr>;
         wait = wait div 10;
         wait = (if wait \<noteq> 0 then wait else 1) in
     bnd (tmod (mem t) r (\<lambda>_. \<lparr>tn_u = ctx, tn_call = call, list_prev = Null, list_next = Null,
            hash_prev = Null, hash_next = Null, tn_expire = time t + wait, tn_id = index t\<rparr>)) (\<lambda>m.
     bnd (LOCK (t\<lparr>mem := m\<rparr>)) (\<lambda>t.
     bnd (addto_list t r) (\<lambda>t.
     bnd (addto_hash (mem t) r) (\<lambda>m.
     let t = UNLOCK (t\<lparr>mem := m\<rparr>) in
     bnd (tload (mem t) r) (\<lambda>rn.
     ret (tn_id rn, t)))))))"

text \<open>The search of \<^verbatim>\<open>coretimer_del\<close> through one bucket, and the deletion.\<close>

partial_function (option) hash_find :: "tmem \<Rightarrow> tptr \<Rightarrow> u32 \<Rightarrow> tptr \<Rightarrow> tptr prog" where
  "hash_find m head ident r =
     (if r = head then ret Null
      else bnd (tload m r) (\<lambda>rn.
        if tn_id rn = ident then ret r else hash_find m head ident (hash_next rn)))"

definition coretimer_del :: "core_timer \<Rightarrow> u32 \<Rightarrow> core_timer prog" where
  "coretimer_del timer ident =
     (let head = HHead (HASH ident) in
     bnd (LOCK timer) (\<lambda>timer.
     bnd (tload (mem timer) head) (\<lambda>hn.
     bnd (hash_find (mem timer) head ident (hash_next hn)) (\<lambda>r.
     if r \<noteq> Null then
       bnd (delfrom_list (mem timer) r) (\<lambda>m.
       bnd (delfrom_hash m r) (\<lambda>m.
       timernode_dealloc (UNLOCK (timer\<lparr>mem := m\<rparr>)) r))
     else ret (UNLOCK timer)))))"

section \<open>Ticks\<close>

partial_function (option) execute_loop ::
  "'w callback \<Rightarrow> tptr \<Rightarrow> 'w \<Rightarrow> core_timer \<Rightarrow> ('w \<times> core_timer) prog" where
  "execute_loop cb r w timer =
     (if r = Null then ret (w, timer)
      else
        bnd (tload (mem timer) r) (\<lambda>rn.
        bnd (delfrom_hash (mem timer) r) (\<lambda>m.
        bnd (cb (tn_call rn) (tn_u rn) (w, UNLOCK (timer\<lparr>mem := m\<rparr>))) (\<lambda>(w, timer).
        bnd (timernode_dealloc timer r) (\<lambda>timer.
        bnd (LOCK timer) (\<lambda>timer.
        execute_loop cb (list_next rn) w timer))))))"

definition timer_execute :: "'w callback \<Rightarrow> 'w \<Rightarrow> core_timer \<Rightarrow> ('w \<times> core_timer) prog" where
  "timer_execute cb w timer =
     bnd (LOCK timer) (\<lambda>timer.
     let idx = unat (time timer AND 255) in
     bnd (list_clear (mem timer) (THead idx)) (\<lambda>(r, m).
     bnd (execute_loop cb r w (timer\<lparr>mem := m\<rparr>)) (\<lambda>(w, timer).
     ret (w, UNLOCK timer))))"

partial_function (option) move_loop :: "core_timer \<Rightarrow> tptr \<Rightarrow> core_timer prog" where
  "move_loop timer r =
     (if r = Null then ret timer
      else
        bnd (tload (mem timer) r) (\<lambda>rn.
        bnd (tmod (mem timer) r (list_prev_update (\<lambda>_. Null))) (\<lambda>m.
        bnd (tmod m r (list_next_update (\<lambda>_. Null))) (\<lambda>m.
        bnd (addto_list (timer\<lparr>mem := m\<rparr>) r) (\<lambda>timer.
        move_loop timer (list_next rn))))))"

definition list_move :: "core_timer \<Rightarrow> nat \<Rightarrow> nat \<Rightarrow> core_timer prog" where
  "list_move timer level idx =
     bnd (list_clear (mem timer) (NHead level idx)) (\<lambda>(r, m).
     move_loop (timer\<lparr>mem := m\<rparr>) r)"

partial_function (option) shift_loop :: "core_timer \<Rightarrow> u32 \<Rightarrow> u32 \<Rightarrow> u32 \<Rightarrow> nat \<Rightarrow> core_timer prog" where
  "shift_loop timer ct msk t i =
     (if ct AND (msk - 1) = 0 then
        let idx = unat (t AND 63) in
        if idx \<noteq> 0 then list_move timer i idx
        else shift_loop timer ct (push_bit 6 msk) (drop_bit 6 t) (i + 1)
      else ret timer)"

definition timer_shift :: "core_timer \<Rightarrow> core_timer prog" where
  "timer_shift timer =
     bnd (LOCK timer) (\<lambda>timer.
     let timer = timer\<lparr>time := time timer + 1\<rparr>; ct = time timer in
     bnd (if ct = 0 then list_move timer 3 0
          else shift_loop timer ct 256 (drop_bit 8 ct) 0) (\<lambda>timer.
     ret (UNLOCK timer)))"

definition timer_tick_step :: "'w callback \<Rightarrow> 'w \<Rightarrow> core_timer \<Rightarrow> ('w \<times> core_timer) prog" where
  "timer_tick_step cb w timer =
     bnd (timer_execute cb w timer) (\<lambda>(w, timer).
     bnd (timer_shift timer) (\<lambda>timer.
     timer_execute cb w timer))"

primrec update_loop :: "'w callback \<Rightarrow> nat \<Rightarrow> 'w \<Rightarrow> core_timer \<Rightarrow> ('w \<times> core_timer) prog" where
  "update_loop cb 0 w timer = ret (w, timer)"
| "update_loop cb (Suc n) w timer =
     bnd (timer_tick_step cb w timer) (\<lambda>(w, timer). update_loop cb n w timer)"

text \<open>The number of ticks to catch up: a clock that went backwards is taken for one that wrapped.\<close>

definition update_diff :: "u64 \<Rightarrow> u64 \<Rightarrow> u32" where
  "update_diff prev_tick now_tick =
     (if now_tick < prev_tick then ucast (- 1 - prev_tick + now_tick)
      else if now_tick \<noteq> prev_tick then ucast (now_tick - prev_tick)
      else 0)"

definition coretimer_update :: "'w callback \<Rightarrow> u64 \<Rightarrow> 'w \<Rightarrow> core_timer \<Rightarrow> ('w \<times> core_timer) prog" where
  "coretimer_update cb filetime w timer =
     (let now_tick = gettime filetime in
     bnd (LOCK timer) (\<lambda>timer.
     let diff = update_diff (timer_tick timer) now_tick in
     if diff > 0 then
       update_loop cb (unat diff) w (UNLOCK (timer\<lparr>timer_tick := now_tick\<rparr>))
     else ret (w, UNLOCK timer)))"

section \<open>Deletion of the timer\<close>

partial_function (option) delete_bucket :: "core_timer \<Rightarrow> tptr \<Rightarrow> core_timer prog" where
  "delete_bucket t node =
     (if node = Null then ret t
      else
        bnd (tload (mem t) node) (\<lambda>nn.
        bnd (coretimer_del t (tn_id nn)) (\<lambda>t.
        delete_bucket t (hash_next nn))))"

function delete_buckets :: "core_timer \<Rightarrow> nat \<Rightarrow> core_timer prog" where
  "delete_buckets t i =
     (if i < 1024 then
        bnd (tload (mem t) (HHead i)) (\<lambda>hn.
        bnd (delete_bucket t (hash_next hn)) (\<lambda>t.
        delete_buckets t (i + 1)))
      else ret t)"
  by pat_completeness auto
termination by (relation "measure (\<lambda>(_, i). 1024 - i)") auto

declare delete_buckets.simps [simp del]

partial_function (option) free_loop :: "core_timer \<Rightarrow> tptr \<Rightarrow> core_timer prog" where
  "free_loop t node =
     (if node = Null then ret t
      else bnd (tload (mem t) node) (\<lambda>nn. free_loop (free_cell t node) (list_next nn)))"

definition coretimer_delete :: "core_timer \<Rightarrow> core_timer prog" where
  "coretimer_delete t =
     bnd (delete_buckets t 0) (\<lambda>t. free_loop t (freenode t))"

end
