(* ===== verification/TimerSlots.thy ===== *)
theory TimerSlots
  imports CoreTimer
begin

text \<open>
  Where the timer wheel keeps an expiry time. \<open>slot T E\<close> is the list \<^verbatim>\<open>addto_list\<close> chooses at time
  \<open>T\<close> for expiry \<open>E\<close>, and \<open>cascade T\<close> the list \<^verbatim>\<open>timer_shift\<close> empties when the time
  becomes \<open>T\<close>, both over natural numbers. The main fact is that advancing the time by one tick
  changes the slot of an expiry only for what that list holds.
\<close>

section \<open>Slots\<close>

definition slot :: "nat \<Rightarrow> nat \<Rightarrow> tptr" where
  "slot T E =
     (if E div 2 ^ 8 = T div 2 ^ 8 then THead (E mod 2 ^ 8)
      else if E div 2 ^ 14 = T div 2 ^ 14 then NHead 0 (E div 2 ^ 8 mod 64)
      else if E div 2 ^ 20 = T div 2 ^ 20 then NHead 1 (E div 2 ^ 14 mod 64)
      else if E div 2 ^ 26 = T div 2 ^ 26 then NHead 2 (E div 2 ^ 20 mod 64)
      else NHead 3 (E div 2 ^ 26 mod 64))"

definition cascade :: "nat \<Rightarrow> tptr option" where
  "cascade T =
     (if T mod 2 ^ 8 \<noteq> 0 then None
      else if T div 2 ^ 8 mod 64 \<noteq> 0 then Some (NHead 0 (T div 2 ^ 8 mod 64))
      else if T div 2 ^ 14 mod 64 \<noteq> 0 then Some (NHead 1 (T div 2 ^ 14 mod 64))
      else if T div 2 ^ 20 mod 64 \<noteq> 0 then Some (NHead 2 (T div 2 ^ 20 mod 64))
      else Some (NHead 3 (T div 2 ^ 26 mod 64)))"

lemma or_mask_eq_iff:
  fixes a b :: "'a::len word"
  assumes "k < LENGTH('a)"
  shows "(a OR (2 ^ k - 1)) = (b OR (2 ^ k - 1)) \<longleftrightarrow> unat a div 2 ^ k = unat b div 2 ^ k"
proof -
  have "(a OR mask k) = (b OR mask k) \<longleftrightarrow> drop_bit k a = drop_bit k b"
  proof
    assume eq: "(a OR mask k) = (b OR mask k)"
    show "drop_bit k a = drop_bit k b"
    proof (rule bit_word_eqI)
      fix n assume "n < LENGTH('a)"
      from eq have "bit (a OR mask k) (k + n) = bit (b OR mask k) (k + n)" by simp
      then show "bit (drop_bit k a) n = bit (drop_bit k b) n"
        by (simp add: bit_simps)
    qed
  next
    assume eq: "drop_bit k a = drop_bit k b"
    show "(a OR mask k) = (b OR mask k)"
    proof (rule bit_word_eqI)
      fix n assume n: "n < LENGTH('a)"
      have "bit a n = bit b n" if "\<not> n < k"
      proof -
        from eq have "bit (drop_bit k a) (n - k) = bit (drop_bit k b) (n - k)" by simp
        with that show ?thesis by (simp add: bit_simps)
      qed
      then show "bit (a OR mask k) n = bit (b OR mask k) n" using n by (auto simp: bit_simps)
    qed
  qed
  moreover have "drop_bit k a = drop_bit k b \<longleftrightarrow> unat a div 2 ^ k = unat b div 2 ^ k"
    by (simp only: word_unat_eq_iff unat_drop_bit_eq) (simp add: drop_bit_eq_div)
  ultimately show ?thesis by (simp add: mask_eq_exp_minus_1)
qed

lemma unat_and_63: "unat (w AND 63 :: u32) = unat w mod 64"
  using and_pow2_minus_1 [where 'a = 32, of 6 w] by simp

lemma unat_and_255: "unat (w AND 255 :: u32) = unat w mod 256"
  using and_pow2_minus_1 [where 'a = 32, of 8 w] by simp

lemma push_bit_levels:
  "push_bit 6 256 = (2 ^ 14 :: u32)" "push_bit 6 (2 ^ 14) = (2 ^ 20 :: u32)"
  "push_bit 6 (2 ^ 20) = (2 ^ 26 :: u32)"
  by (simp_all add: push_bit_eq_mult)

text \<open>The branches of \<^verbatim>\<open>addto_list\<close> pick the slot.\<close>

lemma addto_level_slot:
  assumes "unat e div 2 ^ 8 \<noteq> unat c div 2 ^ 8"
  shows "(let i = addto_level e c 0 (push_bit 6 256) in
      NHead i (unat (drop_bit (8 + i * 6) e AND 63))) = slot (unat c) (unat e)"
proof -
  have L: "addto_level e c 0 (2 ^ 14) =
    (if unat e div 2 ^ 14 = unat c div 2 ^ 14 then 0
     else if unat e div 2 ^ 20 = unat c div 2 ^ 20 then 1
     else if unat e div 2 ^ 26 = unat c div 2 ^ 26 then 2 else 3)"
    using or_mask_eq_iff [where 'a = 32, of 14 e c] or_mask_eq_iff [where 'a = 32, of 20 e c]
      or_mask_eq_iff [where 'a = 32, of 26 e c]
    by (simp add: addto_level.simps [of e c 0] addto_level.simps [of e c 1] addto_level.simps [of e c "Suc 0"]
        addto_level.simps [of e c 2] addto_level.simps [of e c 3] push_bit_eq_mult numeral_2_eq_2 [symmetric])
  show ?thesis
    using assms unfolding push_bit_levels L slot_def
    by (simp add: Let_def unat_and_63 drop_bit_eq_div unat_div)
qed

section \<open>What one tick changes\<close>

lemma div_step: "(Suc T) div N = (if (Suc T) mod N = 0 then Suc (T div N) else T div N)" for T N :: nat
  by (rule div_Suc)

lemma div_levels:
  "x div 2 ^ 14 = (x div 2 ^ 8) div 64" "x div 2 ^ 20 = (x div 2 ^ 8) div 64 div 64"
  "x div 2 ^ 26 = (x div 2 ^ 8) div 64 div 64 div 64" for x :: nat
  by (simp_all add: div_mult2_eq)

text \<open>The upper part of the slot, in units of 256 ticks.\<close>

lemma slot_high:
  assumes "E div 2 ^ 8 = a" "T div 2 ^ 8 = b" "a \<noteq> b"
  shows "slot T E = (if a div 64 = b div 64 then NHead 0 (a mod 64)
      else if a div 64 div 64 = b div 64 div 64 then NHead 1 (a div 64 mod 64)
      else if a div 64 div 64 div 64 = b div 64 div 64 div 64 then NHead 2 (a div 64 div 64 mod 64)
      else NHead 3 (a div 64 div 64 div 64 mod 64))"
  using assms by (simp only: slot_def div_levels if_False)

lemma cascade_high:
  assumes "T mod 2 ^ 8 = 0" "T div 2 ^ 8 = b"
  shows "cascade T = (if b mod 64 \<noteq> 0 then Some (NHead 0 (b mod 64))
      else if b div 64 mod 64 \<noteq> 0 then Some (NHead 1 (b div 64 mod 64))
      else if b div 64 div 64 mod 64 \<noteq> 0 then Some (NHead 2 (b div 64 div 64 mod 64))
      else Some (NHead 3 (b div 64 div 64 div 64 mod 64)))"
  using assms by (simp only: cascade_def div_levels) simp

lemma slot_step_low:
  assumes "(Suc T) mod 2 ^ 8 \<noteq> 0"
  shows "slot (Suc T) E = slot T E"
proof -
  have "(Suc T) div 2 ^ 8 = T div 2 ^ 8" using assms by (simp add: div_step)
  then show ?thesis by (simp only: slot_def div_levels)
qed

text \<open>
  A carry into the part above 256 ticks: the level whose digit becomes non-zero is the one emptied.
\<close>

lemma carry_step: "(Suc b) mod 64 = 0 \<Longrightarrow> (Suc b) div 64 = Suc (b div 64)"
  "(Suc b) mod 64 \<noteq> 0 \<Longrightarrow> (Suc b) div 64 = b div 64" for b :: nat
  by (simp_all add: div_step)

lemma slot_step_high:
  fixes a b :: nat
  assumes E: "E div 2 ^ 8 = a" and T: "T div 2 ^ 8 = b" "(Suc T) div 2 ^ 8 = Suc b" "(Suc T) mod 2 ^ 8 = 0"
    and ab: "Suc b < a" and change: "slot (Suc T) E \<noteq> slot T E"
  shows "cascade (Suc T) = Some (slot T E)"
proof -
  define c where "c = b div 64"
  define d where "d = c div 64"
  define a1 where "a1 = a div 64"
  define a2 where "a2 = a1 div 64"
  have le: "b \<noteq> a" "Suc b \<noteq> a" "c \<le> a1" "d \<le> a2" using ab unfolding c_def d_def a1_def a2_def by (auto intro!: div_le_mono)
  note S = slot_high [OF E T(1), folded c_def a1_def, folded d_def a2_def]
    slot_high [OF E T(2), folded a1_def, folded a2_def] cascade_high [OF T(3,2)]
  show ?thesis
  proof (cases "(Suc b) mod 64 = 0")
    case False
    then have "Suc b div 64 = c" by (simp add: carry_step c_def)
    then have "slot (Suc T) E = slot T E" using S(1,2) le by (simp only: d_def)
    with change show ?thesis by simp
  next
    case b: True
    then have c1: "(Suc b) div 64 = Suc c" by (simp add: carry_step c_def)
    have "Suc c \<le> a1" using div_le_mono [of "Suc b" a 64] ab c1 by (simp add: a1_def)
    show ?thesis
    proof (cases "(Suc c) mod 64 = 0")
      case False
      with change le S b c1 \<open>Suc c \<le> a1\<close> show ?thesis
        by (auto simp: carry_step d_def a2_def split: if_splits)
    next
      case c: True
      then have d1: "(Suc c) div 64 = Suc d" by (simp add: carry_step d_def)
      have "Suc d \<le> a2" using div_le_mono [of "Suc c" a1 64] \<open>Suc c \<le> a1\<close> d1 by (simp add: a2_def)
      then have sT: "slot T E = (if a2 div 64 = d div 64 then NHead 2 (a2 mod 64) else NHead 3 (a2 div 64 mod 64))"
        using S(1) \<open>Suc c \<le> a1\<close> le by simp
      have "a2 = Suc d" if "a1 = Suc c" using that d1 a2_def by simp
      then have "a2 = Suc d \<or> slot (Suc T) E =
          (if a2 div 64 = Suc d div 64 then NHead 2 (a2 mod 64) else NHead 3 (a2 div 64 mod 64))"
        using S(2) le by (simp add: c1 d1)
      then have "a2 = Suc d \<or> Suc d mod 64 = 0 \<and> a2 div 64 = Suc (d div 64)"
        using change sT div_le_mono [OF \<open>Suc d \<le> a2\<close>, of 64] by (cases "Suc d mod 64 = 0") (auto simp: carry_step split: if_splits)
      then show ?thesis using sT S(3) b c by (cases "Suc d mod 64 = 0") (auto simp: c1 d1 carry_step)
    qed
  qed
qed

theorem slot_step:
  assumes "T < E" "slot (Suc T) E \<noteq> slot T E"
  shows "cascade (Suc T) = Some (slot T E)"
proof -
  have carry: "(Suc T) mod 2 ^ 8 = 0" using assms(2) slot_step_low by blast
  then have T: "(Suc T) div 2 ^ 8 = Suc (T div 2 ^ 8)" by (simp add: div_step)
  have "Suc (T div 2 ^ 8) \<le> E div 2 ^ 8" using div_le_mono [of "Suc T" E "2 ^ 8"] assms(1) T by simp
  then consider "E div 2 ^ 8 = Suc (T div 2 ^ 8)" | "Suc (T div 2 ^ 8) < E div 2 ^ 8" by linarith
  then show ?thesis
  proof cases
    case 1
    then have "slot T E = (let a = Suc (T div 2 ^ 8) in if a mod 64 \<noteq> 0 then NHead 0 (a mod 64)
        else if a div 64 mod 64 \<noteq> 0 then NHead 1 (a div 64 mod 64)
        else if a div 64 div 64 mod 64 \<noteq> 0 then NHead 2 (a div 64 div 64 mod 64)
        else NHead 3 (a div 64 div 64 div 64 mod 64))"
      using slot_high [OF 1 refl] by (simp add: carry_step Let_def)
    then show ?thesis using cascade_high [OF carry T] by (simp add: Let_def)
  next
    case 2
    show ?thesis by (rule slot_step_high [OF refl refl T carry 2 assms(2)])
  qed
qed

lemma slot_now: "slot T E = THead (T mod 2 ^ 8) \<longleftrightarrow> E = T"
proof
  assume "slot T E = THead (T mod 2 ^ 8)"
  then have "E div 2 ^ 8 = T div 2 ^ 8" "E mod 2 ^ 8 = T mod 2 ^ 8" by (auto simp: slot_def split: if_splits)
  then show "E = T" by (metis mod_div_mult_eq)
qed (simp add: slot_def)

lemma slot_heads:
  assumes "T < 2 ^ 26" "E < 2 ^ 26"
  shows "slot T E \<in> wheel_heads"
  using assms by (auto simp: slot_def wheel_heads_def)

lemma mod_level: "x mod (N * 64) = 0 \<longleftrightarrow> x mod N = 0 \<and> x div N mod 64 = 0" if "N > 0" for x N :: nat
  using that unfolding mod_mult2_eq by auto

lemma mod_level_8: "x mod 2 ^ 14 = 0 \<longleftrightarrow> x mod 2 ^ 8 = 0 \<and> x div 2 ^ 8 mod 64 = 0" for x :: nat
  using mod_level [of "2 ^ 8" x] by simp

lemma mod_level_14: "x mod 2 ^ 20 = 0 \<longleftrightarrow> x mod 2 ^ 14 = 0 \<and> x div 2 ^ 14 mod 64 = 0" for x :: nat
  using mod_level [of "2 ^ 14" x] by simp

lemma mod_level_20: "x mod 2 ^ 26 = 0 \<longleftrightarrow> x mod 2 ^ 20 = 0 \<and> x div 2 ^ 20 mod 64 = 0" for x :: nat
  using mod_level [of "2 ^ 20" x] by simp

lemmas mod_levels = mod_level_20 mod_level_14 mod_level_8

lemma cascade_heads:
  assumes "T < 2 ^ 26" "0 < T" "cascade T = Some h"
  shows "h \<in> wheel_heads"
proof -
  have "T mod 2 ^ 26 \<noteq> 0" using assms(1,2) by simp
  then have "\<not> (T mod 2 ^ 8 = 0 \<and> T div 2 ^ 8 mod 64 = 0 \<and> T div 2 ^ 14 mod 64 = 0 \<and> T div 2 ^ 20 mod 64 = 0)"
    by (simp only: mod_levels conj_assoc not_False_eq_True)
  with assms(3) show ?thesis by (auto simp: cascade_def wheel_heads_def split: if_splits)
qed

text \<open>The loop of \<^verbatim>\<open>timer_shift\<close> empties the list \<open>cascade\<close> names.\<close>

lemma and_mask_zero_iff: "(ct AND (2 ^ k - 1) = 0) = (unat ct mod 2 ^ k = 0)" if "k < 32" for ct :: u32
  using and_pow2_minus_1 [where 'a = 32, of k ct] that by (simp flip: unat_eq_zero)

definition move_head :: "core_timer \<Rightarrow> tptr \<Rightarrow> core_timer prog" where
  "move_head t h = bnd (list_clear (mem t) h) (\<lambda>(r, m). move_loop (t\<lparr>mem := m\<rparr>) r)"

lemma list_move_head: "list_move t i j = move_head t (NHead i j)"
  by (simp add: list_move_def move_head_def)

lemma shift_loop_step:
  assumes "k < 32" "msk = 2 ^ k" "x = drop_bit k ct"
  shows "shift_loop t ct msk x i =
    (if unat ct mod 2 ^ k = 0 then
       if unat ct div 2 ^ k mod 64 \<noteq> 0 then move_head t (NHead i (unat ct div 2 ^ k mod 64))
       else shift_loop t ct (2 ^ (k + 6)) (drop_bit (k + 6) ct) (i + 1)
     else ret t)"
  unfolding assms(2,3)
  by (subst shift_loop.simps)
    (simp only: and_mask_zero_iff [OF assms(1)] Let_def unat_and_63 unat_drop_bit_eq list_move_head
      drop_bit_eq_div [where 'a = nat] drop_bit_drop_bit push_bit_eq_mult power_add mult.commute add.commute)

lemma shift_loop_cascade:
  assumes "ct \<noteq> 0"
  shows "shift_loop t ct 256 (drop_bit 8 ct) 0 =
    (case cascade (unat ct) of None \<Rightarrow> ret t | Some h \<Rightarrow> move_head t h)"
proof -
  have "unat ct div 2 ^ 26 < 2 ^ 6" using unsigned_less [of ct, where 'a = nat] by (simp add: less_mult_imp_div_less)
  moreover have "unat ct div 2 ^ 26 \<noteq> 0" if "unat ct mod 2 ^ 26 = 0"
    using that assms by (metis div_mult_mod_eq add_0_right mult_0 unat_eq_zero)
  ultimately have top: "unat ct mod 2 ^ 26 = 0 \<Longrightarrow> unat ct div 2 ^ 26 mod 64 \<noteq> 0" by simp
  show ?thesis
    using shift_loop_step [of 8 256 "drop_bit 8 ct" ct t 0] shift_loop_step [of 14 "2 ^ 14" _ ct t 1]
      shift_loop_step [of 20 "2 ^ 20" _ ct t 2] shift_loop_step [of 26 "2 ^ 26" _ ct t 3] top
    unfolding cascade_def mod_levels by (simp flip: numeral_2_eq_2)
qed

end
