(* ===== verification/TimerWheel.thy ===== *)
theory TimerWheel
  imports TimerSlots
begin

text \<open>
  The wheel as a family of queues: what \<^verbatim>\<open>list_clear\<close>, \<^verbatim>\<open>addto_list\<close>, \<^verbatim>\<open>list_move\<close> and
  \<^verbatim>\<open>timer_shift\<close> do to the wheel lists, and that a tick keeps, for every expiry time still ahead,
  the queue of the nodes that expire then.
\<close>

section \<open>Null-terminated chains\<close>

primrec nchain :: "tmem \<Rightarrow> tptr \<Rightarrow> tptr list \<Rightarrow> bool" where
  "nchain m p [] \<longleftrightarrow> p = Null"
| "nchain m p (x # xs) \<longleftrightarrow> p = x \<and> nchain m (fld list_next m x) xs"

lemma nchain_frame:
  assumes "\<And>q. q \<in> set xs \<Longrightarrow> fld list_next m' q = fld list_next m q"
  shows "nchain m' p xs = nchain m p xs"
  using assms by (induction xs arbitrary: p) auto

definition cleared :: "tmem \<Rightarrow> tmem \<Rightarrow> tptr \<Rightarrow> tptr list \<Rightarrow> bool" where
  "cleared m m' h xs \<longleftrightarrow>
     (\<forall>q. fld list_next m' q = (if q = h then h else if q = last xs then Null else fld list_next m q)) \<and>
     (\<forall>q. fld list_prev m' q = (if q = h then h else if q = hd xs then Null else fld list_prev m q)) \<and>
     same_data m m' \<and> same_hash m m'"

lemma list_clear_effect:
  assumes R: "ring list_next list_prev m h (x # xs)" and "Null \<notin> set (h # x # xs)"
  shows "\<exists>m'. list_clear m h = ret (x, m') \<and> cleared m m' h (x # xs)"
proof -
  have d: "dseg list_next list_prev m h (x # xs) h" and ds: "distinct (h # x # xs)" and dm: "set (h # x # xs) \<subseteq> dom m"
    using R by (auto simp: ring_def)
  have hx: "fld list_next m h = x" using d by simp
  have hl: "fld list_prev m h = last (x # xs)" using dseg_last [OF d] by simp
  have l: "last (x # xs) \<in> set (x # xs)" by simp
  have ne: "x \<noteq> h" "last (x # xs) \<noteq> h" "h \<noteq> Null" "x \<noteq> Null" "last (x # xs) \<noteq> Null"
    "h \<in> dom m" "x \<in> dom m" "last (x # xs) \<in> dom m"
    using ds dm assms(2) l by (auto simp del: last.simps)
  define z where "z = last (x # xs)"
  note ne' = ne [folded z_def] and hl' = hl [folded z_def]
  show ?thesis
    using ne' hx hl' unfolding cleared_def z_def [symmetric] list_clear_def
    by (simp add: step_simps same_defs Let_def del: last.simps)
qed

lemma nchain_of_dseg:
  assumes "dseg list_next list_prev m a xs h" "xs \<noteq> []" "distinct (h # xs)" "cleared m m' h ys" "last ys = last xs"
  shows "nchain m' (hd xs) xs"
  using assms
proof (induction xs arbitrary: a)
  case (Cons x xs)
  show ?case
  proof (cases xs)
    case Nil
    with Cons.prems show ?thesis by (auto simp: cleared_def)
  next
    case (Cons y zs)
    with Cons.prems Cons.IH [of x] have "nchain m' y xs" by simp
    moreover have "fld list_next m' x = fld list_next m x"
      using Cons.prems Cons by (auto simp: cleared_def)
    ultimately show ?thesis using Cons.prems Cons by simp
  qed
qed simp

text \<open>Emptying one ring of the wheel detaches its nodes as a null-terminated chain.\<close>

lemma list_clear_rings:
  assumes R: "rings list_next list_prev wheel_heads m W" and h: "h \<in> wheel_heads"
  shows "\<exists>r m'. list_clear m h = ret (r, m') \<and> rings list_next list_prev wheel_heads m' (W(h := [])) \<and>
    nchain m' r (W h) \<and> same_data m m' \<and> same_hash m m' \<and>
    (\<forall>q. q \<notin> set (h # W h) \<longrightarrow> fld list_next m' q = fld list_next m q)"
proof (cases "W h")
  case Nil
  have "fld list_next m h = h" using wheel.rings_first_last [OF R h] Nil by simp
  then have "list_clear m h = ret (Null, m)"
    using wheel.rings_ends [OF R h] by (simp add: list_clear_def step_simps Let_def)
  moreover have "W(h := []) = W" using Nil by auto
  ultimately show ?thesis using R Nil by (auto simp: same_defs)
next
  case (Cons x xs)
  note ring = rings_ring [OF R h, unfolded Cons]
  have "Null \<notin> set (h # x # xs)" using wheel.rings_nodes(2) [OF R h] Cons by simp
  then obtain m' where m': "list_clear m h = ret (x, m')" and C: "cleared m m' h (x # xs)"
    using list_clear_effect [OF ring] by blast
  have sd: "dom m' = dom m" using C by (simp add: cleared_def same_data_def)
  have frame: "fld list_next m' q = fld list_next m q" "fld list_prev m' q = fld list_prev m q"
    if "q \<notin> set (h # W h)" for q
  proof -
    have "q \<noteq> h" "q \<noteq> last (x # xs)" "q \<noteq> hd (x # xs)" using that Cons last_in_set [of "x # xs"] by auto
    then show "fld list_next m' q = fld list_next m q" "fld list_prev m' q = fld list_prev m q"
      using C by (simp_all add: cleared_def del: last.simps list.sel)
  qed
  have "ring list_next list_prev m' h []"
    using C ring sd by (simp add: ring_def cleared_def)
  moreover have "ring list_next list_prev m' h' (W h')" if "h' \<in> wheel_heads" "h' \<noteq> h" for h'
    by (rule wheel.ring_other [OF R h that sd, where X = "{}"]) (use frame in auto)
  ultimately have "rings list_next list_prev wheel_heads m' (W(h := []))"
    by (intro rings_updI [OF R h]) auto
  moreover have "nchain m' x (x # xs)"
    using nchain_of_dseg [of m h "x # xs" h m' "x # xs"] ring C by (simp add: ring_def)
  ultimately show ?thesis using m' C frame Cons by (auto simp: cleared_def)
qed

section \<open>The wheel invariant\<close>

definition expiry :: "tmem \<Rightarrow> tptr \<Rightarrow> nat" where
  "expiry m p = unat (fld tn_expire m p)"

definition wheel_ok :: "tmem \<Rightarrow> (tptr \<Rightarrow> tptr list) \<Rightarrow> nat \<Rightarrow> bool" where
  "wheel_ok m W T \<longleftrightarrow> rings list_next list_prev wheel_heads m W \<and> T < 2 ^ 26 \<and>
     (\<forall>h\<in>wheel_heads. \<forall>p\<in>set (W h). slot T (expiry m p) = h \<and> T \<le> expiry m p \<and> expiry m p < 2 ^ 26)"

text \<open>Appending a list of nodes, each to its slot.\<close>

definition place :: "nat \<Rightarrow> (tptr \<Rightarrow> nat) \<Rightarrow> tptr list \<Rightarrow> (tptr \<Rightarrow> tptr list) \<Rightarrow> tptr \<Rightarrow> tptr list" where
  "place T e xs W h = W h @ filter (\<lambda>p. slot T (e p) = h) xs"

lemma place_Nil [simp]: "place T e [] W = W"
  by (simp add: place_def fun_eq_iff)

lemma place_Cons: "place T e (x # xs) W = place T e xs (W(slot T (e x) := W (slot T (e x)) @ [x]))"
  by (auto simp: place_def fun_eq_iff)

lemma expiry_same [simp]: "same_data m m' \<Longrightarrow> expiry m' = expiry m"
  by (auto simp: expiry_def same_data_def fun_eq_iff)

lemma same_data_dom: "same_data m m' \<Longrightarrow> dom m' = dom m"
  by (simp add: same_data_def)

lemma wheel_ok_rings: "wheel_ok m W T \<Longrightarrow> rings list_next list_prev wheel_heads m W"
  by (simp add: wheel_ok_def)

lemma addto_list_slot:
  assumes r: "r \<in> dom (mem t)" "r \<noteq> Null" and le: "unat (time t) \<le> expiry (mem t) r"
  shows "addto_list t r =
    bnd (list_add (mem t) (slot (unat (time t)) (expiry (mem t) r)) r) (\<lambda>m. ret (t\<lparr>mem := m\<rparr>))"
proof -
  define e c where ec: "e = fld tn_expire (mem t) r" "c = time t"
  have near: "(e OR 255) = (c OR 255) \<longleftrightarrow> unat e div 2 ^ 8 = unat c div 2 ^ 8"
    using or_mask_eq_iff [where 'a = 32, of 8 e c] by simp
  have "\<not> e < c" using le by (simp add: ec expiry_def word_less_nat_alt)
  then show ?thesis
    using r near addto_level_slot [of e c]
    by (auto simp: addto_list_def tload_dom fld_folds Let_def expiry_def slot_def unat_and_255 simp flip: ec)
qed

lemma addto_list_ok:
  assumes ok: "wheel_ok (mem t) W (unat (time t))" and r: "is_cell r" "r \<in> dom (mem t)" "r \<notin> members wheel_heads W"
    and null: "fld list_prev (mem t) r = Null" "fld list_next (mem t) r = Null"
    and E: "unat (time t) \<le> expiry (mem t) r" "expiry (mem t) r < 2 ^ 26"
  shows "\<exists>m'. addto_list t r = ret (t\<lparr>mem := m'\<rparr>) \<and>
    wheel_ok m' (place (unat (time t)) (expiry (mem t)) [r] W) (unat (time t)) \<and>
    same_data (mem t) m' \<and> same_hash (mem t) m' \<and>
    (\<forall>q. q \<notin> wheel_heads \<union> members wheel_heads W \<union> {r} \<longrightarrow> fld list_next m' q = fld list_next (mem t) q)"
proof -
  define m where "m = mem t"
  define h where "h = slot (unat (time t)) (expiry m r)"
  note R = wheel_ok_rings [OF ok, folded m_def]
  have T: "unat (time t) < 2 ^ 26" using ok by (simp add: wheel_ok_def)
  have h: "h \<in> wheel_heads" using slot_heads T E(2) by (simp add: h_def m_def)
  note ends = wheel.rings_ends [OF R h]
  have a: "fld list_prev m h = last (h # W h)" using wheel.rings_first_last [OF R h] by simp
  have "last (h # W h) \<in> set (h # W h)" by (rule last_in_set) simp
  moreover have "r \<notin> set (h # W h)" using h r wheel.heads [OF h] by (auto simp: members_def m_def)
  ultimately have ra: "r \<noteq> last (h # W h)" "r \<noteq> h" "r \<noteq> Null" using r(1) by auto
  obtain m' where m': "list_add m h r = ret m'" "linked list_next list_prev m m' (last (h # W h)) r h"
    "same_data m m'" "same_hash m m'"
    using list_add_effect [of r m h "last (h # W h)"] r(2) null ends ra a unfolding m_def by metis
  have W': "place (unat (time t)) (expiry m) [r] W = W(h := W h @ [r])"
    by (simp add: place_Cons h_def)
  have "rings list_next list_prev wheel_heads m' (W(h := W h @ [r]))"
    by (rule wheel.rings_link [OF R h, where ys = "[]", simplified]) (use m' r in \<open>auto simp: m_def\<close>)
  then have "wheel_ok m' (W(h := W h @ [r])) (unat (time t))"
    using ok E m'(3) T unfolding wheel_ok_def by (auto simp: h_def m_def)
  moreover have "fld list_next m' q = fld list_next m q" if "q \<notin> wheel_heads \<union> members wheel_heads W \<union> {r}" for q
  proof -
    have "q \<noteq> last (h # W h)" using that h \<open>last (h # W h) \<in> set (h # W h)\<close> by (auto simp: members_def)
    then show ?thesis using m'(2) that by (simp add: linked_def del: last.simps)
  qed
  moreover have "addto_list t r = ret (t\<lparr>mem := m'\<rparr>)"
    using addto_list_slot [of r t] r ra E m'(1) by (simp add: m_def h_def)
  ultimately show ?thesis using m' W' unfolding m_def by auto
qed

section \<open>Moving a list down\<close>

lemma members_place: "members wheel_heads (place T e xs W) \<subseteq> members wheel_heads W \<union> set xs"
  by (auto simp: members_def place_def)

lemma wheel_ok_frame:
  assumes ok: "wheel_ok m W T" and data: "expiry m' = expiry m" "dom m' = dom m"
    and "\<And>q. q \<notin> X \<Longrightarrow> fld list_next m' q = fld list_next m q \<and> fld list_prev m' q = fld list_prev m q"
    and "X \<inter> (wheel_heads \<union> members wheel_heads W) = {}"
  shows "wheel_ok m' W T"
proof -
  have "wheel_heads \<union> members wheel_heads W \<subseteq> dom m"
    using wheel.rings_ends [OF wheel_ok_rings [OF ok]] rings_cell [OF wheel_ok_rings [OF ok]] by blast
  then have "rings list_next list_prev wheel_heads m' W"
    by (intro wheel.rings_frame [OF wheel_ok_rings [OF ok]]) (use assms in blast)+
  then show ?thesis using ok data by (simp add: wheel_ok_def)
qed

lemma move_loop_ok:
  assumes "wheel_ok (mem t) W (unat (time t))" "nchain (mem t) r xs" "distinct xs"
    "\<And>p. p \<in> set xs \<Longrightarrow> is_cell p \<and> p \<in> dom (mem t) \<and> p \<notin> members wheel_heads W \<and>
       unat (time t) \<le> expiry (mem t) p \<and> expiry (mem t) p < 2 ^ 26"
  shows "\<exists>m'. move_loop t r = ret (t\<lparr>mem := m'\<rparr>) \<and>
    wheel_ok m' (place (unat (time t)) (expiry (mem t)) xs W) (unat (time t)) \<and>
    same_data (mem t) m' \<and> same_hash (mem t) m' \<and>
    (\<forall>q. q \<notin> wheel_heads \<union> members wheel_heads W \<union> set xs \<longrightarrow> fld list_next m' q = fld list_next (mem t) q)"
  using assms
proof (induction xs arbitrary: t r W)
  case Nil
  then have "move_loop t r = ret (t\<lparr>mem := mem t\<rparr>)" by (subst move_loop.simps) simp
  with Nil show ?case by (intro exI [of _ "mem t"]) (auto simp: same_defs)
next
  case (Cons x xs)
  define m where "m = mem t"
  define T where "T = unat (time t)"
  have x: "r = x" "is_cell x" "x \<noteq> Null" "x \<in> dom m" "x \<notin> members wheel_heads W" "T \<le> expiry m x" "expiry m x < 2 ^ 26"
    and tail: "nchain m (fld list_next m x) xs" "x \<notin> set xs"
    using Cons.prems(2,3) Cons.prems(4) [of x] by (auto simp: m_def T_def)
  define m1 where "m1 = mupd (mupd m x (list_prev_update (\<lambda>_. Null))) x (list_next_update (\<lambda>_. Null))"
  have m1: "dom m1 = dom m" "same_data m m1" "same_hash m m1" "fld list_prev m1 x = Null" "fld list_next m1 x = Null"
    and m1_other: "\<And>q. q \<noteq> x \<Longrightarrow> fld list_next m1 q = fld list_next m q \<and> fld list_prev m1 q = fld list_prev m q"
    using x by (auto simp: m1_def same_defs step_simps)
  have "x \<notin> wheel_heads" using x(2) wheel.heads by blast
  then have ok1: "wheel_ok m1 W T"
    by (intro wheel_ok_frame [OF Cons.prems(1) [folded m_def T_def], where X = "{x}"]) (use m1 m1_other x in auto)
  obtain m2 where m2: "addto_list (t\<lparr>mem := m1\<rparr>) x = ret (t\<lparr>mem := m2\<rparr>)" "wheel_ok m2 (place T (expiry m) [x] W) T"
    "same_data m1 m2" "same_hash m1 m2"
    "\<And>q. q \<notin> wheel_heads \<union> members wheel_heads W \<union> {x} \<Longrightarrow> fld list_next m2 q = fld list_next m1 q"
    using addto_list_ok [of "t\<lparr>mem := m1\<rparr>" W x] ok1 x m1 by (auto simp: T_def)
  define W1 where "W1 = place T (expiry m) [x] W"
  have step: "move_loop t r = move_loop (t\<lparr>mem := m2\<rparr>) (fld list_next m x)"
    by (subst move_loop.simps) (use x m2(1) in \<open>simp add: tload_dom fld_folds m1_def flip: m_def\<close>)
  have data2: "same_data m m2" "same_hash m m2"
    using m1 m2 same_data_trans same_hash_trans by blast+
  have away: "q \<notin> wheel_heads \<union> members wheel_heads W \<union> {x}" if "q \<in> set xs" for q
    using Cons.prems(4) [of q] that tail(2) wheel.heads [of q] by auto
  have ch: "nchain m2 (fld list_next m x) xs"
    using tail(1) by (subst nchain_frame [of xs m2 m]) (use m2(5) m1_other away in auto)
  have W1sub: "members wheel_heads W1 \<subseteq> members wheel_heads W \<union> {x}"
    using members_place [of T "expiry m" "[x]" W] by (simp add: W1_def)
  have "dom m2 = dom m" "expiry m2 = expiry m" using data2(1) by (simp_all add: same_data_def expiry_same [OF data2(1)])
  then have rest: "is_cell p \<and> p \<in> dom m2 \<and> p \<notin> members wheel_heads W1 \<and> T \<le> expiry m2 p \<and> expiry m2 p < 2 ^ 26"
    if "p \<in> set xs" for p
    using Cons.prems(4) [of p] that away [of p] W1sub by (auto simp: m_def T_def)
  obtain m' where m': "move_loop (t\<lparr>mem := m2\<rparr>) (fld list_next m x) = ret (t\<lparr>mem := m'\<rparr>)"
    "wheel_ok m' (place T (expiry m) xs W1) T" "same_data m2 m'" "same_hash m2 m'"
    "\<And>q. q \<notin> wheel_heads \<union> members wheel_heads W1 \<union> set xs \<Longrightarrow> fld list_next m' q = fld list_next m2 q"
    using Cons.IH [of "t\<lparr>mem := m2\<rparr>" W1 "fld list_next m x"] m2(2) ch Cons.prems(3)
      rest expiry_same [OF data2(1)] by (auto simp: T_def W1_def)
  have "same_data m m'" "same_hash m m'"
    using data2 m'(3,4) same_data_trans same_hash_trans by blast+
  moreover have "fld list_next m' q = fld list_next m q"
    if "q \<notin> wheel_heads \<union> members wheel_heads W \<union> set (x # xs)" for q
    using that m'(5) [of q] m2(5) [of q] m1_other [of q] W1sub by auto
  moreover have "place T (expiry m) (x # xs) W = place T (expiry m) xs W1"
    by (simp add: W1_def place_Cons)
  ultimately show ?case using step m'(1,2) unfolding m_def T_def by auto
qed

section \<open>Advancing the time\<close>

text \<open>The queue of the nodes that expire at \<open>E\<close>, in the order they will run.\<close>

definition queue_at :: "(tptr \<Rightarrow> nat) \<Rightarrow> (tptr \<Rightarrow> tptr list) \<Rightarrow> nat \<Rightarrow> nat \<Rightarrow> tptr list" where
  "queue_at e W T E = filter (\<lambda>p. e p = E) (W (slot T E))"

definition shifted :: "nat \<Rightarrow> (tptr \<Rightarrow> nat) \<Rightarrow> (tptr \<Rightarrow> tptr list) \<Rightarrow> tptr \<Rightarrow> tptr list" where
  "shifted T e W = (case cascade (Suc T) of None \<Rightarrow> W | Some c \<Rightarrow> place (Suc T) e (W c) (W(c := [])))"

text \<open>The nodes outside the list that is emptied are where the new time wants them.\<close>

lemma slots_after:
  assumes "\<And>p. p \<in> set (W h) \<Longrightarrow> slot T (e p) = h \<and> T < e p" "cascade (Suc T) \<noteq> Some h" "p \<in> set (W h)"
  shows "slot (Suc T) (e p) = h"
  using slot_step [of T "e p"] assms by metis

lemma queue_at_shifted:
  assumes slots: "\<And>h p. h \<in> Hd \<Longrightarrow> p \<in> set (W h) \<Longrightarrow> slot T (e p) = h \<and> T < e p"
    and Hd: "slot T E \<in> Hd" "slot (Suc T) E \<in> Hd" "\<And>c. cascade (Suc T) = Some c \<Longrightarrow> c \<in> Hd" and E: "T < E"
  shows "queue_at e (shifted T e W) (Suc T) E = queue_at e W T E"
proof (cases "cascade (Suc T)")
  case None
  then have "slot (Suc T) E = slot T E" using slot_step [OF E] by fastforce
  with None show ?thesis by (simp add: queue_at_def shifted_def)
next
  case (Some c)
  let ?s = "slot (Suc T) E"
  have q: "queue_at e (shifted T e W) (Suc T) E =
      filter (\<lambda>p. e p = E) ((W(c := [])) ?s) @ filter (\<lambda>p. e p = E \<and> slot (Suc T) (e p) = ?s) (W c)"
    using Some by (simp add: queue_at_def shifted_def place_def conj_commute)
  also have "filter (\<lambda>p. e p = E \<and> slot (Suc T) (e p) = ?s) (W c) = filter (\<lambda>p. e p = E) (W c)"
    by (rule filter_cong) auto
  finally have q': "queue_at e (shifted T e W) (Suc T) E =
      filter (\<lambda>p. e p = E) ((W(c := [])) ?s) @ filter (\<lambda>p. e p = E) (W c)" .
  have none: "filter (\<lambda>p. e p = E) (W h) = []" if "h \<in> Hd" "h \<noteq> slot T E" for h
    using that slots by (auto simp: filter_empty_conv)
  show ?thesis
  proof (cases "slot T E = c")
    case True
    then have "filter (\<lambda>p. e p = E) ((W(c := [])) ?s) = []" using none [of ?s] Hd by auto
    with q' True show ?thesis by (simp add: queue_at_def)
  next
    case False
    then have "?s = slot T E" using slot_step [OF E] Some by fastforce
    moreover have "filter (\<lambda>p. e p = E) (W c) = []" using none [of c] Hd(3) Some False by auto
    ultimately show ?thesis using q' False by (simp add: queue_at_def)
  qed
qed

lemma shift_move_ok:
  assumes ok: "wheel_ok (mem t) W T" and late: "\<And>h p. h \<in> wheel_heads \<Longrightarrow> p \<in> set (W h) \<Longrightarrow> T < expiry (mem t) p"
    and time: "unat (time t) = Suc T" and T: "Suc T < 2 ^ 26"
  shows "\<exists>m'. (case cascade (Suc T) of None \<Rightarrow> ret t | Some h \<Rightarrow> move_head t h) = ret (t\<lparr>mem := m'\<rparr>) \<and>
    wheel_ok m' (shifted T (expiry (mem t)) W) (Suc T) \<and> same_data (mem t) m' \<and> same_hash (mem t) m' \<and>
    (\<forall>q. q \<notin> wheel_heads \<union> members wheel_heads W \<longrightarrow> fld list_next m' q = fld list_next (mem t) q)"
proof (cases "cascade (Suc T)")
  case None
  have "wheel_ok (mem t) W (Suc T)"
    unfolding wheel_ok_def
    using ok late T None slots_after [of W _ T "expiry (mem t)"] by (auto simp: wheel_ok_def Suc_le_eq)
  then show ?thesis using None by (intro exI [of _ "mem t"]) (simp add: shifted_def same_defs)
next
  case (Some c)
  define m where "m = mem t"
  note R = wheel_ok_rings [OF ok, folded m_def]
  have c: "c \<in> wheel_heads" using cascade_heads [OF T _ Some] by simp
  obtain r m1 where m1: "list_clear m c = ret (r, m1)" "rings list_next list_prev wheel_heads m1 (W(c := []))"
    "nchain m1 r (W c)" "same_data m m1" "same_hash m m1"
    "\<And>q. q \<notin> set (c # W c) \<Longrightarrow> fld list_next m1 q = fld list_next m q"
    using list_clear_rings [OF R c] by blast
  have ok1: "wheel_ok m1 (W(c := [])) (Suc T)"
    unfolding wheel_ok_def
    using m1(2,4) ok late T Some slots_after [of W _ T "expiry m"] by (auto simp: wheel_ok_def Suc_le_eq m_def)
  have xs: "distinct (W c)" "\<And>p. p \<in> set (W c) \<Longrightarrow> is_cell p \<and> p \<in> dom m1 \<and> p \<notin> members wheel_heads (W(c := [])) \<and>
      Suc T \<le> expiry m1 p \<and> expiry m1 p < 2 ^ 26"
    using rings_ring [OF R c] rings_cell_at [OF R c] rings_disjoint [OF R c] expiry_same [OF m1(4)]
      same_data_dom [OF m1(4)] late [OF c] ok c
    by (auto simp: ring_def members_upd wheel_ok_def m_def Suc_le_eq)
  obtain m' where m': "move_loop (t\<lparr>mem := m1\<rparr>) r = ret (t\<lparr>mem := m'\<rparr>)"
    "wheel_ok m' (place (Suc T) (expiry m1) (W c) (W(c := []))) (Suc T)" "same_data m1 m'" "same_hash m1 m'"
    "\<And>q. q \<notin> wheel_heads \<union> members wheel_heads (W(c := [])) \<union> set (W c) \<Longrightarrow> fld list_next m' q = fld list_next m1 q"
    using move_loop_ok [of "t\<lparr>mem := m1\<rparr>" "W(c := [])" r "W c"] ok1 m1(3) xs time by auto
  have "move_head t c = ret (t\<lparr>mem := m'\<rparr>)" using m1(1) m'(1) by (simp add: move_head_def m_def)
  moreover have "fld list_next m' q = fld list_next m q" if "q \<notin> wheel_heads \<union> members wheel_heads W" for q
    using that m'(5) [of q] m1(6) [of q] c by (auto simp: members_def split: if_splits)
  moreover have "same_data m m'" "same_hash m m'"
    using m1 m' same_data_trans same_hash_trans by blast+
  ultimately show ?thesis using m'(2) m1(4) Some unfolding shifted_def m_def by auto
qed

end
