(* ===== verification/TimerInv.thy ===== *)
theory TimerInv
  imports TimerWheel
begin

text \<open>
  The invariant of the whole timer structure. Every cell the timer has allocated is in exactly one of
  four places: a wheel list, the chain of nodes detached for execution, the free list, or held by the
  operation that is running; the hash buckets hold the nodes of the first two. Each operation of
  \<^verbatim>\<open>net/coretimer.c\<close> is shown to keep it.
\<close>

section \<open>Hash buckets\<close>

definition hash_ok :: "tmem \<Rightarrow> (tptr \<Rightarrow> tptr list) \<Rightarrow> u32 \<Rightarrow> bool" where
  "hash_ok m B idx \<longleftrightarrow> rings hash_next hash_prev hash_heads m B \<and>
     (\<forall>h\<in>hash_heads. fld tn_id m h = 0 \<and>
        (\<forall>p\<in>set (B h). h = HHead (HASH (fld tn_id m p)) \<and> fld tn_id m p \<noteq> 0 \<and> fld tn_id m p \<le> idx)) \<and>
     inj_on (fld tn_id m) (members hash_heads B)"

lemma hash_ok_rings: "hash_ok m B i \<Longrightarrow> rings hash_next hash_prev hash_heads m B"
  by (simp add: hash_ok_def)

lemma HASH_head: "HHead (HASH k) \<in> hash_heads"
proof -
  have "unat (k AND 1023) < 1024" using and_pow2_minus_1 [where 'a = 32, of 10 k] by simp
  then show ?thesis by (simp add: hash_heads_def HASH_def)
qed

lemma hash_ok_frame:
  assumes ok: "hash_ok m B i"
    and same: "\<And>q. q \<in> hash_heads \<union> members hash_heads B \<Longrightarrow> q \<in> dom m' \<and> fld hash_next m' q = fld hash_next m q \<and>
      fld hash_prev m' q = fld hash_prev m q \<and> fld tn_id m' q = fld tn_id m q"
  shows "hash_ok m' B i"
proof -
  have "rings hash_next hash_prev hash_heads m' B"
    by (rule bucket.rings_frame [OF hash_ok_rings [OF ok]]) (use same in blast)+
  moreover have "p \<in> members hash_heads B" if "h \<in> hash_heads" "p \<in> set (B h)" for h p
    using that by (auto simp: members_def)
  ultimately show ?thesis using ok same unfolding hash_ok_def inj_on_def by (metis (no_types, lifting) UnCI)
qed

lemma hash_nodes_dom: "hash_ok m B i \<Longrightarrow> q \<in> hash_heads \<union> members hash_heads B \<Longrightarrow> q \<in> dom m"
  using bucket.rings_ends(5) [OF hash_ok_rings] rings_cell [OF hash_ok_rings] by blast

lemma hash_ok_same: "hash_ok m B i \<Longrightarrow> same_hash m m' \<Longrightarrow> same_data m m' \<Longrightarrow> hash_ok m' B i"
  by (rule hash_ok_frame) (auto simp: same_defs dest: hash_nodes_dom)

lemma hash_ok_mono: "hash_ok m B i \<Longrightarrow> i \<le> j \<Longrightarrow> hash_ok m B j"
  unfolding hash_ok_def by (meson order_trans)

lemma membersI: "h \<in> Hd \<Longrightarrow> p \<in> set (S h) \<Longrightarrow> p \<in> members Hd S"
  by (auto simp: members_def)

lemma members_insert: "h \<in> Hd \<Longrightarrow> S h = xs @ ys \<Longrightarrow> members Hd (S(h := xs @ r # ys)) = insert r (members Hd S)"
  unfolding members_def by (auto split: if_splits) (metis Un_iff set_append)

lemma members_remove:
  assumes "rings nx pv Hd m S" "h \<in> Hd" "S h = xs @ r # ys"
  shows "members Hd (S(h := xs @ ys)) = members Hd S - {r}"
proof -
  have "distinct (S h)" using rings_ring [OF assms(1,2)] by (simp add: ring_def)
  moreover have "r \<notin> members (Hd - {h}) S" using rings_disjoint [OF assms(1,2)] assms(3) by auto
  moreover have "members Hd S = set (S h) \<union> members (Hd - {h}) S" using assms(2) by (auto simp: members_def)
  ultimately show ?thesis using assms(2,3) by (auto simp: members_upd)
qed

lemma addto_hash_ok:
  assumes ok: "hash_ok m B i" and r: "is_cell r" "r \<in> dom m" "r \<notin> members hash_heads B"
    and null: "fld hash_prev m r = Null" "fld hash_next m r = Null"
    and new: "fld tn_id m r \<noteq> 0" "fld tn_id m r \<le> i" "\<And>p. p \<in> members hash_heads B \<Longrightarrow> fld tn_id m p \<noteq> fld tn_id m r"
  shows "\<exists>m' B'. addto_hash m r = ret m' \<and> hash_ok m' B' i \<and> members hash_heads B' = insert r (members hash_heads B) \<and>
    same_data m m' \<and> same_list m m'"
proof -
  define h where "h = HHead (HASH (fld tn_id m r))"
  have h: "h \<in> hash_heads" by (simp add: h_def HASH_head)
  note R = hash_ok_rings [OF ok]
  note ends = bucket.rings_ends [OF R h]
  have b: "fld hash_next m h = hd (B h @ [h])" using bucket.rings_first_last [OF R h] by simp
  have "hd (B h @ [h]) \<in> set (h # B h)" by (auto simp: hd_append)
  moreover have "r \<notin> set (h # B h)" using h r bucket.heads [OF h] by (auto simp: members_def)
  ultimately have rb: "r \<noteq> hd (B h @ [h])" "r \<noteq> h" "r \<noteq> Null" using r(1) by auto
  obtain m' where m': "addto_hash m r = ret m'" "linked hash_next hash_prev m m' h r (hd (B h @ [h]))"
    "same_data m m'" "same_list m m'"
    using addto_hash_effect [of r m h "hd (B h @ [h])"] r(2) null ends rb b h_def by metis
  define B' where "B' = B(h := r # B h)"
  have "rings hash_next hash_prev hash_heads m' B'"
    using bucket.rings_link [OF R h, where xs = "[]" and ys = "B h" and m' = m' and r = r] m'(2) r
    by (simp add: B'_def)
  moreover have mem: "members hash_heads B' = insert r (members hash_heads B)"
    using members_insert [OF h, where xs = "[]"] by (simp add: B'_def)
  moreover have ids: "fld tn_id m' = fld tn_id m" using m'(3) by (auto simp: same_data_def)
  moreover have "p = r \<and> k = h \<or> p \<in> set (B k)" if "p \<in> set (B' k)" for p k
    using that by (auto simp: B'_def split: if_splits)
  then have "\<forall>k\<in>hash_heads. \<forall>p\<in>set (B' k). k = HHead (HASH (fld tn_id m p)) \<and> fld tn_id m p \<noteq> 0 \<and> fld tn_id m p \<le> i"
    using ok new(1,2) unfolding hash_ok_def h_def by blast
  moreover have "inj_on (fld tn_id m) (insert r (members hash_heads B))"
    using ok new(3) r(3) unfolding hash_ok_def inj_on_insert by (metis Diff_empty Diff_insert0 imageE)
  ultimately have "hash_ok m' B' i"
    using ok unfolding hash_ok_def by simp
  with m' mem show ?thesis by blast
qed

lemma delfrom_hash_ok:
  assumes ok: "hash_ok m B i" and r: "r \<in> members hash_heads B"
  shows "\<exists>m' B'. delfrom_hash m r = ret m' \<and> hash_ok m' B' i \<and> members hash_heads B' = members hash_heads B - {r} \<and>
    same_data m m' \<and> same_list m m'"
proof -
  note R = hash_ok_rings [OF ok]
  obtain h xs ys where h: "h \<in> hash_heads" and B: "B h = xs @ r # ys"
    using r by (auto simp: members_def in_set_conv_decomp)
  have rh: "r \<in> set (B h)" using B by simp
  note inner = bucket.rings_inner [OF R h rh]
  have cell: "r \<in> dom m" "r \<noteq> Null" using rings_cell [OF R r] by auto
  obtain m' where m': "delfrom_hash m r = ret m'" "unlinked hash_next hash_prev m m' r" "same_data m m'" "same_list m m'"
    using delfrom_hash_effect [OF cell] inner by blast
  define B' where "B' = B(h := xs @ ys)"
  have rings: "rings hash_next hash_prev hash_heads m' B'"
    unfolding B'_def by (rule bucket.rings_unlink [OF R h B m'(2)])
  have mem: "members hash_heads B' = members hash_heads B - {r}"
    unfolding B'_def by (rule members_remove [OF R h B])
  have ids: "fld tn_id m' = fld tn_id m" using m'(3) by (auto simp: same_data_def)
  have sub: "set (B' k) \<subseteq> set (B k)" for k using B by (auto simp: B'_def)
  have "hash_ok m' B' i"
    unfolding hash_ok_def ids
  proof (intro conjI ballI)
    show "inj_on (fld tn_id m) (members hash_heads B')"
      using ok mem by (auto simp: hash_ok_def intro: inj_on_subset)
  qed (use ok sub rings in \<open>fastforce simp: hash_ok_def\<close>)+
  with m' mem show ?thesis by blast
qed

lemma hash_find_ok:
  assumes "dseg hash_next hash_prev m a xs h" "h \<notin> set xs" "set xs \<subseteq> dom m" "Null \<notin> set xs"
  shows "hash_find m h ident (fld hash_next m a) =
    ret (case find (\<lambda>p. fld tn_id m p = ident) xs of None \<Rightarrow> Null | Some r \<Rightarrow> r)"
  using assms
proof (induction xs arbitrary: a)
  case Nil
  then show ?case by (subst hash_find.simps) simp
next
  case (Cons x xs)
  then have x: "fld hash_next m a = x" "x \<noteq> h" "x \<in> dom m" "x \<noteq> Null" by auto
  with Cons show ?case
    by (subst hash_find.simps) (auto simp: tload_dom fld_folds)
qed

text \<open>The bucket of an identifier holds the node that carries it, if any node does.\<close>

lemma hash_lookup:
  assumes ok: "hash_ok m B i" and h_def: "h = HHead (HASH ident)"
  shows "hash_find m h ident (fld hash_next m h) = ret r \<longleftrightarrow>
    (if r = Null then \<forall>p\<in>members hash_heads B. fld tn_id m p \<noteq> ident
     else r \<in> members hash_heads B \<and> fld tn_id m r = ident)"
proof -
  have h: "h \<in> hash_heads" by (simp add: h_def HASH_head)
  note R = hash_ok_rings [OF ok]
  have d: "dseg hash_next hash_prev m h (B h) h" "h \<notin> set (B h)" "set (B h) \<subseteq> dom m" "Null \<notin> set (B h)"
    using rings_ring [OF R h] bucket.rings_nodes [OF R h] by (auto simp: ring_def)
  have here: "p \<in> set (B h)" if "p \<in> members hash_heads B" "fld tn_id m p = ident" for p
  proof -
    from that(1) obtain k where "k \<in> hash_heads" "p \<in> set (B k)" by (auto simp: members_def)
    with that(2) show ?thesis using ok by (auto simp: hash_ok_def h_def)
  qed
  have sub: "set (B h) \<subseteq> members hash_heads B" using h by (auto simp: members_def)
  show ?thesis
  proof (cases "find (\<lambda>p. fld tn_id m p = ident) (B h)")
    case None
    then have none: "\<forall>p\<in>members hash_heads B. fld tn_id m p \<noteq> ident" using here by (auto simp: find_None_iff)
    have "hash_find m h ident (fld hash_next m h) = ret Null" using hash_find_ok [OF d, of ident] None by simp
    with none show ?thesis by auto
  next
    case (Some p)
    then have p: "p \<in> set (B h)" "fld tn_id m p = ident" by (auto simp: find_Some_iff)
    then have pm: "p \<in> members hash_heads B" "p \<noteq> Null" using sub d(4) by auto
    have uniq: "q = p" if "q \<in> members hash_heads B" "fld tn_id m q = ident" for q
    proof -
      have "inj_on (fld tn_id m) (members hash_heads B)" using ok by (simp add: hash_ok_def)
      then show ?thesis by (rule inj_onD) (use pm(1) that p(2) in simp_all)
    qed
    have "hash_find m h ident (fld hash_next m h) = ret p" using hash_find_ok [OF d, of ident] Some by simp
    then show ?thesis using uniq [of r] pm p(2) by (cases "r = Null") (simp_all, blast+)
  qed
qed

section \<open>Taking a node out of the wheel\<close>

lemma delfrom_list_ok:
  assumes ok: "wheel_ok m W T" and r: "r \<in> members wheel_heads W"
    and hash: "fld hash_prev m r \<noteq> Null" "fld hash_next m r \<noteq> Null"
  shows "\<exists>m' W'. delfrom_list m r = ret m' \<and> wheel_ok m' W' T \<and> members wheel_heads W' = members wheel_heads W - {r} \<and>
    (\<forall>h\<in>wheel_heads. W' h = filter (\<lambda>p. p \<noteq> r) (W h)) \<and> same_data m m' \<and> same_hash m m' \<and>
    (\<forall>q. q \<notin> wheel_heads \<union> members wheel_heads W \<longrightarrow> fld list_next m' q = fld list_next m q)"
proof -
  note R = wheel_ok_rings [OF ok]
  obtain h xs ys where h: "h \<in> wheel_heads" and W: "W h = xs @ r # ys"
    using r by (auto simp: members_def in_set_conv_decomp)
  have rh: "r \<in> set (W h)" using W by simp
  note inner = wheel.rings_inner [OF R h rh]
  have cell: "r \<in> dom m" "r \<noteq> Null" using rings_cell [OF R r] by auto
  obtain m' where m': "delfrom_list m r = ret m'" "unlinked list_next list_prev m m' r" "same_data m m'" "same_hash m m'"
    using delfrom_list_effect [OF cell hash] inner by blast
  define W' where "W' = W(h := xs @ ys)"
  have mem: "members wheel_heads W' = members wheel_heads W - {r}"
    unfolding W'_def by (rule members_remove [OF R h W])
  have sub: "set (W' k) \<subseteq> set (W k)" for k using W by (auto simp: W'_def)
  have "wheel_ok m' W' T"
    unfolding wheel_ok_def expiry_same [OF m'(3)]
    using wheel.rings_unlink [OF R h W m'(2)] ok sub by (auto simp: wheel_ok_def W'_def [symmetric])
  moreover have "W' k = filter (\<lambda>p. p \<noteq> r) (W k)" if k: "k \<in> wheel_heads" for k
  proof (cases "k = h")
    case True
    have "distinct (W h)" using rings_ring [OF R h] by (simp add: ring_def)
    then have "filter (\<lambda>p. p \<noteq> r) xs = xs" "filter (\<lambda>p. p \<noteq> r) ys = ys" using W by (auto simp: filter_id_conv)
    with W True show ?thesis by (simp add: W'_def)
  next
    case False
    then have "r \<notin> set (W k)" using rings_disjoint [OF R h] k rh by (auto simp: members_def)
    then have "filter (\<lambda>p. p \<noteq> r) (W k) = W k" by (auto simp: filter_id_conv)
    with False show ?thesis by (simp add: W'_def)
  qed
  moreover have "fld list_next m' q = fld list_next m q" if "q \<notin> wheel_heads \<union> members wheel_heads W" for q
  proof -
    have "dseg list_next list_prev m h xs r" using rings_ring [OF R h] W by (simp add: ring_def dseg_append)
    then have "fld list_prev m r = last (h # xs)" by (rule dseg_last)
    also have "\<dots> \<in> set (h # xs)" by (rule last_in_set) simp
    finally have "fld list_prev m r \<in> wheel_heads \<union> members wheel_heads W"
      using h W membersI [OF h, of "fld list_prev m r" W] by auto
    then show ?thesis using m'(2) that r by (auto simp: unlinked_def)
  qed
  ultimately show ?thesis using m' mem by blast
qed

section \<open>The timer invariant\<close>

definition tinv ::
  "core_timer \<Rightarrow> (tptr \<Rightarrow> tptr list) \<Rightarrow> (tptr \<Rightarrow> tptr list) \<Rightarrow> tptr list \<Rightarrow> tptr list \<Rightarrow> tptr set \<Rightarrow> bool" where
  "tinv t W B F D X \<longleftrightarrow>
     wheel_ok (mem t) W (unat (time t)) \<and> hash_ok (mem t) B (index t) \<and>
     members hash_heads B = members wheel_heads W \<union> set D \<and>
     nchain (mem t) (freenode t) F \<and> distinct F \<and> unat (free_cnt t) = length F \<and>
     {p \<in> dom (mem t). is_cell p} = members wheel_heads W \<union> set D \<union> set F \<union> X \<and>
     members wheel_heads W \<inter> set D = {} \<and> (members wheel_heads W \<union> set D) \<inter> set F = {} \<and>
     (members wheel_heads W \<union> set D \<union> set F) \<inter> X = {} \<and>
     (\<forall>a\<ge>brk t. Cell a \<notin> dom (mem t))"

lemma tinvD:
  assumes "tinv t W B F D X"
  shows "wheel_ok (mem t) W (unat (time t))" "hash_ok (mem t) B (index t)"
    "members hash_heads B = members wheel_heads W \<union> set D" "nchain (mem t) (freenode t) F" "distinct F"
    "unat (free_cnt t) = length F" "\<And>p. p \<in> dom (mem t) \<and> is_cell p \<longleftrightarrow> p \<in> members wheel_heads W \<union> set D \<union> set F \<union> X"
    "members wheel_heads W \<inter> set D = {}" "(members wheel_heads W \<union> set D) \<inter> set F = {}"
    "(members wheel_heads W \<union> set D \<union> set F) \<inter> X = {}" "\<And>a. a \<ge> brk t \<Longrightarrow> Cell a \<notin> dom (mem t)"
  using assms unfolding tinv_def by blast+

lemma tinvI:
  assumes "wheel_ok (mem t) W (unat (time t))" "hash_ok (mem t) B (index t)"
    "members hash_heads B = members wheel_heads W \<union> set D" "nchain (mem t) (freenode t) F" "distinct F"
    "unat (free_cnt t) = length F" "\<And>p. p \<in> dom (mem t) \<and> is_cell p \<longleftrightarrow> p \<in> members wheel_heads W \<union> set D \<union> set F \<union> X"
    "members wheel_heads W \<inter> set D = {}" "(members wheel_heads W \<union> set D) \<inter> set F = {}"
    "(members wheel_heads W \<union> set D \<union> set F) \<inter> X = {}" "\<And>a. a \<ge> brk t \<Longrightarrow> Cell a \<notin> dom (mem t)"
  shows "tinv t W B F D X"
  using assms unfolding tinv_def by (intro conjI) (blast | assumption)+

lemma heads_not_cell: "h \<in> wheel_heads \<union> hash_heads \<Longrightarrow> \<not> is_cell h"
  using wheel.heads bucket.heads by blast

text \<open>
  An operation may change, allocate or free a cell that is on none of the lists.
\<close>

lemma tinv_change:
  assumes inv: "tinv t W B F D X" and r: "is_cell r" "r \<notin> members wheel_heads W \<union> set D \<union> set F"
    and same: "\<And>q. q \<noteq> r \<Longrightarrow> mem t' q = mem t q"
    and eq: "time t' = time t" "index t' = index t" "freenode t' = freenode t" "free_cnt t' = free_cnt t"
    and X': "X' = (if r \<in> dom (mem t') then insert r X else X - {r})" and brk: "\<And>a. a \<ge> brk t' \<Longrightarrow> Cell a \<notin> dom (mem t')"
  shows "tinv t' W B F D X'"
proof -
  note I = tinvD [OF inv]
  have ptr: "fld g (mem t') q = fld g (mem t) q" if "q \<noteq> r" for g :: "timer_node \<Rightarrow> tptr" and q
    using same [OF that] by (simp add: fld_def)
  have num: "fld g (mem t') q = fld g (mem t) q" if "q \<noteq> r" for g :: "timer_node \<Rightarrow> u32" and q
    using same [OF that] by (simp add: fld_def)
  have heads: "r \<notin> wheel_heads \<union> hash_heads" using r(1) heads_not_cell by blast
  have dom: "q \<in> dom (mem t') \<longleftrightarrow> q \<in> dom (mem t)" if "q \<noteq> r" for q using same [OF that] by (simp add: domIff)
  have "rings list_next list_prev wheel_heads (mem t') W"
  proof (rule wheel.rings_frame [OF wheel_ok_rings [OF I(1)]])
    show "wheel_heads \<union> members wheel_heads W \<subseteq> dom (mem t')"
    proof
      fix q assume q: "q \<in> wheel_heads \<union> members wheel_heads W"
      then have "q \<in> dom (mem t)"
        using wheel.rings_ends(5) [OF wheel_ok_rings [OF I(1)]] rings_cell [OF wheel_ok_rings [OF I(1)]] by blast
      moreover have "q \<noteq> r" using q heads r(2) by blast
      ultimately show "q \<in> dom (mem t')" using dom by blast
    qed
    show "fld list_next (mem t') q = fld list_next (mem t) q \<and> fld list_prev (mem t') q = fld list_prev (mem t) q"
      if "q \<in> wheel_heads \<union> members wheel_heads W" for q using that ptr [of q] heads r(2) by auto
  qed
  moreover have "expiry (mem t') p = expiry (mem t) p" if "p \<in> members wheel_heads W" for p
  proof -
    have "p \<noteq> r" using that r(2) by blast
    then show ?thesis by (simp add: expiry_def num)
  qed
  ultimately have w: "wheel_ok (mem t') W (unat (time t'))"
    using I(1) eq(1) unfolding wheel_ok_def by (simp add: membersI)
  have h: "hash_ok (mem t') B (index t')"
    unfolding eq(2)
  proof (rule hash_ok_frame [OF I(2)])
    fix q assume q: "q \<in> hash_heads \<union> members hash_heads B"
    then have "q \<noteq> r" using heads r(2) I(3) by blast
    then show "q \<in> dom (mem t') \<and> fld hash_next (mem t') q = fld hash_next (mem t) q \<and>
        fld hash_prev (mem t') q = fld hash_prev (mem t) q \<and> fld tn_id (mem t') q = fld tn_id (mem t) q"
      using ptr num dom hash_nodes_dom [OF I(2) q] by simp
  qed
  have f: "nchain (mem t') (freenode t') F"
    using I(4) eq(3) nchain_frame [of F "mem t'" "mem t"] ptr r(2) by (metis UnCI)
  have "p \<in> dom (mem t') \<and> is_cell p \<longleftrightarrow> p \<in> members wheel_heads W \<union> set D \<union> set F \<union> X'" for p
    using I(7) [of p] dom [of p] r X' by (cases "p = r") auto
  then have cells: "{p \<in> dom (mem t'). is_cell p} = members wheel_heads W \<union> set D \<union> set F \<union> X'" by blast
  have "(members wheel_heads W \<union> set D \<union> set F) \<inter> X' = {}" using I(10) r(2) X' by auto
  then show ?thesis
    unfolding tinv_def eq(4) by (intro conjI w h f cells I(3,5,6,8,9)) (use brk in blast)+
qed

section \<open>Allocation keeps the invariant\<close>

lemma tinv_push:
  assumes inv: "tinv t W B F D X" and r: "r \<in> X" "fld list_next (mem t) r = freenode t" and c: "unat c = Suc (length F)"
  shows "tinv (t\<lparr>freenode := r, free_cnt := c\<rparr>) W B (r # F) D (X - {r})"
proof -
  note I = tinvD [OF inv]
  have "r \<notin> members wheel_heads W \<union> set D \<union> set F" using I(10) r(1) by blast
  then show ?thesis
    by (intro tinvI) (use I r c in \<open>simp_all, blast+\<close>)
qed

lemma tinv_pop:
  assumes inv: "tinv t W B (r # F) D X" and c: "unat c = length F"
  shows "tinv (t\<lparr>freenode := fld list_next (mem t) r, free_cnt := c\<rparr>) W B F D (insert r X)"
proof -
  note I = tinvD [OF inv]
  have "members wheel_heads W \<inter> insert r X = {}" "set D \<inter> insert r X = {}" "set F \<inter> insert r X = {}"
    using I(5,9,10) by auto
  moreover have "p \<in> dom (mem t) \<and> is_cell p \<longleftrightarrow> p \<in> members wheel_heads W \<union> set D \<union> set F \<union> insert r X" for p
    using I(7) [of p] by auto
  ultimately show ?thesis
    by (intro tinvI) (use I c in \<open>simp_all add: Int_Un_distrib2\<close>)
qed

text \<open>What an operation leaves alone besides the memory.\<close>

definition same_clock :: "core_timer \<Rightarrow> core_timer \<Rightarrow> bool" where
  "same_clock t t' \<longleftrightarrow> time t' = time t \<and> index t' = index t \<and> timer_tick t' = timer_tick t"

lemma timernode_alloc_ok:
  assumes inv: "tinv t W B F D X" and lock: "lock t = 0"
  shows "\<exists>r t' F'. timernode_alloc t = ret (r, t') \<and> is_cell r \<and> r \<in> dom (mem t') \<and>
    r \<notin> members wheel_heads W \<union> set D \<union> X \<and> tinv t' W B F' D (insert r X) \<and> lock t' = 0 \<and> same_clock t t' \<and>
    (\<forall>q. q \<noteq> r \<longrightarrow> mem t' q = mem t q)"
proof (cases F)
  case Nil
  define r where "r = Cell (brk t)"
  define t' where "t' = t\<lparr>lock := 0, use_cnt := use_cnt t + 1, mem := (mem t)(r \<mapsto> zero_node), brk := brk t + 1\<rparr>"
  have free: "freenode t = Null" using tinvD(4) [OF inv] Nil by simp
  have new: "r \<notin> dom (mem t)" using tinvD(11) [OF inv, of "brk t"] by (simp add: r_def)
  then have out: "r \<notin> members wheel_heads W \<union> set D \<union> set F \<union> X" using tinvD(7) [OF inv, of r] by blast
  have "timernode_alloc t = ret (r, t')"
    using free lock by (simp add: timernode_alloc_def LOCK_def UNLOCK_def Let_def r_def t'_def)
  moreover have "tinv t' W B F D (insert r X)"
    by (rule tinv_change [OF inv, of r]) (use out tinvD(11) [OF inv] in \<open>auto simp: t'_def r_def\<close>)
  ultimately show ?thesis using out by (auto simp: t'_def r_def same_clock_def)
next
  case (Cons r F')
  define t' where "t' = t\<lparr>freenode := fld list_next (mem t) r, free_cnt := free_cnt t - 1, lock := 0, use_cnt := use_cnt t + 1\<rparr>"
  note I = tinvD [OF inv]
  have r: "freenode t = r" "nchain (mem t) (fld list_next (mem t) r) F'" "is_cell r" "r \<in> dom (mem t)" "r \<noteq> Null"
    using I(4) I(7) [of r] Cons by auto
  have "timernode_alloc t = ret (r, t')"
    using r lock by (simp add: timernode_alloc_def LOCK_def UNLOCK_def Let_def tload_dom fld_folds t'_def)
  moreover have "unat (free_cnt t - 1) = length F'"
    using I(6) Cons by (simp add: unat_minus_one unat_eq_0 [symmetric])
  then have "tinv (t\<lparr>freenode := fld list_next (mem t) r, free_cnt := free_cnt t - 1\<rparr>) W B F' D (insert r X)"
    using tinv_pop inv Cons by blast
  then have "tinv t' W B F' D (insert r X)" by (simp add: t'_def tinv_def)
  moreover have "r \<notin> members wheel_heads W \<union> set D \<union> X" using I(9,10) Cons by auto
  ultimately show ?thesis using r by (auto simp: t'_def same_clock_def)
qed

text \<open>
  Giving a node back: it is freed when \<open>us\<close> nodes or more are on the free list, and put on that list
  otherwise. The two versions of the timer differ only in how they compute the limit.
\<close>

definition release_node :: "core_timer \<Rightarrow> tptr \<Rightarrow> u32 \<Rightarrow> core_timer" where
  "release_node t r us = (if free_cnt t \<ge> us then free_cell (t\<lparr>use_cnt := use_cnt t - 1\<rparr>) r
     else t\<lparr>use_cnt := use_cnt t - 1, mem := mupd (mem t) r (list_next_update (\<lambda>_. freenode t)),
       freenode := r, free_cnt := free_cnt t + 1\<rparr>)"

lemma release_node_same [simp]:
  "same_clock t (release_node t r us)" "lock (release_node t r us) = lock t"
  "q \<noteq> r \<Longrightarrow> mem (release_node t r us) q = mem t q"
  by (simp_all add: release_node_def free_cell_def same_clock_def)

lemma release_node_ok:
  assumes inv: "tinv t W B F D X" and r: "r \<in> X"
  shows "\<exists>F'. tinv (release_node t r us) W B F' D (X - {r})"
proof -
  note I = tinvD [OF inv]
  have cell: "is_cell r" "r \<in> dom (mem t)" using I(7) [of r] r by auto
  have out: "r \<notin> members wheel_heads W \<union> set D \<union> set F" using I(10) r by blast
  show ?thesis
  proof (cases "free_cnt t \<ge> us")
    case True
    have "tinv (release_node t r us) W B F D (X - {r})"
      by (rule tinv_change [OF inv cell(1) out]) (use I(11) True in \<open>auto simp: release_node_def free_cell_def\<close>)
    then show ?thesis by blast
  next
    case False
    define m where "m = mupd (mem t) r (list_next_update (\<lambda>_. freenode t))"
    define t1 where "t1 = t\<lparr>use_cnt := use_cnt t - 1, mem := m\<rparr>"
    have "tinv t1 W B F D (insert r X)"
      by (rule tinv_change [OF inv cell(1) out]) (use I(11) cell in \<open>auto simp: t1_def m_def\<close>)
    then have t1: "tinv t1 W B F D X" using r by (simp add: insert_absorb)
    have nxt: "fld list_next m r = freenode t" using cell by (simp add: m_def fld_mupd)
    have "free_cnt t + 1 \<noteq> 0" using False by (metis add.commute add_eq_0_iff not_le word_order.extremum_strict)
    then have cnt: "unat (free_cnt t + 1) = Suc (length F)"
      using I(6) unatSuc [of "free_cnt t"] by (simp add: add.commute)
    have "tinv (t1\<lparr>freenode := r, free_cnt := free_cnt t + 1\<rparr>) W B (r # F) D (X - {r})"
      by (rule tinv_push [OF t1 r]) (use nxt cnt in \<open>simp_all add: t1_def\<close>)
    moreover have "release_node t r us = t1\<lparr>freenode := r, free_cnt := free_cnt t + 1\<rparr>"
      using False by (simp add: release_node_def t1_def m_def)
    ultimately show ?thesis by auto
  qed
qed

definition release_limit :: "core_timer \<Rightarrow> u32" where
  "release_limit t = (let us = drop_bit 3 (use_cnt t - 1) in if us \<noteq> 0 then us else 1)"

lemma timernode_dealloc_eq:
  assumes "lock t = 0" "r \<in> dom (mem t)" "r \<noteq> Null"
  shows "timernode_dealloc t r = ret (release_node t r (release_limit t))"
  using assms
  by (simp add: timernode_dealloc_def release_node_def release_limit_def LOCK_def UNLOCK_def Let_def free_cell_def)

section \<open>Adding a timer\<close>

definition entry :: "tmem \<Rightarrow> tptr \<Rightarrow> nat \<times> u32 \<times> nat \<times> nat" where
  "entry m p = (expiry m p, fld tn_id m p, fld tn_call m p, fld tn_u m p)"

definition ticks :: "u32 \<Rightarrow> nat" where
  "ticks wait = max 1 (unat wait div 10)"

lemma entry_same: "same_data m m' \<Longrightarrow> entry m' = entry m"
  by (auto simp: entry_def expiry_def same_data_def fun_eq_iff)

lemma entry_cong: "m' p = m p \<Longrightarrow> entry m' p = entry m p"
  by (simp add: entry_def expiry_def fld_def)

lemma wheel_ok_same: "wheel_ok m W T \<Longrightarrow> same_list m m' \<Longrightarrow> same_data m m' \<Longrightarrow> wheel_ok m' W T"
  by (rule wheel_ok_frame [where X = "{}"]) (auto simp: same_list_def same_data_dom expiry_same)

lemma tinv_index: "tinv t W B F D X \<Longrightarrow> index t \<le> i \<Longrightarrow> tinv (t\<lparr>index := i\<rparr>) W B F D X"
  using hash_ok_mono [of "mem t" B "index t" i] by (simp add: tinv_def)

lemma tinv_lock [simp]: "tinv (t\<lparr>lock := l\<rparr>) W B F D X = tinv t W B F D X"
  by (simp add: tinv_def)

lemma word_less_add_1: "i \<noteq> - 1 \<Longrightarrow> i < i + 1" for i :: u32
  using unatSuc [of i] by (simp add: add_eq_0_iff word_less_nat_alt add.commute)

text \<open>Linking a held node into the wheel and into its bucket.\<close>

lemma link_node_ok:
  assumes inv: "tinv t W B F D (insert r X)" and r: "r \<notin> X"
    and null: "fld list_prev (mem t) r = Null" "fld list_next (mem t) r = Null"
      "fld hash_prev (mem t) r = Null" "fld hash_next (mem t) r = Null"
    and E: "unat (time t) \<le> expiry (mem t) r" "expiry (mem t) r < 2 ^ 26"
    and new: "fld tn_id (mem t) r \<noteq> 0" "fld tn_id (mem t) r \<le> index t"
      "\<And>p. p \<in> members hash_heads B \<Longrightarrow> fld tn_id (mem t) p \<noteq> fld tn_id (mem t) r"
  shows "\<exists>m m' B'. addto_list t r = ret (t\<lparr>mem := m\<rparr>) \<and> addto_hash m r = ret m' \<and> same_data (mem t) m' \<and>
    tinv (t\<lparr>mem := m'\<rparr>) (place (unat (time t)) (expiry (mem t)) [r] W) B' F D X \<and>
    (\<forall>q\<in>set D \<union> X. fld list_next m' q = fld list_next (mem t) q)"
proof -
  note I = tinvD [OF inv]
  have cell: "is_cell r" "r \<in> dom (mem t)" "r \<noteq> Null" using I(7) [of r] by auto
  have out: "r \<notin> members wheel_heads W \<union> set D \<union> set F" using I(10) by blast
  obtain m where m: "addto_list t r = ret (t\<lparr>mem := m\<rparr>)"
    "wheel_ok m (place (unat (time t)) (expiry (mem t)) [r] W) (unat (time t))" "same_data (mem t) m" "same_hash (mem t) m"
    "\<And>q. q \<notin> wheel_heads \<union> members wheel_heads W \<union> {r} \<Longrightarrow> fld list_next m q = fld list_next (mem t) q"
    using addto_list_ok [OF I(1) cell(1,2) _ null(1,2) E] out by blast
  have hm: "hash_ok m B (index t)" by (rule hash_ok_same [OF I(2) m(4,3)])
  have sd: "dom m = dom (mem t)" "fld tn_id m = fld tn_id (mem t)" using m(3) by (auto simp: same_data_def)
  obtain m' B' where m': "addto_hash m r = ret m'" "hash_ok m' B' (index t)"
    "members hash_heads B' = insert r (members hash_heads B)" "same_data m m'" "same_list m m'"
    using addto_hash_ok [OF hm cell(1), unfolded sd] cell(2) out I(3) null(3,4) new m(4)
    unfolding same_hash_def by (metis Un_iff)
  have data: "same_data (mem t) m'" by (rule same_data_trans [OF m(3) m'(4)])
  define W' where "W' = place (unat (time t)) (expiry (mem t)) [r] W"
  have slot: "slot (unat (time t)) (expiry (mem t) r) \<in> wheel_heads"
    using slot_heads E(2) I(1) by (simp add: wheel_ok_def)
  have W': "members wheel_heads W' = insert r (members wheel_heads W)"
    using members_insert [OF slot, of W "W (slot (unat (time t)) (expiry (mem t) r))" "[]" r] by (simp add: W'_def place_Cons)
  have nxt: "fld list_next m' q = fld list_next (mem t) q" if "q \<in> set D \<union> set F \<union> X" for q
  proof -
    have "is_cell q" "q \<noteq> r" "q \<notin> members wheel_heads W" using that I(7) [of q] out r I(8,9,10) by blast+
    then have "fld list_next m q = fld list_next (mem t) q" using m(5) heads_not_cell by blast
    then show ?thesis using m'(5) by (simp add: same_list_def)
  qed
  have "tinv (t\<lparr>mem := m'\<rparr>) W' B' F D X"
  proof (rule tinvI)
    show "wheel_ok (mem (t\<lparr>mem := m'\<rparr>)) W' (unat (time (t\<lparr>mem := m'\<rparr>)))"
      using wheel_ok_same [OF m(2) m'(5,4)] by (simp add: W'_def)
    show "nchain (mem (t\<lparr>mem := m'\<rparr>)) (freenode (t\<lparr>mem := m'\<rparr>)) F"
      using I(4) nchain_frame [of F m' "mem t"] nxt by simp
    show "p \<in> dom (mem (t\<lparr>mem := m'\<rparr>)) \<and> is_cell p \<longleftrightarrow> p \<in> members wheel_heads W' \<union> set D \<union> set F \<union> X" for p
      using I(7) [of p] same_data_dom [OF data] W' by auto
    show "members wheel_heads W' \<inter> set D = {}" "(members wheel_heads W' \<union> set D) \<inter> set F = {}"
      "(members wheel_heads W' \<union> set D \<union> set F) \<inter> X = {}" using I(8,9,10) W' out r by auto
  qed (use m' I W' same_data_dom [OF data] in auto)
  then show ?thesis using m(1) m'(1) data nxt unfolding W'_def by blast
qed

text \<open>
  Adding a timer appends its node to the queue of its expiry time and keeps the invariant, also while
  other nodes wait detached or are held.
\<close>

lemma coretimer_add_ok:
  assumes inv: "tinv t W B F D X" and lock: "lock t = 0" and idx: "index t \<noteq> - 1"
    and E: "unat (time t) + ticks wait < 2 ^ 26"
  shows "\<exists>t' r B' F'. coretimer_add t call ctx wait = ret (index t + 1, t') \<and>
    tinv t' (place (unat (time t)) (\<lambda>_. unat (time t) + ticks wait) [r] W) B' F' D X \<and> lock t' = 0 \<and>
    index t' = index t + 1 \<and> time t' = time t \<and> timer_tick t' = timer_tick t \<and>
    r \<notin> members wheel_heads W \<union> set D \<union> X \<and>
    entry (mem t') r = (unat (time t) + ticks wait, index t + 1, call, ctx) \<and>
    (\<forall>q\<in>members wheel_heads W \<union> set D \<union> X. entry (mem t') q = entry (mem t) q) \<and>
    (\<forall>q\<in>set D \<union> X. fld list_next (mem t') q = fld list_next (mem t) q)"
proof -
  obtain r t1 F' where t1: "timernode_alloc t = ret (r, t1)" "is_cell r" "r \<in> dom (mem t1)"
    "r \<notin> members wheel_heads W \<union> set D \<union> X" "tinv t1 W B F' D (insert r X)" "lock t1 = 0" "same_clock t t1"
    "\<And>q. q \<noteq> r \<Longrightarrow> mem t1 q = mem t q"
    using timernode_alloc_ok [OF inv lock] by blast
  define w where "w = (if wait div 10 \<noteq> 0 then wait div 10 else 1)"
  define node where "node = \<lparr>tn_u = ctx, tn_call = call, list_prev = Null, list_next = Null,
            hash_prev = Null, hash_next = Null, tn_expire = time t + w, tn_id = index t + 1\<rparr>"
  define m2 where "m2 = mupd (mem t1) r (\<lambda>_. node)"
  define t2 where "t2 = t1\<lparr>index := index t + 1, mem := m2, lock := 1\<rparr>"
  have cl: "time t1 = time t" "index t1 = index t" "timer_tick t1 = timer_tick t" using t1(7) by (auto simp: same_clock_def)
  have idx1: "index t < index t + 1" using word_less_add_1 [OF idx] .
  have "unat w = ticks wait"
  proof (cases "wait div 10 = 0")
    case True
    then have "unat wait div 10 = 0" using unat_div [of wait 10] by simp
    with True show ?thesis by (simp add: w_def ticks_def)
  next
    case False
    then have "unat (wait div 10) \<noteq> 0" by (simp only: unat_eq_zero) simp
    then have "unat wait div 10 \<noteq> 0" using unat_div [of wait 10] by simp
    with False show ?thesis using unat_div [of wait 10] by (simp add: w_def ticks_def)
  qed
  then have exp: "unat (time t + w) = unat (time t) + ticks wait"
    using E by (simp add: unat_word_ariths)
  have rest: "r \<noteq> Null" "r \<notin> members wheel_heads W \<union> set D \<union> set F'" using t1(2) tinvD(10) [OF t1(5)] by auto
  have at: "mem t2 r = Some node" "\<And>q. q \<noteq> r \<Longrightarrow> mem t2 q = mem t q" using t1(3,8) by (auto simp: t2_def m2_def mupd_def)
  have "tinv (t1\<lparr>mem := m2\<rparr>) W B F' D (insert r (insert r X))"
    by (rule tinv_change [OF t1(5,2) rest(2)]) (use t1(3) tinvD(11) [OF t1(5)] in \<open>auto simp: m2_def mupd_def\<close>)
  then have inv2: "tinv t2 W B F' D (insert r X)"
    using tinv_index [of "t1\<lparr>mem := m2\<rparr>" W B F' D "insert r X" "index t + 1"] idx1 cl
    by (simp add: t2_def tinv_def less_imp_le)
  have id: "fld tn_id (mem t2) p \<noteq> fld tn_id (mem t2) r" if p: "p \<in> members hash_heads B" for p
  proof -
    have "fld tn_id (mem t) p \<le> index t"
      using tinvD(2) [OF inv] p by (auto simp: hash_ok_def members_def)
    moreover have "p \<noteq> r" using p tinvD(3) [OF inv] t1(4) by blast
    ultimately show ?thesis using at idx1 by (auto simp: fld_def node_def)
  qed
  obtain m3 m4 B' where L: "addto_list t2 r = ret (t2\<lparr>mem := m3\<rparr>)" "addto_hash m3 r = ret m4" "same_data (mem t2) m4"
    "tinv (t2\<lparr>mem := m4\<rparr>) (place (unat (time t2)) (expiry (mem t2)) [r] W) B' F' D X"
    "\<And>q. q \<in> set D \<union> X \<Longrightarrow> fld list_next m4 q = fld list_next (mem t2) q"
    using link_node_ok [OF inv2 _ _ _ _ _ _ _ _ _ id] at(1) t1(4) cl idx1 E exp
    by (force simp: fld_def node_def expiry_def t2_def)
  have expr: "expiry (mem t2) r = unat (time t) + ticks wait" using at(1) exp by (simp add: expiry_def fld_def node_def)
  define t' where "t' = t2\<lparr>mem := m4, lock := 0\<rparr>"
  have ent: "entry m4 = entry (mem t2)" by (rule entry_same [OF L(3)])
  have "fld tn_id m4 r = index t + 1" using ent at(1) by (simp add: entry_def fun_eq_iff) (simp add: fld_def node_def)
  moreover have "r \<in> dom m4" using same_data_dom [OF L(3)] at(1) by auto
  ultimately have "coretimer_add t call ctx wait = ret (index t + 1, t')"
    using t1(1,3,6) rest(1) cl L(1,2)
    by (simp add: coretimer_add_def Let_def LOCK_def UNLOCK_def w_def [symmetric] node_def [symmetric]
        m2_def [symmetric] t2_def [symmetric] tload_dom fld_folds t'_def)
  moreover have "tinv t' (place (unat (time t)) (\<lambda>_. unat (time t) + ticks wait) [r] W) B' F' D X"
    using L(4) expr cl by (simp add: t'_def place_Cons) (simp add: t2_def tinv_def)
  moreover have "entry (mem t') r = (unat (time t) + ticks wait, index t + 1, call, ctx)"
    using ent at(1) exp by (simp add: t'_def) (simp add: entry_def expiry_def fld_def node_def)
  moreover have "entry (mem t') q = entry (mem t) q" if "q \<in> members wheel_heads W \<union> set D \<union> X" for q
  proof -
    have "q \<noteq> r" using that t1(4) by blast
    then show ?thesis using at(2) ent entry_cong [of "mem t2" q "mem t"] by (simp add: t'_def)
  qed
  moreover have "fld list_next (mem t') q = fld list_next (mem t) q" if "q \<in> set D \<union> X" for q
  proof -
    have "q \<noteq> r" using that t1(4) by blast
    then show ?thesis using L(5) [OF that] at(2) by (simp add: t'_def fld_def)
  qed
  ultimately show ?thesis using t1(4) cl by (auto simp: t'_def t2_def)
qed

end
