(* ===== verification/TimerSpec.thy ===== *)
theory TimerSpec
  imports TimerInv
begin

text \<open>
  What the timer promises: a calendar of pending entries. Adding appends an entry, deleting removes the
  entry with an identifier, and a tick runs the entries that fall due, oldest first. The wheel of
  \<^verbatim>\<open>net/coretimer.c\<close> refines the calendar as long as the calendar stays within the range the three
  initialised levels of the wheel cover (expiry times below \<open>2 ^ 26\<close> ticks) and the identifier counter
  has not wrapped.
\<close>

section \<open>The calendar\<close>

type_synonym timer_entry = "nat \<times> u32 \<times> nat \<times> nat"

record calendar =
  cal_now :: nat
  cal_index :: u32
  pending :: "timer_entry list"

definition cal_new :: calendar where
  "cal_new = \<lparr>cal_now = 0, cal_index = 0, pending = []\<rparr>"

definition cal_add :: "calendar \<Rightarrow> nat \<Rightarrow> nat \<Rightarrow> u32 \<Rightarrow> calendar option" where
  "cal_add C call ctx wait =
     (if cal_index C = - 1 \<or> cal_now C + ticks wait \<ge> 2 ^ 26 then None
      else Some (C\<lparr>cal_index := cal_index C + 1,
        pending := pending C @ [(cal_now C + ticks wait, cal_index C + 1, call, ctx)]\<rparr>))"

definition cal_del :: "calendar \<Rightarrow> u32 \<Rightarrow> calendar" where
  "cal_del C ident = C\<lparr>pending := filter (\<lambda>e. fst (snd e) \<noteq> ident) (pending C)\<rparr>"

text \<open>
  A callback is described by a script: what it does to the rest of the process, and the timers it adds.
\<close>

type_synonym request = "nat \<times> nat \<times> u32"
type_synonym 'w script = "nat \<Rightarrow> nat \<Rightarrow> 'w \<Rightarrow> 'w \<times> request list"

primrec cal_adds :: "request list \<Rightarrow> calendar \<Rightarrow> calendar option" where
  "cal_adds [] C = Some C"
| "cal_adds (r # rs) C = (case r of (c, u, wait) \<Rightarrow>
     (case cal_add C c u wait of None \<Rightarrow> None | Some C' \<Rightarrow> cal_adds rs C'))"

primrec cal_fire :: "'w script \<Rightarrow> timer_entry list \<Rightarrow> 'w \<Rightarrow> calendar \<Rightarrow> ('w \<times> calendar) option" where
  "cal_fire s [] w C = Some (w, C)"
| "cal_fire s (e # es) w C = (case e of (_, _, c, u) \<Rightarrow>
     (case s c u w of (w', rs) \<Rightarrow>
       (case cal_adds rs (C\<lparr>pending := remove1 e (pending C)\<rparr>) of None \<Rightarrow> None
        | Some C' \<Rightarrow> cal_fire s es w' C')))"

definition due :: "calendar \<Rightarrow> timer_entry list" where
  "due C = filter (\<lambda>e. fst e = cal_now C) (pending C)"

definition cal_tick :: "'w script \<Rightarrow> 'w \<Rightarrow> calendar \<Rightarrow> ('w \<times> calendar) option" where
  "cal_tick s w C =
     (if cal_now C + 1 \<ge> 2 ^ 26 then None
      else let C' = C\<lparr>cal_now := cal_now C + 1\<rparr> in cal_fire s (due C') w C')"

text \<open>The callback a script stands for, over the operations of the timer.\<close>

primrec add_all :: "request list \<Rightarrow> core_timer \<Rightarrow> core_timer prog" where
  "add_all [] t = ret t"
| "add_all (r # rs) t = (case r of (c, u, wait) \<Rightarrow>
     bnd (coretimer_add t c u wait) (\<lambda>(_, t'). add_all rs t'))"

definition script_cb :: "'w script \<Rightarrow> 'w callback" where
  "script_cb s c u = (\<lambda>(w, t). case s c u w of (w', rs) \<Rightarrow> bnd (add_all rs t) (\<lambda>t'. ret (w', t')))"

section \<open>The abstraction relation\<close>

text \<open>
  \<open>cal_sim\<close>: the queue of every expiry time is what the calendar has for that time. \<open>D\<close> are
  the nodes detached for execution, \<open>X\<close> those held by the running operation.
\<close>

definition cal_sim :: "core_timer \<Rightarrow> calendar \<Rightarrow> (tptr \<Rightarrow> tptr list) \<Rightarrow> tptr list \<Rightarrow> bool" where
  "cal_sim t C W D \<longleftrightarrow> unat (time t) = cal_now C \<and> index t = cal_index C \<and>
     (\<forall>e\<in>set (pending C). fst e < 2 ^ 26) \<and>
     (\<forall>E<2 ^ 26. filter (\<lambda>e. fst e = E) (pending C) =
        map (entry (mem t)) (filter (\<lambda>p. expiry (mem t) p = E) D @ queue_at (expiry (mem t)) W (cal_now C) E))"

definition ahead :: "core_timer \<Rightarrow> (tptr \<Rightarrow> tptr list) \<Rightarrow> bool" where
  "ahead t W \<longleftrightarrow> (\<forall>p\<in>members wheel_heads W. unat (time t) < expiry (mem t) p)"

definition running :: "core_timer \<Rightarrow> calendar \<Rightarrow> tptr list \<Rightarrow> tptr set \<Rightarrow> bool" where
  "running t C D X \<longleftrightarrow> (\<exists>W B F. tinv t W B F D X \<and> ahead t W \<and> distinct D \<and>
     (\<forall>p\<in>set D. expiry (mem t) p = unat (time t)) \<and> cal_sim t C W D)"

lemma cal_sim_slot:
  assumes "tinv t W B F D X" "cal_sim t C W D" "E < 2 ^ 26"
  shows "slot (cal_now C) E \<in> wheel_heads"
  using assms slot_heads tinvD(1) [OF assms(1)] by (simp add: cal_sim_def wheel_ok_def)

lemma queue_at_members: "slot T E \<in> wheel_heads \<Longrightarrow> p \<in> set (queue_at e W T E) \<Longrightarrow> p \<in> members wheel_heads W"
  by (auto simp: queue_at_def members_def)

lemma queue_at_cong:
  assumes "slot T E \<in> wheel_heads" "\<And>p. p \<in> members wheel_heads W \<Longrightarrow> e' p = e p"
  shows "queue_at e' W T E = queue_at e W T E"
  unfolding queue_at_def by (rule filter_cong [OF refl]) (use assms membersI in metis)

text \<open>A change that keeps the entries of the pending nodes keeps the simulation.\<close>

lemma cal_sim_frame:
  assumes inv: "tinv t W B F D X" and sim: "cal_sim t C W D"
    and eq: "time t' = time t" "index t' = index t"
    and ent: "\<And>p. p \<in> members wheel_heads W \<union> set D \<Longrightarrow> entry (mem t') p = entry (mem t) p"
  shows "cal_sim t' C W D"
proof -
  have ex: "expiry (mem t') p = expiry (mem t) p" if "p \<in> members wheel_heads W \<union> set D" for p
    using ent [OF that] by (simp add: entry_def)
  have "map (entry (mem t')) (filter (\<lambda>p. expiry (mem t') p = E) D @ queue_at (expiry (mem t')) W (cal_now C) E) =
      map (entry (mem t)) (filter (\<lambda>p. expiry (mem t) p = E) D @ queue_at (expiry (mem t)) W (cal_now C) E)"
    if "E < 2 ^ 26" for E
  proof -
    note s = cal_sim_slot [OF inv sim that]
    have "queue_at (expiry (mem t')) W (cal_now C) E = queue_at (expiry (mem t)) W (cal_now C) E"
      by (rule queue_at_cong [OF s]) (use ex in blast)
    moreover have "filter (\<lambda>p. expiry (mem t') p = E) D = filter (\<lambda>p. expiry (mem t) p = E) D"
      by (rule filter_cong [OF refl]) (use ex in auto)
    ultimately show ?thesis
      using ent queue_at_members [OF s, of _ "expiry (mem t)" W] by auto
  qed
  then show ?thesis using sim eq by (simp add: cal_sim_def)
qed

section \<open>Adding refines\<close>

lemma cal_sim_place:
  assumes inv: "tinv t W B F D X" and sim: "cal_sim t C W D" and r: "r \<notin> members wheel_heads W \<union> set D"
    and eq: "time t' = time t" "index t' = i"
    and ent: "\<And>p. p \<in> members wheel_heads W \<union> set D \<Longrightarrow> entry (mem t') p = entry (mem t) p"
    and new: "entry (mem t') r = (E0, i, c, u)" "E0 < 2 ^ 26"
    and far: "\<And>p. p \<in> set D \<Longrightarrow> expiry (mem t) p \<noteq> E0"
  shows "cal_sim t' (C\<lparr>cal_index := i, pending := pending C @ [(E0, i, c, u)]\<rparr>)
    (place (unat (time t)) (\<lambda>_. E0) [r] W) D"
proof -
  have T: "unat (time t) = cal_now C" using sim by (simp add: cal_sim_def)
  have "cal_sim (t'\<lparr>index := index t\<rparr>) C W D"
    by (rule cal_sim_frame [OF inv sim]) (use eq ent in simp_all)
  then have old: "filter (\<lambda>e. fst e = E) (pending C) =
        map (entry (mem t')) (filter (\<lambda>p. expiry (mem t') p = E) D @ queue_at (expiry (mem t')) W (cal_now C) E)"
    if "E < 2 ^ 26" for E using that by (simp add: cal_sim_def)
  have exr: "expiry (mem t') r = E0" using new(1) by (simp add: entry_def)
  have D0: "filter (\<lambda>p. expiry (mem t') p = E0) D = []"
    using far ent by (auto simp: filter_empty_conv entry_def)
  have q: "queue_at (expiry (mem t')) (place (cal_now C) (\<lambda>_. E0) [r] W) (cal_now C) E =
      queue_at (expiry (mem t')) W (cal_now C) E @ (if E = E0 then [r] else [])" for E
    using exr by (auto simp: queue_at_def place_def)
  show ?thesis
    unfolding cal_sim_def T
  proof (intro conjI allI impI)
    show "\<forall>e\<in>set (pending (C\<lparr>cal_index := i, pending := pending C @ [(E0, i, c, u)]\<rparr>)). fst e < 2 ^ 26"
      using sim new(2) by (auto simp: cal_sim_def)
    fix E :: nat assume E: "E < 2 ^ 26"
    show "filter (\<lambda>e. fst e = E) (pending (C\<lparr>cal_index := i, pending := pending C @ [(E0, i, c, u)]\<rparr>)) =
      map (entry (mem t')) (filter (\<lambda>p. expiry (mem t') p = E) D @
        queue_at (expiry (mem t')) (place (cal_now C) (\<lambda>_. E0) [r] W) (cal_now (C\<lparr>cal_index := i, pending := pending C @ [(E0, i, c, u)]\<rparr>)) E)"
      using old [OF E] q [of E] new(1) D0 by (cases "E = E0") (auto simp: entry_def)
  qed (use sim eq T in \<open>simp_all add: cal_sim_def\<close>)
qed

lemma members_place_one: "slot T E \<in> wheel_heads \<Longrightarrow> members wheel_heads (place T (\<lambda>_. E) [r] W) = insert r (members wheel_heads W)"
  using members_insert [of "slot T E" wheel_heads W "W (slot T E)" "[]" r] by (simp add: place_Cons)

lemma add_running:
  assumes run: "running t C D X" and lock: "lock t = 0" and add: "cal_add C call ctx wait = Some C'"
  shows "\<exists>t'. coretimer_add t call ctx wait = ret (cal_index C', t') \<and> running t' C' D X \<and> lock t' = 0 \<and>
    timer_tick t' = timer_tick t \<and> (\<forall>q\<in>set D. entry (mem t') q = entry (mem t) q) \<and>
    (\<forall>q\<in>set D \<union> X. fld list_next (mem t') q = fld list_next (mem t) q)"
proof -
  obtain W B F where inv: "tinv t W B F D X" and ah: "ahead t W" and dis: "distinct D"
    and D: "\<And>p. p \<in> set D \<Longrightarrow> expiry (mem t) p = unat (time t)" and sim: "cal_sim t C W D"
    using run unfolding running_def by blast
  have T: "unat (time t) = cal_now C" "index t = cal_index C" using sim by (simp_all add: cal_sim_def)
  have C': "index t \<noteq> - 1" "unat (time t) + ticks wait < 2 ^ 26"
    "C' = C\<lparr>cal_index := index t + 1, pending := pending C @ [(unat (time t) + ticks wait, index t + 1, call, ctx)]\<rparr>"
    using add T by (auto simp: cal_add_def split: if_splits)
  let ?E = "unat (time t) + ticks wait"
  have pos: "unat (time t) < ?E" by (simp add: ticks_def)
  obtain t' r B' F' where t': "coretimer_add t call ctx wait = ret (index t + 1, t')"
    "tinv t' (place (unat (time t)) (\<lambda>_. ?E) [r] W) B' F' D X" "lock t' = 0"
    "index t' = index t + 1" "time t' = time t" "timer_tick t' = timer_tick t" "r \<notin> members wheel_heads W \<union> set D \<union> X"
    "entry (mem t') r = (?E, index t + 1, call, ctx)"
    "\<And>q. q \<in> members wheel_heads W \<union> set D \<union> X \<Longrightarrow> entry (mem t') q = entry (mem t) q"
    "\<And>q. q \<in> set D \<union> X \<Longrightarrow> fld list_next (mem t') q = fld list_next (mem t) q"
    using coretimer_add_ok [OF inv lock C'(1,2)] by blast
  define W' where "W' = place (unat (time t)) (\<lambda>_. ?E) [r] W"
  have ex: "expiry (mem t') q = expiry (mem t) q" if "q \<in> members wheel_heads W \<union> set D" for q
    using t'(9) [of q] that by (auto simp: entry_def)
  have exr: "expiry (mem t') r = ?E" using t'(8) by (simp add: entry_def)
  have "cal_sim t' C' W' D"
    unfolding C'(3) W'_def
    by (rule cal_sim_place [OF inv sim]) (use t' C' T D pos in auto)
  moreover have "ahead t' W'"
  proof -
    have "slot (unat (time t)) ?E \<in> wheel_heads" using cal_sim_slot [OF inv sim C'(2)] T by simp
    then have "members wheel_heads W' = insert r (members wheel_heads W)" unfolding W'_def by (rule members_place_one)
    then show ?thesis using ah ex exr pos t'(5) by (auto simp: ahead_def)
  qed
  moreover have "\<forall>p\<in>set D. expiry (mem t') p = unat (time t')" using D ex t'(5) by simp
  ultimately have "running t' C' D X" unfolding running_def using t'(2) W'_def dis by blast
  then show ?thesis using t' C'(3) by auto
qed

lemma add_all_running:
  assumes "running t C D X" "lock t = 0" "cal_adds rs C = Some C'"
  shows "\<exists>t'. add_all rs t = ret t' \<and> running t' C' D X \<and> lock t' = 0 \<and>
    timer_tick t' = timer_tick t \<and> (\<forall>q\<in>set D. entry (mem t') q = entry (mem t) q) \<and>
    (\<forall>q\<in>set D \<union> X. fld list_next (mem t') q = fld list_next (mem t) q)"
  using assms
proof (induction rs arbitrary: t C)
  case (Cons r rs)
  obtain c u wait where r: "r = (c, u, wait)" by (cases r)
  with Cons.prems(3) obtain C1 where C1: "cal_add C c u wait = Some C1" "cal_adds rs C1 = Some C'"
    by (auto split: option.splits)
  obtain t1 where t1: "coretimer_add t c u wait = ret (cal_index C1, t1)" "running t1 C1 D X" "lock t1 = 0"
    "timer_tick t1 = timer_tick t" "\<And>q. q \<in> set D \<Longrightarrow> entry (mem t1) q = entry (mem t) q"
    "\<And>q. q \<in> set D \<union> X \<Longrightarrow> fld list_next (mem t1) q = fld list_next (mem t) q"
    using add_running [OF Cons.prems(1,2) C1(1)] by blast
  show ?case using Cons.IH [OF t1(2,3) C1(2)] t1 r by auto
qed auto

section \<open>Executing refines\<close>

text \<open>Taking the first detached node out of its bucket takes its entry out of the calendar.\<close>

lemma unhash_running:
  assumes run: "running t C (r # D) X"
  shows "\<exists>m. delfrom_hash (mem t) r = ret m \<and> same_data (mem t) m \<and> same_list (mem t) m \<and> is_cell r \<and> r \<in> dom (mem t) \<and>
    running (t\<lparr>mem := m\<rparr>) (C\<lparr>pending := remove1 (entry (mem t) r) (pending C)\<rparr>) D (insert r X)"
proof -
  obtain W B F where inv: "tinv t W B F (r # D) X" and ah: "ahead t W" and dis: "distinct (r # D)"
    and D: "\<And>p. p \<in> set (r # D) \<Longrightarrow> expiry (mem t) p = unat (time t)" and sim: "cal_sim t C W (r # D)"
    using run unfolding running_def by blast
  note I = tinvD [OF inv]
  have rB: "r \<in> members hash_heads B" using I(3) by simp
  obtain m B' where m: "delfrom_hash (mem t) r = ret m" "hash_ok m B' (index t)"
    "members hash_heads B' = members hash_heads B - {r}" "same_data (mem t) m" "same_list (mem t) m"
    using delfrom_hash_ok [OF I(2) rB] by blast
  let ?t = "t\<lparr>mem := m\<rparr>" and ?e = "entry (mem t) r"
  have cell: "is_cell r" "r \<in> dom (mem t)" using I(7) [of r] by auto
  have rD: "r \<notin> set D" "distinct D" using dis by auto
  have "tinv ?t W B' F D (insert r X)"
  proof (rule tinvI)
    show "wheel_ok (mem ?t) W (unat (time ?t))" using wheel_ok_same [OF I(1) m(5,4)] by simp
    show "nchain (mem ?t) (freenode ?t) F" using I(4) nchain_frame [of F m "mem t"] m(5) by (simp add: same_list_def)
    show "p \<in> dom (mem ?t) \<and> is_cell p \<longleftrightarrow> p \<in> members wheel_heads W \<union> set D \<union> set F \<union> insert r X" for p
      using I(7) [of p] same_data_dom [OF m(4)] by auto
    show "members hash_heads B' = members wheel_heads W \<union> set D" using m(3) I(3,8) rD by auto
  qed (use m I rD same_data_dom [OF m(4)] in auto)
  moreover have ent: "entry m = entry (mem t)" "expiry m = expiry (mem t)" using entry_same expiry_same m(4) by auto
  moreover have "ahead ?t W" "\<forall>p\<in>set D. expiry (mem ?t) p = unat (time ?t)" using ah D ent by (auto simp: ahead_def)
  moreover have "cal_sim ?t (C\<lparr>pending := remove1 ?e (pending C)\<rparr>) W D"
    unfolding cal_sim_def
  proof (intro conjI allI impI)
    show "\<forall>e\<in>set (pending (C\<lparr>pending := remove1 ?e (pending C)\<rparr>)). fst e < 2 ^ 26"
      using sim by (auto simp: cal_sim_def dest: notin_set_remove1)
    fix E :: nat assume "E < 2 ^ 26"
    then have old: "filter (\<lambda>e. fst e = E) (pending C) =
        map (entry (mem t)) (filter (\<lambda>p. expiry (mem t) p = E) (r # D) @ queue_at (expiry (mem t)) W (cal_now C) E)"
      using sim by (simp add: cal_sim_def)
    have "?e \<notin> set (filter (\<lambda>e. fst e = E) (pending C))" if "expiry (mem t) r \<noteq> E"
      using that by (auto simp: entry_def)
    then show "filter (\<lambda>e. fst e = E) (pending (C\<lparr>pending := remove1 ?e (pending C)\<rparr>)) =
      map (entry (mem ?t)) (filter (\<lambda>p. expiry (mem ?t) p = E) D @
        queue_at (expiry (mem ?t)) W (cal_now (C\<lparr>pending := remove1 ?e (pending C)\<rparr>)) E)"
      using old ent by (cases "expiry (mem t) r = E") (auto simp: filter_remove1 remove1_idem)
  qed (use sim in \<open>simp_all add: cal_sim_def\<close>)
  ultimately show ?thesis using m(1,4,5) cell rD(2) unfolding running_def by blast
qed

lemma release_running:
  assumes run: "running t C D X" and r: "r \<in> X"
  shows "running (release_node t r us) C D (X - {r})"
proof -
  obtain W B F where inv: "tinv t W B F D X" and ah: "ahead t W" and dis: "distinct D"
    and D: "\<And>p. p \<in> set D \<Longrightarrow> expiry (mem t) p = unat (time t)" and sim: "cal_sim t C W D"
    using run unfolding running_def by blast
  let ?t = "release_node t r us"
  obtain F' where inv': "tinv ?t W B F' D (X - {r})" using release_node_ok [OF inv r] by blast
  have clock: "time ?t = time t" "index ?t = index t" using release_node_same(1) [of t r us] by (auto simp: same_clock_def)
  have ent: "entry (mem ?t) p = entry (mem t) p" if "p \<in> members wheel_heads W \<union> set D" for p
    using that release_node_same(3) [of p r t us] entry_cong tinvD(10) [OF inv] r by blast
  then have ex: "expiry (mem ?t) p = expiry (mem t) p" if "p \<in> members wheel_heads W \<union> set D" for p
    using that by (simp add: entry_def)
  have "cal_sim ?t C W D" by (rule cal_sim_frame [OF inv sim clock ent])
  moreover have "ahead ?t W" "\<forall>p\<in>set D. expiry (mem ?t) p = unat (time ?t)"
    using ah D ex clock by (auto simp: ahead_def)
  ultimately show ?thesis using inv' dis unfolding running_def by blast
qed

lemma running_lock [simp]: "running (t\<lparr>lock := l\<rparr>) C D X = running t C D X"
  by (simp add: running_def cal_sim_def ahead_def)

text \<open>
  One round of the execution loop: the node leaves its bucket, the callback runs with the lock free and
  the node is given back. Both versions of the loop are built from these three steps.
\<close>

lemma fire_step:
  assumes run: "running t C (x # D) {}" and chain: "nchain (mem t) r (x # D)"
    and fire: "cal_fire s (map (entry (mem t)) (x # D)) w C = Some (w', C')"
  shows "\<exists>m w1 t1 C1. r = x \<and> x \<noteq> Null \<and> x \<in> dom (mem t) \<and> x \<in> dom (mem t1) \<and> delfrom_hash (mem t) x = ret m \<and>
    script_cb s (fld tn_call (mem t) x) (fld tn_u (mem t) x) (w, t\<lparr>mem := m, lock := 0\<rparr>) = ret (w1, t1) \<and>
    lock t1 = 0 \<and> timer_tick t1 = timer_tick t \<and>
    (\<forall>us. running (release_node t1 x us) C1 D {} \<and> nchain (mem (release_node t1 x us)) (fld list_next (mem t) x) D \<and>
      cal_fire s (map (entry (mem (release_node t1 x us))) D) w1 C1 = Some (w', C'))"
proof -
  define e where "e = entry (mem t) x"
  obtain E i c u where e: "e = (E, i, c, u)" by (cases e)
  obtain w1 rs where s: "s c u w = (w1, rs)" by (cases "s c u w")
  obtain m where m: "delfrom_hash (mem t) x = ret m" "same_data (mem t) m" "same_list (mem t) m" "is_cell x" "x \<in> dom (mem t)"
    "running (t\<lparr>mem := m\<rparr>) (C\<lparr>pending := remove1 e (pending C)\<rparr>) D {x}"
    using unhash_running [OF run] by (auto simp: e_def)
  obtain C1 where C1: "cal_adds rs (C\<lparr>pending := remove1 e (pending C)\<rparr>) = Some C1"
    "cal_fire s (map (entry (mem t)) D) w1 C1 = Some (w', C')"
    using fire by (auto simp: e_def [symmetric] e s split: option.splits)
  let ?t0 = "t\<lparr>mem := m, lock := 0\<rparr>"
  obtain t1 where t1: "add_all rs ?t0 = ret t1" "running t1 C1 D {x}" "lock t1 = 0" "timer_tick t1 = timer_tick t"
    "\<And>q. q \<in> set D \<Longrightarrow> entry (mem t1) q = entry m q"
    "\<And>q. q \<in> set D \<union> {x} \<Longrightarrow> fld list_next (mem t1) q = fld list_next m q"
    using add_all_running [of ?t0 "C\<lparr>pending := remove1 e (pending C)\<rparr>" D "{x}" rs C1] m(6) C1(1) by auto
  have xD: "x \<notin> set D" using run by (auto simp: running_def)
  have x: "r = x" "x \<noteq> Null" using chain m(4) by auto
  have dom1: "x \<in> dom (mem t1)" using t1(2) by (auto simp: running_def tinv_def)
  have after: "running (release_node t1 x us) C1 D {} \<and> nchain (mem (release_node t1 x us)) (fld list_next (mem t) x) D \<and>
      cal_fire s (map (entry (mem (release_node t1 x us))) D) w1 C1 = Some (w', C')" for us
  proof (intro conjI)
    show "running (release_node t1 x us) C1 D {}" using release_running [OF t1(2)] by auto
    have q: "fld list_next (mem (release_node t1 x us)) q = fld list_next (mem t) q \<and>
        entry (mem (release_node t1 x us)) q = entry (mem t) q" if "q \<in> set D" for q
    proof -
      have "mem (release_node t1 x us) q = mem t1 q" using that xD by (intro release_node_same(3)) blast
      then show ?thesis
        using t1(5,6) that m(3) entry_same [OF m(2)] entry_cong [of _ q "mem t1"] by (simp add: fld_def same_list_def)
    qed
    then show "nchain (mem (release_node t1 x us)) (fld list_next (mem t) x) D"
      using chain nchain_frame [of D "mem (release_node t1 x us)" "mem t"] by simp
    have "map (entry (mem (release_node t1 x us))) D = map (entry (mem t)) D" using q by simp
    then show "cal_fire s (map (entry (mem (release_node t1 x us))) D) w1 C1 = Some (w', C')" using C1(2) by (simp only:)
  qed
  have "script_cb s (fld tn_call (mem t) x) (fld tn_u (mem t) x) (w, ?t0) = ret (w1, t1)"
    using e s t1(1) by (simp add: e_def entry_def script_cb_def)
  then show ?thesis
    by (intro exI [of _ m] exI [of _ w1] exI [of _ t1] exI [of _ C1] conjI allI)
      (use x m(1,5) dom1 t1(3,4) after in simp_all)
qed

lemma execute_loop_running:
  assumes "running t C D {}" "lock t = 1" "nchain (mem t) r D"
    "cal_fire s (map (entry (mem t)) D) w C = Some (w', C')"
  shows "\<exists>t'. execute_loop (script_cb s) r w t = ret (w', t') \<and> running t' C' [] {} \<and> lock t' = 1 \<and>
    timer_tick t' = timer_tick t"
  using assms
proof (induction D arbitrary: t C r w)
  case Nil
  then show ?case by (subst execute_loop.simps) auto
next
  case (Cons x D)
  obtain m w1 t1 C1 where step: "r = x" "x \<noteq> Null" "x \<in> dom (mem t)" "x \<in> dom (mem t1)" "delfrom_hash (mem t) x = ret m"
    "script_cb s (fld tn_call (mem t) x) (fld tn_u (mem t) x) (w, t\<lparr>mem := m, lock := 0\<rparr>) = ret (w1, t1)"
    "lock t1 = 0" "timer_tick t1 = timer_tick t"
    and after: "\<And>us. running (release_node t1 x us) C1 D {}"
    "\<And>us. nchain (mem (release_node t1 x us)) (fld list_next (mem t) x) D"
    "\<And>us. cal_fire s (map (entry (mem (release_node t1 x us))) D) w1 C1 = Some (w', C')"
    using fire_step [OF Cons.prems(1,3,4)] by blast
  let ?t2 = "release_node t1 x (release_limit t1)" and ?n = "fld list_next (mem t) x"
  have tick: "timer_tick ?t2 = timer_tick t" using release_node_same(1) step(8) by (simp add: same_clock_def)
  have "execute_loop (script_cb s) r w t = execute_loop (script_cb s) ?n w1 (?t2\<lparr>lock := 1\<rparr>)"
    using step timernode_dealloc_eq [OF step(7,4,2)]
    by (subst execute_loop.simps) (simp add: tload_dom fld_folds UNLOCK_def LOCK_def)
  then show ?case using Cons.IH [of "?t2\<lparr>lock := 1\<rparr>" C1 ?n w1] after [of "release_limit t1"] tick by auto
qed

text \<open>Between \<^verbatim>\<open>timer_shift\<close> and \<^verbatim>\<open>timer_execute\<close> the entries due now are still in the wheel.\<close>

definition shifted_in :: "core_timer \<Rightarrow> calendar \<Rightarrow> bool" where
  "shifted_in t C \<longleftrightarrow> (\<exists>W B F. tinv t W B F [] {} \<and> cal_sim t C W [])"

lemma running_shifted_in: "running t C [] {} \<Longrightarrow> shifted_in t C"
  by (auto simp: running_def shifted_in_def)

text \<open>Emptying the slot of the present time detaches exactly what is due.\<close>

lemma execute_clear:
  assumes "shifted_in t C"
  defines "h \<equiv> THead (unat (time t AND 255))"
  shows "\<exists>r m D. list_clear (mem t) h = ret (r, m) \<and> running (t\<lparr>mem := m\<rparr>) C D {} \<and> nchain m r D \<and> map (entry m) D = due C"
proof -
  obtain W B F where inv: "tinv t W B F [] {}" and sim: "cal_sim t C W []"
    using assms(1) unfolding shifted_in_def by blast
  note I = tinvD [OF inv]
  define T where "T = unat (time t)"
  have T: "cal_now C = T" using sim by (simp add: cal_sim_def T_def)
  have T26: "T < 2 ^ 26" using I(1) by (simp add: wheel_ok_def T_def)
  have hs: "h = slot T T" by (simp add: h_def slot_def T_def unat_and_255)
  have h: "h \<in> wheel_heads" using slot_heads [OF T26 T26] hs by simp
  note R = wheel_ok_rings [OF I(1)]
  define D where "D = W h"
  obtain r m where m: "list_clear (mem t) h = ret (r, m)" "rings list_next list_prev wheel_heads m (W(h := []))"
    "nchain m r D" "same_data (mem t) m" "same_hash (mem t) m"
    "\<And>q. q \<notin> set (h # D) \<Longrightarrow> fld list_next m q = fld list_next (mem t) q"
    using list_clear_rings [OF R h] unfolding D_def by blast
  have ent: "entry m = entry (mem t)" "expiry m = expiry (mem t)" using entry_same expiry_same m(4) by auto
  have wok: "slot T (expiry (mem t) p) = k \<and> T \<le> expiry (mem t) p \<and> expiry (mem t) p < 2 ^ 26"
    if "k \<in> wheel_heads" "p \<in> set (W k)" for k p using I(1) that by (simp add: wheel_ok_def T_def)
  have now: "expiry (mem t) p = T \<longleftrightarrow> k = h" if "k \<in> wheel_heads" "p \<in> set (W k)" for k p
    using wok [OF that] slot_now [of T "expiry (mem t) p"] slot_now [of T T] hs by auto
  have mem': "members wheel_heads W = set D \<union> members wheel_heads (W(h := []))" "set D \<inter> members wheel_heads (W(h := [])) = {}"
    using rings_disjoint [OF R h] h by (auto simp: members_upd D_def) (auto simp: members_def)
  let ?t = "t\<lparr>mem := m\<rparr>"
  have inv': "tinv ?t (W(h := [])) B F D {}"
  proof (rule tinvI)
    show "wheel_ok (mem ?t) (W(h := [])) (unat (time ?t))"
      using m(2) wok T26 ent by (auto simp: wheel_ok_def T_def)
    show "hash_ok (mem ?t) B (index ?t)" using hash_ok_same [OF I(2) m(5,4)] by simp
    have "q \<notin> set (h # D)" if "q \<in> set F" for q
      using that I(7) [of q] I(9) mem' h heads_not_cell [of h] by auto
    then show "nchain (mem ?t) (freenode ?t) F" using I(4) nchain_frame [of F m "mem t"] m(6) by simp
  qed (use I mem' same_data_dom [OF m(4)] in auto)
  have "filter (\<lambda>p. expiry m p = E) D @ queue_at (expiry m) (W(h := [])) T E = queue_at (expiry (mem t)) W T E" for E
  proof (cases "E = T")
    case True
    then show ?thesis using hs ent by (simp add: queue_at_def D_def)
  next
    case False
    then have "slot T E \<noteq> h" using slot_now [of T E] slot_now [of T T] hs by auto
    moreover have "filter (\<lambda>p. expiry m p = E) D = []" using False now [OF h] ent by (auto simp: D_def filter_empty_conv)
    ultimately show ?thesis using ent by (simp add: queue_at_def)
  qed
  then have sim': "cal_sim ?t C (W(h := [])) D" using sim T ent by (simp add: cal_sim_def)
  have "ahead ?t (W(h := []))"
    using now wok ent by (fastforce simp: ahead_def members_def T_def split: if_splits)
  moreover have "\<forall>p\<in>set D. expiry (mem ?t) p = unat (time ?t)" using now h ent by (simp add: D_def T_def)
  moreover have "distinct D" using rings_ring [OF R h] by (simp add: ring_def D_def)
  ultimately have "running ?t C D {}" using inv' sim' unfolding running_def by blast
  moreover have "queue_at (expiry (mem t)) W T T = D"
    using now [OF h] hs by (simp add: queue_at_def D_def filter_id_conv)
  then have "map (entry m) D = due C"
    using sim T26 T ent by (simp add: cal_sim_def due_def)
  ultimately show ?thesis using m(1,3) by blast
qed

lemma execute_refines:
  assumes sh: "shifted_in t C" and lock: "lock t = 0" and fire: "cal_fire s (due C) w C = Some (w', C')"
  shows "\<exists>t'. timer_execute (script_cb s) w t = ret (w', t') \<and> running t' C' [] {} \<and> lock t' = 0 \<and> timer_tick t' = timer_tick t"
proof -
  let ?t = "t\<lparr>lock := 1\<rparr>"
  have "shifted_in ?t C" using sh by (simp add: shifted_in_def cal_sim_def)
  then obtain r m D where D: "list_clear (mem t) (THead (unat (time t AND 255))) = ret (r, m)"
    "running (?t\<lparr>mem := m\<rparr>) C D {}" "nchain m r D" "map (entry m) D = due C"
    using execute_clear [of ?t C] by auto
  obtain t' where "execute_loop (script_cb s) r w (?t\<lparr>mem := m\<rparr>) = ret (w', t')" "running t' C' [] {}" "timer_tick t' = timer_tick t"
    using execute_loop_running [OF D(2), of r s w w' C'] D(3,4) fire by auto
  then show ?thesis using D(1) lock by (simp add: timer_execute_def LOCK_def UNLOCK_def Let_def)
qed

section \<open>Advancing the time refines\<close>

lemma members_shifted:
  assumes "\<And>c. cascade (Suc T) = Some c \<Longrightarrow> c \<in> wheel_heads"
    "\<And>p. p \<in> members wheel_heads W \<Longrightarrow> slot (Suc T) (e p) \<in> wheel_heads"
  shows "members wheel_heads (shifted T e W) = members wheel_heads W"
proof (cases "cascade (Suc T)")
  case (Some c)
  have c: "c \<in> wheel_heads" using assms(1) [OF Some] .
  show ?thesis
  proof (intro set_eqI iffI)
    fix p assume "p \<in> members wheel_heads (shifted T e W)"
    then show "p \<in> members wheel_heads W"
      using Some c by (auto simp: shifted_def place_def members_def split: if_splits)
  next
    fix p assume p: "p \<in> members wheel_heads W"
    then obtain h where h: "h \<in> wheel_heads" "p \<in> set (W h)" by (auto simp: members_def)
    show "p \<in> members wheel_heads (shifted T e W)"
    proof (cases "h = c")
      case True
      show ?thesis
        by (rule membersI [OF assms(2) [OF p]]) (use Some True h in \<open>auto simp: shifted_def place_def\<close>)
    next
      case False
      show ?thesis by (rule membersI [OF h(1)]) (use Some False h in \<open>auto simp: shifted_def place_def\<close>)
    qed
  qed
qed (simp add: shifted_def)

text \<open>Between ticks every pending entry lies ahead.\<close>

lemma running_pending:
  assumes run: "running t C [] X" and e: "e \<in> set (pending C)"
  shows "cal_now C < fst e \<and> fst e < 2 ^ 26"
proof -
  obtain W B F where inv: "tinv t W B F [] X" and ah: "ahead t W" and sim: "cal_sim t C W []"
    using run unfolding running_def by blast
  have E: "fst e < 2 ^ 26" using sim e by (simp add: cal_sim_def)
  then have "filter (\<lambda>e'. fst e' = fst e) (pending C) = map (entry (mem t)) (queue_at (expiry (mem t)) W (cal_now C) (fst e))"
    using sim by (simp add: cal_sim_def)
  moreover have "e \<in> set (filter (\<lambda>e'. fst e' = fst e) (pending C))" using e by simp
  ultimately obtain p where p: "p \<in> set (queue_at (expiry (mem t)) W (cal_now C) (fst e))" "e = entry (mem t) p" by auto
  have "p \<in> members wheel_heads W" by (rule queue_at_members [OF cal_sim_slot [OF inv sim E] p(1)])
  then have "unat (time t) < expiry (mem t) p" using ah by (simp add: ahead_def)
  then show ?thesis using E p(2) sim by (simp add: entry_def cal_sim_def)
qed

lemma shift_refines:
  assumes run: "running t C [] {}" and lock: "lock t = 0" and T: "cal_now C + 1 < 2 ^ 26"
  shows "\<exists>t'. timer_shift t = ret t' \<and> shifted_in t' (C\<lparr>cal_now := cal_now C + 1\<rparr>) \<and> lock t' = 0 \<and> timer_tick t' = timer_tick t"
proof -
  obtain W B F where inv: "tinv t W B F [] {}" and ah: "ahead t W" and sim: "cal_sim t C W []"
    using run unfolding running_def by blast
  note I = tinvD [OF inv]
  define T0 where "T0 = unat (time t)"
  have T0: "cal_now C = T0" "index t = cal_index C" using sim by (simp_all add: cal_sim_def T0_def)
  define t1 where "t1 = t\<lparr>lock := 1, time := time t + 1\<rparr>"
  have time1: "unat (time t1) = Suc T0"
    using T T0 by (simp add: t1_def T0_def unat_word_ariths)
  have ct: "time t1 \<noteq> 0" using time1 by auto
  have late: "T0 < expiry (mem t) p" if "h \<in> wheel_heads" "p \<in> set (W h)" for h p
    using ah that by (auto simp: ahead_def T0_def intro: membersI)
  have ok1: "wheel_ok (mem t1) W T0" using I(1) by (simp add: t1_def T0_def)
  obtain m where m: "(case cascade (Suc T0) of None \<Rightarrow> ret t1 | Some h \<Rightarrow> move_head t1 h) = ret (t1\<lparr>mem := m\<rparr>)"
    "wheel_ok m (shifted T0 (expiry (mem t)) W) (Suc T0)" "same_data (mem t) m" "same_hash (mem t) m"
    "\<And>q. q \<notin> wheel_heads \<union> members wheel_heads W \<Longrightarrow> fld list_next m q = fld list_next (mem t) q"
    using shift_move_ok [OF ok1 _ time1] late T T0 by (auto simp: t1_def)
  define t' where "t' = t1\<lparr>mem := m, lock := 0\<rparr>"
  define W' where "W' = shifted T0 (expiry (mem t)) W"
  have "timer_shift t = ret t'"
    using m(1) lock ct shift_loop_cascade [OF ct, of t1] time1
    by (simp add: timer_shift_def LOCK_def UNLOCK_def Let_def t1_def t'_def)
  have ent: "entry m = entry (mem t)" "expiry m = expiry (mem t)" using entry_same expiry_same m(3) by auto
  have slots: "slot T0 (expiry (mem t) p) = h \<and> T0 < expiry (mem t) p" if "h \<in> wheel_heads" "p \<in> set (W h)" for h p
    using I(1) that late [OF that] by (simp add: wheel_ok_def T0_def)
  have casc: "c \<in> wheel_heads" if "cascade (Suc T0) = Some c" for c
    using cascade_heads [OF _ _ that] T T0 by simp
  have far: "expiry (mem t) p < 2 ^ 26" if "p \<in> members wheel_heads W" for p
    using I(1) that by (auto simp: wheel_ok_def members_def)
  have mem': "members wheel_heads W' = members wheel_heads W"
    unfolding W'_def using members_shifted casc slot_heads far T T0 by simp
  have q: "queue_at (expiry (mem t)) W' (Suc T0) E = queue_at (expiry (mem t)) W T0 E" if "T0 < E" "E < 2 ^ 26" for E
    unfolding W'_def by (rule queue_at_shifted [where Hd = wheel_heads]) (use slots slot_heads that casc T T0 in auto)
  have "tinv t' W' B F [] {}"
  proof (rule tinvI)
    show "wheel_ok (mem t') W' (unat (time t'))" using m(2) time1 by (simp add: t'_def W'_def)
    show "hash_ok (mem t') B (index t')" using hash_ok_same [OF I(2) m(4,3)] by (simp add: t'_def t1_def)
    have "q \<notin> wheel_heads \<union> members wheel_heads W" if "q \<in> set F" for q
      using that I(7) [of q] I(9) heads_not_cell [of q] by auto
    then show "nchain (mem t') (freenode t') F"
      using I(4) nchain_frame [of F m "mem t"] m(5) by (simp add: t'_def t1_def)
  qed (use I mem' same_data_dom [OF m(3)] in \<open>auto simp: t'_def t1_def\<close>)
  moreover have "filter (\<lambda>e. fst e = E) (pending C) = map (entry m) (queue_at (expiry m) W' (Suc T0) E)" if E: "E < 2 ^ 26" for E
  proof (cases "T0 < E")
    case True
    then show ?thesis using q [OF True E] ent sim E T0 by (simp add: cal_sim_def)
  next
    case False
    then have "filter (\<lambda>e. fst e = E) (pending C) = []"
      using running_pending [OF run] T0 by (auto simp: filter_empty_conv)
    moreover have "slot (Suc T0) E \<in> wheel_heads" using slot_heads E T T0 by simp
    then have "queue_at (expiry m) W' (Suc T0) E = []"
      using queue_at_members [of "Suc T0" E _ "expiry m" W'] mem' ah False ent
      by (fastforce simp: queue_at_def filter_empty_conv ahead_def T0_def)
    ultimately show ?thesis by simp
  qed
  then have "cal_sim t' (C\<lparr>cal_now := cal_now C + 1\<rparr>) W' []"
    using sim time1 T0 by (simp add: cal_sim_def t'_def t1_def)
  ultimately show ?thesis using \<open>timer_shift t = ret t'\<close> unfolding shifted_in_def by (auto simp: t'_def t1_def)
qed

lemma tick_refines:
  assumes run: "running t C [] {}" and lock: "lock t = 0" and tick: "cal_tick s w C = Some (w', C')"
  shows "\<exists>t'. timer_tick_step (script_cb s) w t = ret (w', t') \<and> running t' C' [] {} \<and> lock t' = 0 \<and> timer_tick t' = timer_tick t"
proof -
  have C1: "cal_now C + 1 < 2 ^ 26" "cal_fire s (due (C\<lparr>cal_now := cal_now C + 1\<rparr>)) w (C\<lparr>cal_now := cal_now C + 1\<rparr>) = Some (w', C')"
    using tick by (auto simp: cal_tick_def Let_def split: if_splits)
  have "due C = []" using running_pending [OF run] by (fastforce simp: due_def filter_empty_conv)
  then obtain t1 where t1: "timer_execute (script_cb s) w t = ret (w, t1)" "running t1 C [] {}" "lock t1 = 0" "timer_tick t1 = timer_tick t"
    using execute_refines [OF running_shifted_in [OF run] lock, of s w w C] by auto
  obtain t2 where t2: "timer_shift t1 = ret t2" "shifted_in t2 (C\<lparr>cal_now := cal_now C + 1\<rparr>)" "lock t2 = 0" "timer_tick t2 = timer_tick t1"
    using shift_refines [OF t1(2,3) C1(1)] by blast
  obtain t3 where "timer_execute (script_cb s) w t2 = ret (w', t3)" "running t3 C' [] {}" "lock t3 = 0" "timer_tick t3 = timer_tick t2"
    using execute_refines [OF t2(2,3) C1(2)] by blast
  then show ?thesis using t1 t2 by (simp add: timer_tick_step_def)
qed

section \<open>Deleting refines\<close>

lemma del_missing:
  assumes inv: "tinv t W B F [] {}" and lock: "lock t = 0"
    and none: "\<And>p. p \<in> members wheel_heads W \<Longrightarrow> fld tn_id (mem t) p \<noteq> ident"
  shows "coretimer_del t ident = ret t"
proof -
  note I = tinvD [OF inv]
  have "hash_find (mem t) (HHead (HASH ident)) ident (fld hash_next (mem t) (HHead (HASH ident))) = ret Null"
    using hash_lookup [OF I(2) refl, of ident Null] none I(3) by simp
  moreover have "HHead (HASH ident) \<in> dom (mem t)" using hash_nodes_dom [OF I(2)] HASH_head by blast
  ultimately show ?thesis
    using lock by (simp add: coretimer_del_def LOCK_def UNLOCK_def Let_def tload_dom fld_folds)
qed

lemma unlink_ok:
  assumes inv: "tinv t W B F [] {}" and r: "r \<in> members wheel_heads W"
  shows "\<exists>m1 m2 W' B'. delfrom_list (mem t) r = ret m1 \<and> delfrom_hash m1 r = ret m2 \<and> same_data (mem t) m2 \<and>
    tinv (t\<lparr>mem := m2\<rparr>) W' B' F [] {r} \<and> members wheel_heads W' = members wheel_heads W - {r} \<and>
    (\<forall>h\<in>wheel_heads. W' h = filter (\<lambda>p. p \<noteq> r) (W h))"
proof -
  note I = tinvD [OF inv]
  have rB: "r \<in> members hash_heads B" using r I(3) by simp
  obtain k where k: "k \<in> hash_heads" "r \<in> set (B k)" using rB by (auto simp: members_def)
  obtain m1 W' where m1: "delfrom_list (mem t) r = ret m1" "wheel_ok m1 W' (unat (time t))"
    "members wheel_heads W' = members wheel_heads W - {r}" "\<And>h. h \<in> wheel_heads \<Longrightarrow> W' h = filter (\<lambda>p. p \<noteq> r) (W h)"
    "same_data (mem t) m1" "same_hash (mem t) m1"
    "\<And>q. q \<notin> wheel_heads \<union> members wheel_heads W \<Longrightarrow> fld list_next m1 q = fld list_next (mem t) q"
    using delfrom_list_ok [OF I(1) r] bucket.rings_inner(3,4) [OF hash_ok_rings [OF I(2)] k] by blast
  have "hash_ok m1 B (index t)" by (rule hash_ok_same [OF I(2) m1(6,5)])
  then obtain m2 B' where m2: "delfrom_hash m1 r = ret m2" "hash_ok m2 B' (index t)"
    "members hash_heads B' = members hash_heads B - {r}" "same_data m1 m2" "same_list m1 m2"
    using delfrom_hash_ok rB by blast
  have data: "same_data (mem t) m2" by (rule same_data_trans [OF m1(5) m2(4)])
  let ?t = "t\<lparr>mem := m2\<rparr>"
  have "tinv ?t W' B' F [] {r}"
  proof (rule tinvI)
    show "wheel_ok (mem ?t) W' (unat (time ?t))" using wheel_ok_same [OF m1(2) m2(5,4)] by simp
    have "q \<notin> wheel_heads \<union> members wheel_heads W" if "q \<in> set F" for q
      using that I(7) [of q] I(9) heads_not_cell [of q] by auto
    then show "nchain (mem ?t) (freenode ?t) F"
      using I(4) nchain_frame [of F m2 "mem t"] m1(7) m2(5) by (simp add: same_list_def)
    show "members hash_heads B' = members wheel_heads W' \<union> set []" using m1(3) m2(3) I(3) by simp
    show "p \<in> dom (mem ?t) \<and> is_cell p \<longleftrightarrow> p \<in> members wheel_heads W' \<union> set [] \<union> set F \<union> {r}" for p
      using I(7) [of p] same_data_dom [OF data] m1(3) r by auto
  qed (use m2 I m1(3) r same_data_dom [OF data] in auto)
  then show ?thesis using m1(1,3,4) m2(1) data by blast
qed

lemma unlink_release_ok:
  assumes inv: "tinv t W B F [] {}" and r: "r \<in> members wheel_heads W"
  shows "\<exists>m1 m2. delfrom_list (mem t) r = ret m1 \<and> delfrom_hash m1 r = ret m2 \<and> r \<in> dom m2 \<and> r \<noteq> Null \<and>
    (\<forall>us. \<exists>W' B' F'. tinv (release_node (t\<lparr>mem := m2\<rparr>) r us) W' B' F' [] {} \<and>
      members wheel_heads W' = members wheel_heads W - {r} \<and> (\<forall>h\<in>wheel_heads. W' h = filter (\<lambda>p. p \<noteq> r) (W h)) \<and>
      (\<forall>q. q \<noteq> r \<longrightarrow> entry (mem (release_node (t\<lparr>mem := m2\<rparr>) r us)) q = entry (mem t) q))"
proof -
  obtain m1 m2 W' B' where m: "delfrom_list (mem t) r = ret m1" "delfrom_hash m1 r = ret m2" "same_data (mem t) m2"
    "tinv (t\<lparr>mem := m2\<rparr>) W' B' F [] {r}" "members wheel_heads W' = members wheel_heads W - {r}"
    "\<And>h. h \<in> wheel_heads \<Longrightarrow> W' h = filter (\<lambda>p. p \<noteq> r) (W h)"
    using unlink_ok [OF inv r] by atomize_elim (simp add: Ball_def)
  have cell: "r \<in> dom m2" "r \<noteq> Null" using tinvD(7) [OF m(4), of r] by auto
  have "\<exists>F'. tinv (release_node (t\<lparr>mem := m2\<rparr>) r us) W' B' F' [] {}" for us
    using release_node_ok [OF m(4), of r us] by simp
  moreover have "entry (mem (release_node (t\<lparr>mem := m2\<rparr>) r us)) q = entry (mem t) q" if "q \<noteq> r" for q us
    using entry_cong [of _ q m2] release_node_same(3) [OF that, of "t\<lparr>mem := m2\<rparr>" us] entry_same [OF m(3)] by simp
  ultimately have "\<exists>W' B' F'. tinv (release_node (t\<lparr>mem := m2\<rparr>) r us) W' B' F' [] {} \<and>
      members wheel_heads W' = members wheel_heads W - {r} \<and> (\<forall>h\<in>wheel_heads. W' h = filter (\<lambda>p. p \<noteq> r) (W h)) \<and>
      (\<forall>q. q \<noteq> r \<longrightarrow> entry (mem (release_node (t\<lparr>mem := m2\<rparr>) r us)) q = entry (mem t) q)" for us
    using m(5,6) by (intro exI [of _ W'] exI [of _ B']) auto
  then show ?thesis using m(1,2) cell by (intro exI [of _ m1] exI [of _ m2]) simp
qed

lemma del_find:
  assumes inv: "tinv t W B F [] {}" and r: "r \<in> members wheel_heads W" "fld tn_id (mem t) r = ident"
  shows "hash_find (mem t) (HHead (HASH ident)) ident (fld hash_next (mem t) (HHead (HASH ident))) = ret r"
    "HHead (HASH ident) \<in> dom (mem t)"
proof -
  note I = tinvD [OF inv]
  have "r \<noteq> Null" using I(7) [of r] r by auto
  then show "hash_find (mem t) (HHead (HASH ident)) ident (fld hash_next (mem t) (HHead (HASH ident))) = ret r"
    using hash_lookup [OF I(2) refl, of ident r] I(3) r by simp
  show "HHead (HASH ident) \<in> dom (mem t)" using hash_nodes_dom [OF I(2)] HASH_head by blast
qed

lemma del_found:
  assumes inv: "tinv t W B F [] {}" and lock: "lock t = 0" and r: "r \<in> members wheel_heads W" "fld tn_id (mem t) r = ident"
  shows "\<exists>t' W' B' F'. coretimer_del t ident = ret t' \<and> tinv t' W' B' F' [] {} \<and> lock t' = 0 \<and> same_clock t t' \<and>
    members wheel_heads W' = members wheel_heads W - {r} \<and> (\<forall>h\<in>wheel_heads. W' h = filter (\<lambda>p. p \<noteq> r) (W h)) \<and>
    (\<forall>q. q \<noteq> r \<longrightarrow> entry (mem t') q = entry (mem t) q)"
proof -
  obtain m1 m2 where m: "delfrom_list (mem t) r = ret m1" "delfrom_hash m1 r = ret m2" "r \<in> dom m2" "r \<noteq> Null"
    and after: "\<And>us. \<exists>W' B' F'. tinv (release_node (t\<lparr>mem := m2\<rparr>) r us) W' B' F' [] {} \<and>
      members wheel_heads W' = members wheel_heads W - {r} \<and> (\<forall>h\<in>wheel_heads. W' h = filter (\<lambda>p. p \<noteq> r) (W h)) \<and>
      (\<forall>q. q \<noteq> r \<longrightarrow> entry (mem (release_node (t\<lparr>mem := m2\<rparr>) r us)) q = entry (mem t) q)"
    using unlink_release_ok [OF inv r(1)] by blast
  let ?t = "t\<lparr>mem := m2\<rparr>"
  have same: "?t\<lparr>lock := 0\<rparr> = ?t" using lock by simp
  have "coretimer_del t ident = timernode_dealloc (?t\<lparr>lock := 0\<rparr>) r"
    using lock del_find [OF inv r] m
    by (simp add: coretimer_del_def LOCK_def UNLOCK_def Let_def tload_dom fld_folds)
  also have "\<dots> = ret (release_node ?t r (release_limit ?t))" unfolding same using timernode_dealloc_eq [of ?t r] lock m(3,4) by simp
  finally show ?thesis
    using after [of "release_limit ?t"] lock release_node_same(1) [of ?t r "release_limit ?t"]
      release_node_same(2) [of ?t r "release_limit ?t"] by (auto simp: same_clock_def)
qed

text \<open>What deleting does to the simulation, whichever version of the timer unlinked the node.\<close>

lemma pending_del:
  assumes sim: "cal_sim t C W []" and E: "E < 2 ^ 26"
  shows "filter (\<lambda>e. fst e = E) (pending (cal_del C ident)) =
      map (entry (mem t)) (filter (\<lambda>p. fld tn_id (mem t) p \<noteq> ident) (queue_at (expiry (mem t)) W (cal_now C) E))"
proof -
  have old: "filter (\<lambda>e. fst e = E) (pending C) = map (entry (mem t)) (queue_at (expiry (mem t)) W (cal_now C) E)"
    using sim E by (simp add: cal_sim_def)
  have "filter (\<lambda>e. fst e = E) (pending (cal_del C ident)) =
      filter (\<lambda>e. fst (snd e) \<noteq> ident) (filter (\<lambda>e. fst e = E) (pending C))"
    by (simp add: cal_del_def conj_commute)
  also have "\<dots> = map (entry (mem t)) (filter (\<lambda>p. fld tn_id (mem t) p \<noteq> ident) (queue_at (expiry (mem t)) W (cal_now C) E))"
    unfolding old filter_map by (simp add: comp_def entry_def)
  finally show ?thesis .
qed

lemma missing_running:
  assumes inv: "tinv t W B F [] {}" and ah: "ahead t W" and sim: "cal_sim t C W []"
    and none: "\<And>p. p \<in> members wheel_heads W \<Longrightarrow> fld tn_id (mem t) p \<noteq> ident"
  shows "running t (cal_del C ident) [] {}"
proof -
  have "filter (\<lambda>p. fld tn_id (mem t) p \<noteq> ident) (queue_at (expiry (mem t)) W (cal_now C) E) =
      queue_at (expiry (mem t)) W (cal_now C) E" if "E < 2 ^ 26" for E
    unfolding filter_id_conv using queue_at_members [OF cal_sim_slot [OF inv sim that]] none by blast
  then have "cal_sim t (cal_del C ident) W []"
    using sim pending_del [OF sim, of _ ident] by (simp add: cal_sim_def) (simp add: cal_del_def)
  then show ?thesis using inv ah unfolding running_def by auto
qed

lemma unlinked_running:
  assumes inv: "tinv t W B F [] {}" and ah: "ahead t W" and sim: "cal_sim t C W []"
    and r: "r \<in> members wheel_heads W" "fld tn_id (mem t) r = ident"
    and inv': "tinv t' W' B' F' [] {}" and clock: "same_clock t t'"
    and W': "members wheel_heads W' = members wheel_heads W - {r}" "\<And>h. h \<in> wheel_heads \<Longrightarrow> W' h = filter (\<lambda>p. p \<noteq> r) (W h)"
    and ent: "\<And>q. q \<noteq> r \<Longrightarrow> entry (mem t') q = entry (mem t) q"
  shows "running t' (cal_del C ident) [] {}"
proof -
  note I = tinvD [OF inv]
  have ids: "p = r \<longleftrightarrow> fld tn_id (mem t) p = ident" if "p \<in> members wheel_heads W" for p
    using that r I(2,3) by (auto simp: hash_ok_def dest: inj_onD)
  have ex: "expiry (mem t') q = expiry (mem t) q" if "q \<noteq> r" for q using ent [OF that] by (simp add: entry_def)
  have "map (entry (mem t')) (queue_at (expiry (mem t')) W' (cal_now C) E) =
      map (entry (mem t)) (filter (\<lambda>p. fld tn_id (mem t) p \<noteq> ident) (queue_at (expiry (mem t)) W (cal_now C) E))"
    if E: "E < 2 ^ 26" for E
  proof -
    note s = cal_sim_slot [OF inv sim E]
    have "queue_at (expiry (mem t')) W' (cal_now C) E = filter (\<lambda>p. expiry (mem t') p = E \<and> p \<noteq> r) (W (slot (cal_now C) E))"
      by (simp add: queue_at_def W'(2) [OF s] conj_commute)
    also have "\<dots> = filter (\<lambda>p. expiry (mem t) p = E \<and> fld tn_id (mem t) p \<noteq> ident) (W (slot (cal_now C) E))"
      by (rule filter_cong [OF refl]) (use ex ids membersI [OF s, of _ W] in auto)
    also have "\<dots> = filter (\<lambda>p. fld tn_id (mem t) p \<noteq> ident) (queue_at (expiry (mem t)) W (cal_now C) E)"
      by (simp add: queue_at_def conj_commute)
    finally have q: "queue_at (expiry (mem t')) W' (cal_now C) E =
        filter (\<lambda>p. fld tn_id (mem t) p \<noteq> ident) (queue_at (expiry (mem t)) W (cal_now C) E)" .
    show ?thesis unfolding q by (rule map_cong [OF refl]) (use ent r(2) in force)
  qed
  then have "cal_sim t' (cal_del C ident) W' []"
    using sim pending_del [OF sim, of _ ident] clock by (simp add: cal_sim_def same_clock_def) (simp add: cal_del_def)
  moreover have "ahead t' W'" using ah clock W'(1) ex by (auto simp: ahead_def same_clock_def)
  ultimately show ?thesis using inv' unfolding running_def by auto
qed

lemma del_running:
  assumes run: "running t C [] {}" and lock: "lock t = 0"
  shows "\<exists>t'. coretimer_del t ident = ret t' \<and> running t' (cal_del C ident) [] {} \<and> lock t' = 0 \<and> timer_tick t' = timer_tick t"
proof -
  obtain W B F where inv: "tinv t W B F [] {}" and ah: "ahead t W" and sim: "cal_sim t C W []"
    using run unfolding running_def by blast
  show ?thesis
  proof (cases "\<exists>r\<in>members wheel_heads W. fld tn_id (mem t) r = ident")
    case False
    then show ?thesis using del_missing [OF inv lock] missing_running [OF inv ah sim] lock by blast
  next
    case True
    then obtain r where r: "r \<in> members wheel_heads W" "fld tn_id (mem t) r = ident" by blast
    obtain t' W' B' F' where t': "coretimer_del t ident = ret t'" "tinv t' W' B' F' [] {}" "lock t' = 0" "same_clock t t'"
      "members wheel_heads W' = members wheel_heads W - {r}" "\<And>h. h \<in> wheel_heads \<Longrightarrow> W' h = filter (\<lambda>p. p \<noteq> r) (W h)"
      "\<And>q. q \<noteq> r \<Longrightarrow> entry (mem t') q = entry (mem t) q"
      using del_found [OF inv lock r] by blast
    then show ?thesis using unlinked_running [OF inv ah sim r t'(2,4,5,6,7)] by (auto simp: same_clock_def)
  qed
qed

end
