(* ===== verification/TimerProps.thy ===== *)
theory TimerProps
  imports TimerSpec "HOL-Library.Multiset"
begin

text \<open>
  The timer's contract as a locale over any implementation, its interpretation on the model of
  \<^verbatim>\<open>net/coretimer.c\<close>, and the properties of the timer: every sequence of additions, deletions and ticks
  behaves as the calendar does, an update fires exactly the timers that fell due, in order; and what
  happens outside the range the wheel covers.
\<close>

section \<open>The contract\<close>

datatype timer_op = TAdd nat nat u32 | TDel u32 | TTick

primrec cal_run :: "'w script \<Rightarrow> timer_op list \<Rightarrow> 'w \<Rightarrow> calendar \<Rightarrow> ('w \<times> calendar) option" where
  "cal_run s [] w C = Some (w, C)"
| "cal_run s (x # xs) w C = (case x of
     TAdd c u wait \<Rightarrow> (case cal_add C c u wait of None \<Rightarrow> None | Some C' \<Rightarrow> cal_run s xs w C')
   | TDel i \<Rightarrow> cal_run s xs w (cal_del C i)
   | TTick \<Rightarrow> (case cal_tick s w C of None \<Rightarrow> None | Some (w', C') \<Rightarrow> cal_run s xs w' C'))"

primrec run_ops ::
  "('t \<Rightarrow> nat \<Rightarrow> nat \<Rightarrow> u32 \<Rightarrow> (u32 \<times> 't) prog) \<Rightarrow> ('t \<Rightarrow> u32 \<Rightarrow> 't prog) \<Rightarrow> ('w \<Rightarrow> 't \<Rightarrow> ('w \<times> 't) prog) \<Rightarrow>
   timer_op list \<Rightarrow> 'w \<Rightarrow> 't \<Rightarrow> ('w \<times> 't) prog" where
  "run_ops add del tick [] w t = ret (w, t)"
| "run_ops add del tick (x # xs) w t = (case x of
     TAdd c u wait \<Rightarrow> bnd (add t c u wait) (\<lambda>(_, t'). run_ops add del tick xs w t')
   | TDel i \<Rightarrow> bnd (del t i) (\<lambda>t'. run_ops add del tick xs w t')
   | TTick \<Rightarrow> bnd (tick w t) (\<lambda>(w', t'). run_ops add del tick xs w' t'))"

locale timer_service =
  fixes R :: "'t \<Rightarrow> calendar \<Rightarrow> bool"
    and add :: "'t \<Rightarrow> nat \<Rightarrow> nat \<Rightarrow> u32 \<Rightarrow> (u32 \<times> 't) prog"
    and del :: "'t \<Rightarrow> u32 \<Rightarrow> 't prog"
    and tick :: "'w script \<Rightarrow> 'w \<Rightarrow> 't \<Rightarrow> ('w \<times> 't) prog"
  assumes add_law: "R t C \<Longrightarrow> cal_add C c u wait = Some C' \<Longrightarrow> \<exists>t'. add t c u wait = ret (cal_index C', t') \<and> R t' C'"
    and del_law: "R t C \<Longrightarrow> \<exists>t'. del t i = ret t' \<and> R t' (cal_del C i)"
    and tick_law: "R t C \<Longrightarrow> cal_tick s w C = Some (w', C') \<Longrightarrow> \<exists>t'. tick s w t = ret (w', t') \<and> R t' C'"
begin

lemma run_refines:
  "R t C \<Longrightarrow> cal_run s xs w C = Some (w', C') \<Longrightarrow> \<exists>t'. run_ops add del (tick s) xs w t = ret (w', t') \<and> R t' C'"
proof (induction xs arbitrary: t C w)
  case (Cons x xs)
  show ?case
  proof (cases x)
    case (TAdd c u wait)
    then obtain C1 where "cal_add C c u wait = Some C1" "cal_run s xs w C1 = Some (w', C')"
      using Cons.prems(2) by (auto split: option.splits)
    then show ?thesis using Cons.IH add_law [OF Cons.prems(1)] TAdd by fastforce
  next
    case (TDel i)
    then show ?thesis using Cons.IH del_law [OF Cons.prems(1), of i] Cons.prems(2) by fastforce
  next
    case TTick
    then obtain w1 C1 where "cal_tick s w C = Some (w1, C1)" "cal_run s xs w1 C1 = Some (w', C')"
      using Cons.prems(2) by (auto split: option.splits)
    then show ?thesis using Cons.IH tick_law [OF Cons.prems(1)] TTick by fastforce
  qed
qed simp

end

section \<open>The wheel meets it\<close>

definition timer_ok :: "core_timer \<Rightarrow> calendar \<Rightarrow> bool" where
  "timer_ok t C \<longleftrightarrow> running t C [] {} \<and> lock t = 0"

interpretation wheel_timer: timer_service timer_ok coretimer_add coretimer_del "\<lambda>s. timer_tick_step (script_cb s)"
proof unfold_locales
  show "\<exists>t'. coretimer_add t c u wait = ret (cal_index C', t') \<and> timer_ok t' C'"
    if "timer_ok t C" "cal_add C c u wait = Some C'" for t C c u wait C'
    using add_running [of t C "[]" "{}" c u wait C'] that by (auto simp: timer_ok_def)
  show "\<exists>t'. coretimer_del t i = ret t' \<and> timer_ok t' (cal_del C i)" if "timer_ok t C" for t C i
    using del_running [of t C i] that by (auto simp: timer_ok_def)
  show "\<exists>t'. timer_tick_step (script_cb s) w t = ret (w', t') \<and> timer_ok t' C'"
    if "timer_ok t C" "cal_tick s w C = Some (w', C')" for t C s w w' C'
    using tick_refines [of t C s w w' C'] that by (auto simp: timer_ok_def)
qed

lemma fld_new_mem:
  "h \<in> wheel_heads \<Longrightarrow> fld list_next new_mem h = h \<and> fld list_prev new_mem h = h \<and> h \<in> dom new_mem"
  "h \<in> hash_heads \<Longrightarrow> fld hash_next new_mem h = h \<and> fld hash_prev new_mem h = h \<and> fld tn_id new_mem h = 0 \<and> h \<in> dom new_mem"
  by (auto simp: wheel_heads_def hash_heads_def fld_def zero_node_def)

lemma members_empty [simp]: "members Hd (\<lambda>_. []) = {}"
  by (simp add: members_def)

lemma new_mem_cell: "is_cell p \<Longrightarrow> p \<notin> dom new_mem"
  by (cases p) auto

lemma coretimer_new_ok: "timer_ok (coretimer_new ft) cal_new"
proof -
  have w: "rings list_next list_prev wheel_heads new_mem (\<lambda>_. [])"
    using fld_new_mem(1) by (simp add: rings_def ring_def)
  have h: "rings hash_next hash_prev hash_heads new_mem (\<lambda>_. [])"
    using fld_new_mem(2) by (simp add: rings_def ring_def)
  have "tinv (coretimer_new ft) (\<lambda>_. []) (\<lambda>_. []) [] [] {}"
    using w h fld_new_mem(2) new_mem_cell
    by (intro tinvI) (auto simp: coretimer_new_def wheel_ok_def hash_ok_def)
  moreover have "cal_sim (coretimer_new ft) cal_new (\<lambda>_. []) []"
    by (simp add: cal_sim_def cal_new_def coretimer_new_def queue_at_def)
  moreover have "ahead (coretimer_new ft) (\<lambda>_. [])" "lock (coretimer_new ft) = 0"
    by (simp_all add: ahead_def coretimer_new_def)
  ultimately show ?thesis unfolding timer_ok_def running_def by auto
qed

section \<open>What an update fires\<close>

text \<open>A callback that records its call and re-arms nothing.\<close>

definition log_script :: "(nat \<times> nat) list script" where
  "log_script c u w = (w @ [(c, u)], [])"

definition calls :: "timer_entry list \<Rightarrow> (nat \<times> nat) list" where
  "calls es = map (\<lambda>(_, _, c, u). (c, u)) es"

lemma fold_remove1_Cons: "x \<notin> set ys \<Longrightarrow> fold remove1 ys (x # xs) = x # fold remove1 ys xs"
  by (induction ys arbitrary: xs) auto

lemma fold_remove1_filter: "fold remove1 (filter Q xs) xs = filter (\<lambda>x. \<not> Q x) xs"
  by (induction xs) (auto simp: fold_remove1_Cons)

lemma cal_fire_log: "cal_fire log_script es w C = Some (w @ calls es, C\<lparr>pending := fold remove1 es (pending C)\<rparr>)"
  by (induction es arbitrary: w C) (auto simp: calls_def log_script_def)

lemma cal_tick_log:
  assumes "cal_now C + 1 < 2 ^ 26"
  shows "cal_tick log_script w C = Some (w @ calls (filter (\<lambda>e. fst e = cal_now C + 1) (pending C)),
    C\<lparr>cal_now := cal_now C + 1, pending := filter (\<lambda>e. fst e \<noteq> cal_now C + 1) (pending C)\<rparr>)"
  using assms by (simp add: cal_tick_def Let_def cal_fire_log due_def fold_remove1_filter)

lemma sort_key_least:
  assumes "\<And>x. x \<in> set xs \<Longrightarrow> a \<le> k x"
  shows "sort_key k xs = filter (\<lambda>x. k x = a) xs @ sort_key k (filter (\<lambda>x. k x \<noteq> a) xs)"
proof (rule properties_for_sort_key)
  show "mset (filter (\<lambda>x. k x = a) xs @ sort_key k (filter (\<lambda>x. k x \<noteq> a) xs)) = mset xs"
    by (simp flip: multiset_partition)
  show "filter (\<lambda>x. k y = k x) (filter (\<lambda>x. k x = a) xs @ sort_key k (filter (\<lambda>x. k x \<noteq> a) xs)) =
      filter (\<lambda>x. k y = k x) xs" for y
  proof -
    have "filter (\<lambda>x. k y = k x) (sort_key k zs) = filter (\<lambda>x. k y = k x) zs" for zs
      using sort_key_stable [of k "k y" zs] by (simp add: eq_commute)
    moreover have "filter (\<lambda>x. k y = k x) (filter (\<lambda>x. k x = a) xs) @ filter (\<lambda>x. k y = k x) (filter (\<lambda>x. k x \<noteq> a) xs) =
        filter (\<lambda>x. k y = k x) xs"
    proof (cases "k y = a")
      case True
      have "filter (\<lambda>x. k y = k x) (filter (\<lambda>x. k x = a) xs) = filter (\<lambda>x. k y = k x) xs"
        unfolding filter_filter by (rule filter_cong) (use True in auto)
      moreover have "filter (\<lambda>x. k y = k x) (filter (\<lambda>x. k x \<noteq> a) xs) = []" using True by (auto simp: filter_empty_conv)
      ultimately show ?thesis by simp
    next
      case False
      have "filter (\<lambda>x. k y = k x) (filter (\<lambda>x. k x \<noteq> a) xs) = filter (\<lambda>x. k y = k x) xs"
        unfolding filter_filter by (rule filter_cong) (use False in auto)
      moreover have "filter (\<lambda>x. k y = k x) (filter (\<lambda>x. k x = a) xs) = []" using False by (auto simp: filter_empty_conv)
      ultimately show ?thesis by simp
    qed
    ultimately show ?thesis by simp
  qed
  show "sorted (map k (filter (\<lambda>x. k x = a) xs @ sort_key k (filter (\<lambda>x. k x \<noteq> a) xs)))"
    using assms by (auto simp: sorted_append intro: sorted_map_same)
qed

definition cal_after :: "calendar \<Rightarrow> nat \<Rightarrow> calendar" where
  "cal_after C n = C\<lparr>cal_now := cal_now C + n, pending := filter (\<lambda>e. cal_now C + n < fst e) (pending C)\<rparr>"

definition fired :: "calendar \<Rightarrow> nat \<Rightarrow> timer_entry list" where
  "fired C n = sort_key fst (filter (\<lambda>e. fst e \<le> cal_now C + n) (pending C))"

lemma fired_Suc:
  assumes "\<And>e. e \<in> set (pending C) \<Longrightarrow> cal_now C < fst e"
  defines "a \<equiv> cal_now C + 1"
  defines "C1 \<equiv> C\<lparr>cal_now := a, pending := filter (\<lambda>e. fst e \<noteq> a) (pending C)\<rparr>"
  shows "fired C (Suc n) = filter (\<lambda>e. fst e = a) (pending C) @ fired C1 n" "cal_after C (Suc n) = cal_after C1 n"
proof -
  let ?P = "pending C"
  have "fired C (Suc n) = filter (\<lambda>e. fst e = a) (filter (\<lambda>e. fst e \<le> cal_now C + Suc n) ?P) @
      sort_key fst (filter (\<lambda>e. fst e \<noteq> a) (filter (\<lambda>e. fst e \<le> cal_now C + Suc n) ?P))"
    unfolding fired_def by (rule sort_key_least) (use assms(1) in \<open>fastforce simp: a_def\<close>)
  moreover have "filter (\<lambda>e. fst e = a) (filter (\<lambda>e. fst e \<le> cal_now C + Suc n) ?P) = filter (\<lambda>e. fst e = a) ?P"
    by (simp, rule filter_cong) (auto simp: a_def)
  moreover have "filter (\<lambda>e. fst e \<noteq> a) (filter (\<lambda>e. fst e \<le> cal_now C + Suc n) ?P) =
      filter (\<lambda>e. fst e \<le> cal_now C1 + n) (pending C1)"
    by (simp add: C1_def a_def conj_commute)
  ultimately show "fired C (Suc n) = filter (\<lambda>e. fst e = a) ?P @ fired C1 n" by (simp add: fired_def)
  have "filter (\<lambda>e. a + n < fst e) (filter (\<lambda>e. fst e \<noteq> a) ?P) = filter (\<lambda>e. cal_now C + Suc n < fst e) ?P"
    unfolding filter_filter by (rule filter_cong) (auto simp: a_def)
  then show "cal_after C (Suc n) = cal_after C1 n" by (simp add: cal_after_def C1_def a_def)
qed

text \<open>What a number of ticks does to a calendar whose entries all lie ahead.\<close>

lemma cal_run_ticks:
  assumes "\<And>e. e \<in> set (pending C) \<Longrightarrow> cal_now C < fst e" "cal_now C + n < 2 ^ 26"
  shows "cal_run log_script (replicate n TTick) w C = Some (w @ calls (fired C n), cal_after C n)"
  using assms
proof (induction n arbitrary: C w)
  case 0
  then have "filter (\<lambda>e. fst e \<le> cal_now C) (pending C) = []" "filter (\<lambda>e. cal_now C < fst e) (pending C) = pending C"
    by (fastforce simp: filter_empty_conv, simp add: filter_id_conv)
  then have "fired C 0 = []" "cal_after C 0 = C" by (simp_all add: fired_def cal_after_def)
  then show ?case by (simp add: calls_def)
next
  case (Suc n)
  let ?a = "cal_now C + 1"
  let ?C1 = "C\<lparr>cal_now := ?a, pending := filter (\<lambda>e. fst e \<noteq> ?a) (pending C)\<rparr>"
  have "?a < fst e" if "e \<in> set (pending ?C1)" for e using Suc.prems(1) [of e] that by fastforce
  then have "cal_run log_script (replicate n TTick) w1 ?C1 = Some (w1 @ calls (fired ?C1 n), cal_after ?C1 n)" for w1
    using Suc.IH [of ?C1 w1] Suc.prems(2) by simp
  then show ?case
    using cal_tick_log [of C w] fired_Suc [OF Suc.prems(1), where n = n] Suc.prems(2) by (simp add: calls_def)
qed

lemma update_loop_run_ops:
  "update_loop cb n w t = run_ops coretimer_add coretimer_del (timer_tick_step cb) (replicate n TTick) w t"
  by (induction n arbitrary: w t) simp_all

lemma timer_ok_pending: "timer_ok t C \<Longrightarrow> e \<in> set (pending C) \<Longrightarrow> cal_now C < fst e"
  using running_pending [of t C "{}" e] by (auto simp: timer_ok_def)

lemma update_loop_fires:
  assumes "timer_ok t C" "cal_now C + n < 2 ^ 26"
  shows "\<exists>t'. update_loop (script_cb log_script) n w t = ret (w @ calls (fired C n), t') \<and> timer_ok t' (cal_after C n)"
  unfolding update_loop_run_ops
  by (rule wheel_timer.run_refines [OF assms(1) cal_run_ticks]) (use assms timer_ok_pending in auto)

lemma update_diff_ahead:
  assumes "prev \<le> now" "unat (now - prev) = n" "n < 2 ^ 26"
  shows "unat (update_diff prev now) = n"
proof -
  have "unat (ucast (now - prev) :: u32) = n"
    using assms(2,3) by (simp add: unsigned_ucast_eq take_bit_nat_eq_self)
  then show ?thesis using assms(1,2) by (auto simp: update_diff_def)
qed

lemma timer_ok_tick [simp]: "timer_ok (t\<lparr>timer_tick := x, lock := 0\<rparr>) C \<longleftrightarrow> running t C [] {}"
  by (simp add: timer_ok_def running_def tinv_def cal_sim_def ahead_def)

text \<open>Every pending entry carries an identifier that was handed out before.\<close>

lemma running_ids:
  assumes run: "running t C [] X" and e: "e \<in> set (pending C)"
  shows "fst (snd e) \<noteq> 0 \<and> fst (snd e) \<le> cal_index C"
proof -
  obtain W B F where inv: "tinv t W B F [] X" and sim: "cal_sim t C W []"
    using run unfolding running_def by blast
  have E: "fst e < 2 ^ 26" using sim e by (simp add: cal_sim_def)
  then have "filter (\<lambda>e'. fst e' = fst e) (pending C) = map (entry (mem t)) (queue_at (expiry (mem t)) W (cal_now C) (fst e))"
    using sim by (simp add: cal_sim_def)
  moreover have "e \<in> set (filter (\<lambda>e'. fst e' = fst e) (pending C))" using e by simp
  ultimately obtain p where p: "p \<in> set (queue_at (expiry (mem t)) W (cal_now C) (fst e))" "e = entry (mem t) p" by auto
  have "p \<in> members hash_heads B"
    using queue_at_members [OF cal_sim_slot [OF inv sim E] p(1)] tinvD(3) [OF inv] by simp
  then obtain h where "h \<in> hash_heads" "p \<in> set (B h)" by (auto simp: members_def)
  then show ?thesis using tinvD(2) [OF inv] sim p(2) by (simp add: hash_ok_def entry_def cal_sim_def)
qed




text \<open>A timer with one entry, for the examples.\<close>

definition one_entry :: calendar where
  "one_entry = \<lparr>cal_now = 0, cal_index = 1, pending = [(2, 1, 5, 6)]\<rparr>"

lemma one_timer:
  "\<exists>t1. coretimer_add (coretimer_new 0) 5 6 25 = ret (1, t1) \<and> timer_ok t1 one_entry \<and> timer_tick t1 = gettime 0"
proof -
  have run: "running (coretimer_new 0) cal_new [] {}" "lock (coretimer_new 0) = 0"
    using coretimer_new_ok by (simp_all add: timer_ok_def)
  have "cal_add cal_new 5 6 25 = Some one_entry" by (simp add: cal_add_def cal_new_def ticks_def one_entry_def)
  then show ?thesis
    using add_running [OF run, of 5 6 25 one_entry] by (auto simp: timer_ok_def coretimer_new_def one_entry_def)
qed

section \<open>Properties\<close>

text \<open>
  C1. Any sequence of additions, deletions and ticks on a new timer, with callbacks that may themselves
  add timers, returns and has the effects the calendar has: the same calls with the same arguments in the
  same order, the same identifiers, the same entries left. (The calendar is defined on the sequence
  while expiry times stay below \<open>2 ^ 26\<close> ticks and the identifiers have not wrapped.)
\<close>

theorem coretimer_runs_calendar:
  assumes "cal_run s ops w cal_new = Some (w', C')"
  shows "\<exists>t'. run_ops coretimer_add coretimer_del (timer_tick_step (script_cb s)) ops w (coretimer_new filetime) = ret (w', t') \<and>
    timer_ok t' C'"
  by (rule wheel_timer.run_refines [OF coretimer_new_ok assms])

text \<open>A run with two timers of which the shorter fires first, and a third that is cancelled.\<close>

theorem coretimer_runs_calendar_witness:
  "\<exists>t' C'. run_ops coretimer_add coretimer_del (timer_tick_step (script_cb log_script))
     [TAdd 7 1 30, TAdd 7 2 10, TAdd 8 3 20, TDel 3, TTick, TTick, TTick] [] (coretimer_new 0) = ret ([(7, 2), (7, 1)], t') \<and>
   timer_ok t' C'"
proof -
  have "cal_run log_script [TAdd 7 1 30, TAdd 7 2 10, TAdd 8 3 20, TDel 3, TTick, TTick, TTick] [] cal_new =
      Some ([(7, 2), (7, 1)], \<lparr>cal_now = 3, cal_index = 3, pending = []\<rparr>)"
    by (simp add: cal_new_def cal_add_def cal_del_def cal_tick_log calls_def ticks_def)
  from coretimer_runs_calendar [OF this, of 0] show ?thesis by blast
qed

text \<open>
  C2. An update that finds the clock \<open>n\<close> ticks ahead calls exactly the timers that expire within those
  ticks, ordered by expiry time and, among equal expiry times, in the order they were added, and keeps
  the others pending.
\<close>

theorem coretimer_update_fires:
  assumes "timer_ok t C" "timer_tick t \<le> gettime filetime" "unat (gettime filetime - timer_tick t) = n"
    "cal_now C + n < 2 ^ 26"
  shows "\<exists>t'. coretimer_update (script_cb log_script) filetime w t = ret (w @ calls (fired C n), t') \<and>
    timer_ok t' (cal_after C n)"
proof -
  let ?t = "t\<lparr>timer_tick := gettime filetime, lock := 0\<rparr>"
  have lock: "lock t = 0" using assms(1) by (simp add: timer_ok_def)
  have diff: "unat (update_diff (timer_tick t) (gettime filetime)) = n"
    using update_diff_ahead [OF assms(2,3)] assms(4) by simp
  show ?thesis
  proof (cases "n = 0")
    case True
    then have "coretimer_update (script_cb log_script) filetime w t = update_loop (script_cb log_script) n w t"
      using diff lock by (simp add: coretimer_update_def LOCK_def UNLOCK_def Let_def word_less_nat_alt)
    then show ?thesis using update_loop_fires [OF assms(1,4)] by simp
  next
    case False
    then have "update_diff (timer_tick t) (gettime filetime) > 0" using diff by (simp add: word_less_nat_alt)
    then have "coretimer_update (script_cb log_script) filetime w t = update_loop (script_cb log_script) n w ?t"
      using diff lock by (simp add: coretimer_update_def LOCK_def UNLOCK_def Let_def)
    moreover have "running t C [] {}" using assms(1) by (simp add: timer_ok_def)
    ultimately show ?thesis using update_loop_fires [of ?t C n w] assms(4) by simp
  qed
qed

text \<open>A timer of 25 ms, then an update after 30 ms: it is called once.\<close>

theorem coretimer_update_fires_witness:
  "\<exists>t1 t'. coretimer_add (coretimer_new 0) 5 6 25 = ret (1, t1) \<and>
     coretimer_update (script_cb log_script) 300000 [] t1 = ret ([(5, 6)], t')"
proof -
  obtain t1 where t1: "coretimer_add (coretimer_new 0) 5 6 25 = ret (1, t1)" "timer_ok t1 one_entry"
    "timer_tick t1 = gettime 0" using one_timer by blast
  have g: "gettime 0 = 0" "gettime 300000 = 3" by (simp_all add: gettime_def TIME_SLOT_LEN_def)
  have "fired one_entry 3 = [(2, 1, 5, 6)]" "cal_now one_entry = 0" by (simp_all add: fired_def one_entry_def)
  with t1 g coretimer_update_fires [of t1 one_entry 300000 3 "[]"] show ?thesis by (auto simp: calls_def)
qed

text \<open>
  C17. Adding returns a fresh identifier and deleting by it cancels exactly that timer: add followed by
  delete leaves the pending entries as they were.
\<close>

theorem coretimer_add_del:
  assumes "timer_ok t C" "cal_index C \<noteq> - 1" "cal_now C + ticks wait < 2 ^ 26"
  shows "\<exists>ident t1 t2. coretimer_add t call ctx wait = ret (ident, t1) \<and> (\<forall>e\<in>set (pending C). fst (snd e) \<noteq> ident) \<and>
    coretimer_del t1 ident = ret t2 \<and> timer_ok t2 (C\<lparr>cal_index := cal_index C + 1\<rparr>)"
proof -
  let ?C1 = "C\<lparr>cal_index := cal_index C + 1, pending := pending C @ [(cal_now C + ticks wait, cal_index C + 1, call, ctx)]\<rparr>"
  have "cal_add C call ctx wait = Some ?C1" using assms by (simp add: cal_add_def)
  then obtain t1 where t1: "coretimer_add t call ctx wait = ret (cal_index C + 1, t1)" "timer_ok t1 ?C1"
    using wheel_timer.add_law [OF assms(1)] by fastforce
  obtain t2 where t2: "coretimer_del t1 (cal_index C + 1) = ret t2" "timer_ok t2 (cal_del ?C1 (cal_index C + 1))"
    using wheel_timer.del_law [OF t1(2)] by blast
  have fresh: "\<forall>e\<in>set (pending C). fst (snd e) \<noteq> cal_index C + 1"
    using running_ids [of t C "{}"] assms(1) word_less_add_1 [OF assms(2)] by (force simp: timer_ok_def)
  then have "cal_del ?C1 (cal_index C + 1) = C\<lparr>cal_index := cal_index C + 1\<rparr>"
    by (simp add: cal_del_def filter_id_conv)
  with t1 t2 fresh show ?thesis by metis
qed

text \<open>On a new timer.\<close>

theorem coretimer_add_del_witness:
  "\<exists>t1 t2. coretimer_add (coretimer_new 0) 5 6 25 = ret (1, t1) \<and> coretimer_del t1 1 = ret t2 \<and>
     timer_ok t2 (cal_new\<lparr>cal_index := 1\<rparr>)"
proof -
  obtain ident t1 t2 where t: "coretimer_add (coretimer_new 0) 5 6 25 = ret (ident, t1)" "coretimer_del t1 ident = ret t2"
    "timer_ok t2 (cal_new\<lparr>cal_index := 1\<rparr>)"
    using coretimer_add_del [OF coretimer_new_ok [of 0], of 25 5 6] by (auto simp: cal_new_def ticks_def)
  then show ?thesis using one_timer by auto
qed




section \<open>Outside the range\<close>

lemma list_clear_idle: "h \<in> wheel_heads \<Longrightarrow> list_clear new_mem h = ret (Null, new_mem)"
  using fld_new_mem(1) [of h] wheel.heads [of h] by (simp add: list_clear_def tload_dom fld_folds Let_def)

lemma timer_execute_idle:
  assumes "mem t = new_mem" "lock t = 0"
  shows "timer_execute cb w t = ret (w, t)"
proof -
  have "THead (unat (time t AND 255)) \<in> wheel_heads" by (simp add: wheel_heads_def unat_and_255)
  then show ?thesis using assms list_clear_idle
    by (simp add: timer_execute_def LOCK_def UNLOCK_def Let_def execute_loop.simps)
qed

lemma tick_idle:
  assumes "mem t = new_mem" "lock t = 0" "Suc (unat (time t)) < 2 ^ 26"
  shows "timer_tick_step cb w t = ret (w, t\<lparr>time := time t + 1\<rparr>)"
proof -
  let ?t = "t\<lparr>lock := 1, time := time t + 1\<rparr>"
  have time: "unat (time t + 1) = Suc (unat (time t))" using assms(3) by (simp add: unat_word_ariths)
  then have ct: "time t + 1 \<noteq> 0" by auto
  have "move_head ?t h = ret ?t" if "cascade (Suc (unat (time t))) = Some h" for h
    using cascade_heads [OF assms(3) _ that] list_clear_idle assms(1) by (simp add: move_head_def move_loop.simps)
  then have "shift_loop ?t (time t + 1) 256 (drop_bit 8 (time t + 1)) 0 = ret ?t"
    using shift_loop_cascade [OF ct, of ?t] time by (auto split: option.splits)
  then have "timer_shift t = ret (t\<lparr>time := time t + 1\<rparr>)"
    using assms(2) ct by (simp add: timer_shift_def LOCK_def UNLOCK_def Let_def)
  then show ?thesis using assms by (simp add: timer_tick_step_def timer_execute_idle)
qed

lemma tick_crash:
  assumes "mem t = new_mem" "lock t = 0" "Suc (unat (time t)) = 2 ^ 26"
  shows "timer_tick_step cb w t = abort NullDeref"
proof -
  have ct: "time t + 1 = 2 ^ 26"
  proof (rule word_unat_eq_iff [THEN iffD2])
    show "unat (time t + 1) = unat (2 ^ 26 :: u32)"
      using assms(3) unat_pow2 [where 'a = 32, of 26] by (simp add: unat_word_ariths)
  qed
  have ex: "timer_execute cb w t = ret (w, t)"
    by (rule timer_execute_idle [OF assms(1,2)])
  let ?t = "t\<lparr>lock := 1, time := 2 ^ 26\<rparr>"
  have u: "unat (2 ^ 26 :: u32) = 2 ^ 26" by (rule unat_pow2) simp
  have "cascade (unat (2 ^ 26 :: u32)) = Some (NHead 3 1)" unfolding u by (simp add: cascade_def)
  moreover have "move_head ?t (NHead 3 1) = abort NullDeref"
    using assms(1) by (simp add: move_head_def list_clear_def zero_node_def Let_def)
  ultimately have "shift_loop ?t (2 ^ 26) 256 (drop_bit 8 (2 ^ 26)) 0 = abort NullDeref"
    using shift_loop_cascade [of "2 ^ 26" ?t] by simp
  then have "timer_shift t = abort NullDeref"
    using assms(2) ct by (simp add: timer_shift_def LOCK_def Let_def)
  then show ?thesis using ex by (simp add: timer_tick_step_def)
qed

lemma update_loop_idle:
  assumes "mem t = new_mem" "lock t = 0" "unat (time t) < 2 ^ 26"
  shows "update_loop cb n w t =
    (if unat (time t) + n < 2 ^ 26 then ret (w, t\<lparr>time := time t + of_nat n\<rparr>) else abort NullDeref)"
  using assms
proof (induction n arbitrary: t)
  case (Suc n)
  show ?case
  proof (cases "Suc (unat (time t)) < 2 ^ 26")
    case True
    have "unat (time t + 1) = Suc (unat (time t))" using True by (simp add: unat_word_ariths)
    moreover have "timer_tick_step cb w t = ret (w, t\<lparr>time := time t + 1\<rparr>)"
      by (rule tick_idle [OF Suc.prems(1,2) True])
    ultimately show ?thesis
      using Suc.IH [of "t\<lparr>time := time t + 1\<rparr>"] Suc.prems True by (simp add: add.assoc)
  next
    case False
    then have "timer_tick_step cb w t = abort NullDeref" using Suc.prems by (intro tick_crash) simp_all
    with False show ?thesis by simp
  qed
qed simp

text \<open>
  C26. A timer that is left idle stops the process after \<open>2 ^ 26\<close> ticks, because \<^verbatim>\<open>timer_shift\<close> then
  walks into the row \<^verbatim>\<open>n[3]\<close>, which \<^verbatim>\<open>coretimer_new\<close> never links: whatever the callbacks, the run of
  ticks succeeds below that number and dereferences null from it on.
\<close>

theorem idle_timer_crashes:
  "update_loop cb n w (coretimer_new filetime) =
     (if n < 2 ^ 26 then ret (w, (coretimer_new filetime)\<lparr>time := of_nat n\<rparr>) else abort NullDeref)"
  using update_loop_idle [of "coretimer_new filetime" cb n w] by (simp add: coretimer_new_def)

text \<open>
  A wait of \<open>2 ^ 26\<close> ticks (some seven days and eighteen hours) or more on a new timer dereferences
  null: its node would go to the row \<^verbatim>\<open>n[3]\<close>, whose sentinels were never linked.
\<close>

theorem coretimer_add_far_crashes:
  assumes "2 ^ 26 \<le> unat wait div 10"
  shows "coretimer_add (coretimer_new filetime) call ctx wait = abort NullDeref"
proof -
  have w: "unat (wait div 10) = unat wait div 10" using unat_div [of wait 10] by simp
  then have nz: "wait div 10 \<noteq> 0" using assms by auto
  define node where "node = \<lparr>tn_u = ctx, tn_call = call, list_prev = Null, list_next = Null,
            hash_prev = Null, hash_next = Null, tn_expire = wait div 10, tn_id = 1\<rparr>"
  define t where "t = (coretimer_new filetime)\<lparr>use_cnt := 1, mem := new_mem(Cell 0 \<mapsto> node), brk := 1, index := 1, lock := 1\<rparr>"
  have "unat wait div 10 < 2 ^ 32" using unsigned_less [of wait, where 'a = nat] by simp
  then have "slot 0 (unat wait div 10) = NHead 3 (unat wait div 10 div 2 ^ 26 mod 64)"
    using assms by (auto simp: slot_def div_eq_0_iff)
  moreover have "addto_list t (Cell 0) = bnd (list_add (mem t) (slot 0 (unat wait div 10)) (Cell 0)) (\<lambda>m. ret (t\<lparr>mem := m\<rparr>))"
    using addto_list_slot [of "Cell 0" t] w by (simp add: t_def coretimer_new_def expiry_def fld_def node_def)
  moreover have "list_add (mem t) (NHead 3 k) (Cell 0) = abort NullDeref" if "k < 64" for k
    using that by (simp add: list_add_def t_def node_def zero_node_def mupd_def)
  ultimately have "addto_list t (Cell 0) = abort NullDeref" by simp
  moreover have "coretimer_add (coretimer_new filetime) call ctx wait =
      bnd (addto_list t (Cell 0)) (\<lambda>t. bnd (addto_hash (mem t) (Cell 0)) (\<lambda>m.
        let t = UNLOCK (t\<lparr>mem := m\<rparr>) in bnd (tload (mem t) (Cell 0)) (\<lambda>rn. ret (tn_id rn, t))))"
    using nz by (simp add: coretimer_add_def timernode_alloc_def coretimer_new_def LOCK_def UNLOCK_def Let_def
        t_def node_def mupd_def)
  ultimately show ?thesis by simp
qed

text \<open>Eight days.\<close>

theorem coretimer_add_far_crashes_witness: "coretimer_add (coretimer_new 0) 5 6 691200000 = abort NullDeref"
  by (rule coretimer_add_far_crashes) simp

section \<open>Deleting the timer\<close>

text \<open>
  The walk over a bucket waits for a null pointer, but a bucket is a circle through its sentinel: from
  any of its nodes the walk never ends.
\<close>

definition in_bucket :: "core_timer \<Rightarrow> nat \<Rightarrow> tptr \<Rightarrow> bool" where
  "in_bucket t k node \<longleftrightarrow> (\<exists>W B F. tinv t W B F [] {} \<and> lock t = 0 \<and> k < 1024 \<and> node \<in> set (HHead k # B (HHead k)))"

lemma hash_bucket_iff:
  assumes ok: "hash_ok m B i" and k: "k < 1024"
  shows "p \<in> set (B (HHead k)) \<longleftrightarrow> p \<in> members hash_heads B \<and> HASH (fld tn_id m p) = k"
proof
  assume "p \<in> members hash_heads B \<and> HASH (fld tn_id m p) = k"
  then obtain h where "h \<in> hash_heads" "p \<in> set (B h)" by (auto simp: members_def)
  then show "p \<in> set (B (HHead k))" using ok \<open>p \<in> _ \<and> _\<close> by (auto simp: hash_ok_def)
next
  assume p: "p \<in> set (B (HHead k))"
  have "HHead k \<in> hash_heads" using k by (simp add: hash_heads_def)
  then show "p \<in> members hash_heads B \<and> HASH (fld tn_id m p) = k"
    using ok p membersI by (fastforce simp: hash_ok_def)
qed

lemma bucket_step:
  assumes inb: "in_bucket t k node"
  shows "\<exists>t'. node \<noteq> Null \<and> node \<in> dom (mem t) \<and> coretimer_del t (fld tn_id (mem t) node) = ret t' \<and>
    in_bucket t' k (fld hash_next (mem t) node)"
proof -
  obtain W B F where inv: "tinv t W B F [] {}" and lock: "lock t = 0" and k: "k < 1024" and n: "node \<in> set (HHead k # B (HHead k))"
    using inb unfolding in_bucket_def by blast
  note I = tinvD [OF inv]
  let ?h = "HHead k" and ?n = "fld hash_next (mem t) node"
  have h: "?h \<in> hash_heads" using k by (simp add: hash_heads_def)
  note R = hash_ok_rings [OF I(2)]
  have here: "node \<noteq> Null" "node \<in> dom (mem t)" using n bucket.rings_nodes [OF R h] by auto
  have next_in: "?n \<in> set (?h # B ?h)" and next_ne: "node \<noteq> ?h \<Longrightarrow> ?n \<noteq> node"
  proof -
    have ring: "dseg hash_next hash_prev (mem t) ?h (B ?h) ?h" using rings_ring [OF R h] by (simp add: ring_def)
    show "?n \<noteq> node" if "node \<noteq> ?h" using that n bucket.rings_inner(6) [OF R h, of node] by auto
    show "?n \<in> set (?h # B ?h)"
    proof (cases "node = ?h")
      case True
      then show ?thesis using bucket.rings_first_last(2) [OF R h] by (auto simp: hd_append)
    next
      case False
      with n obtain xs ys where "B ?h = xs @ node # ys" by (auto simp: in_set_conv_decomp)
      with ring have "dseg hash_next hash_prev (mem t) node ys ?h" by (simp add: dseg_append)
      then show ?thesis using dseg_first \<open>B ?h = _\<close> by (fastforce simp: hd_append)
    qed
  qed
  show ?thesis
  proof (cases "node = ?h")
    case True
    have "fld tn_id (mem t) node = 0" using I(2) h True by (simp add: hash_ok_def)
    moreover have "fld tn_id (mem t) p \<noteq> 0" if "p \<in> members wheel_heads W" for p
    proof -
      have "p \<in> members hash_heads B" using that I(3) by simp
      then obtain h' where "h' \<in> hash_heads" "p \<in> set (B h')" by (auto simp: members_def)
      then show ?thesis using I(2) by (simp add: hash_ok_def)
    qed
    ultimately have "coretimer_del t (fld tn_id (mem t) node) = ret t" using del_missing [OF inv lock] by simp
    then show ?thesis using here inv lock k next_in True unfolding in_bucket_def by blast
  next
    case False
    then have r: "node \<in> members wheel_heads W" using n membersI [OF h] I(3) by auto
    obtain t' W' B' F' where t': "coretimer_del t (fld tn_id (mem t) node) = ret t'" "tinv t' W' B' F' [] {}" "lock t' = 0"
      "members wheel_heads W' = members wheel_heads W - {node}" "\<And>q. q \<noteq> node \<Longrightarrow> entry (mem t') q = entry (mem t) q"
      using del_found [OF inv lock r refl] by blast
    have "?n \<in> set (?h # B' ?h)"
    proof (cases "?n = ?h")
      case n: False
      then have "?n \<in> members wheel_heads W" "HASH (fld tn_id (mem t) ?n) = k"
        using next_in hash_bucket_iff [OF I(2) k, of ?n] I(3) by auto
      moreover have "fld tn_id (mem t') ?n = fld tn_id (mem t) ?n"
        using t'(5) [OF next_ne [OF False]] by (simp add: entry_def)
      ultimately show ?thesis
        using hash_bucket_iff [OF tinvD(2) [OF t'(2)] k, of ?n] tinvD(3) [OF t'(2)] t'(4) next_ne [OF False] by simp
    qed simp
    then show ?thesis using t' here k unfolding in_bucket_def by blast
  qed
qed

lemma bucket_first:
  assumes inv: "tinv t W B F [] {}" and lock: "lock t = 0"
  shows "HHead 0 \<in> dom (mem t)" "in_bucket t 0 (fld hash_next (mem t) (HHead 0))"
proof -
  have h: "HHead 0 \<in> hash_heads" by (simp add: hash_heads_def)
  note R = hash_ok_rings [OF tinvD(2) [OF inv]]
  show "HHead 0 \<in> dom (mem t)" using bucket.rings_ends(5) [OF R h] .
  have "fld hash_next (mem t) (HHead 0) \<in> set (HHead 0 # B (HHead 0))"
    using bucket.rings_first_last(2) [OF R h] by (auto simp: hd_append)
  then show "in_bucket t 0 (fld hash_next (mem t) (HHead 0))" using inv lock unfolding in_bucket_def by auto
qed

lemma delete_bucket_diverges:
  assumes "in_bucket t k node"
  shows "delete_bucket t node = diverge"
proof -
  have "\<not> in_bucket t k node" if "delete_bucket t node = Some y" for t node y
  proof (rule delete_bucket.raw_induct [OF _ that])
    fix f t node y
    assume IH: "\<And>t node y. f t node = Some y \<Longrightarrow> \<not> in_bucket t k node"
      and body: "(if node = Null then ret t
        else bnd (tload (mem t) node) (\<lambda>nn. bnd (coretimer_del t (tn_id nn)) (\<lambda>t. f t (hash_next nn)))) = Some y"
    show "\<not> in_bucket t k node"
    proof
      assume inb: "in_bucket t k node"
      obtain t' where "node \<noteq> Null" "node \<in> dom (mem t)" "coretimer_del t (fld tn_id (mem t) node) = ret t'"
        "in_bucket t' k (fld hash_next (mem t) node)" using bucket_step [OF inb] by blast
      moreover from this have "f t' (fld hash_next (mem t) node) = Some y" using body by (simp add: tload_dom fld_folds)
      ultimately show False using IH by blast
    qed
  qed
  with assms show ?thesis by (cases "delete_bucket t node") (auto simp: diverge_def)
qed

lemma coretimer_delete_diverges:
  assumes "timer_ok t C"
  shows "coretimer_delete t = diverge"
proof -
  obtain W B F where inv: "tinv t W B F [] {}" and lock: "lock t = 0"
    using assms unfolding timer_ok_def running_def by blast
  have "delete_buckets t 0 = diverge"
    using bucket_first [OF inv lock] delete_bucket_diverges
    by (subst delete_buckets.simps) (simp add: tload_dom fld_folds)
  then show ?thesis by (simp add: coretimer_delete_def)
qed

text \<open>
  C27. \<^verbatim>\<open>coretimer_delete\<close> never returns, on any well-formed timer, empty or not.
\<close>

theorem coretimer_delete_never_returns:
  assumes "timer_ok t C"
  shows "coretimer_delete t = diverge"
  using assms by (rule coretimer_delete_diverges)

text \<open>Even right after \<^verbatim>\<open>coretimer_new\<close>.\<close>

theorem coretimer_delete_never_returns_witness: "coretimer_delete (coretimer_new 0) = diverge"
  by (rule coretimer_delete_never_returns [OF coretimer_new_ok])

text \<open>
  When the system clock is set back by \<open>k\<close> ticks, an update runs \<open>2 ^ 32 - 1 - k\<close> ticks, as if the
  tick count had wrapped.
\<close>

theorem update_diff_rewind:
  assumes "0 < k" "k < 2 ^ 32" "k \<le> unat prev_tick"
  shows "unat (update_diff prev_tick (prev_tick - of_nat k)) = 2 ^ 32 - 1 - k"
proof -
  let ?k = "of_nat k :: u64"
  have uk: "unat ?k = k" using assms(2) by (simp add: unat_of_nat take_bit_nat_eq_self)
  then have "?k \<le> prev_tick" "?k \<noteq> 0" using assms by (auto simp: word_le_nat_alt)
  then have "prev_tick - ?k < prev_tick" using uk assms by (simp add: word_less_nat_alt unat_sub)
  then have "update_diff prev_tick (prev_tick - ?k) = ucast (- 1 - ?k)" by (simp add: update_diff_def)
  moreover have "unat (- 1 - ?k) = 2 ^ 64 - 1 - k"
    using unat_sub [of ?k "- 1"] uk by (simp add: unsigned_minus_1_eq_mask mask_eq_exp_minus_1)
  moreover have "(2 ^ 64 - 1 - k) mod 2 ^ 32 = 2 ^ 32 - 1 - k"
  proof -
    have "2 ^ 64 - 1 - k = (2 ^ 32 - 1 - k) + (2 ^ 32 - 1) * 2 ^ 32" using assms(2) by simp
    then show ?thesis by (simp only: mod_mult_self1) (use assms(2) in simp)
  qed
  ultimately show ?thesis by (simp add: unsigned_ucast_eq take_bit_eq_mod)
qed

text \<open>A clock set back by one second: over four thousand million ticks.\<close>

theorem update_diff_rewind_witness: "unat (update_diff 1000 (1000 - of_nat 100)) = 4294967195"
  using update_diff_rewind [of 100 1000] by simp

end
