(* ===== verification/CorePoller.thy ===== *)
theory CorePoller
  imports TimerProps
begin

text \<open>
  The poller of \<^verbatim>\<open>net/corepoller.c\<close>: a completion port, worker threads that take packets from it, and the
  timer they keep up to date. The port is the operating system's and is modelled as what is documented
  of it, a first-in first-out queue of the packets posted. Worker threads are interchangeable, so the
  system's state is the poller, the queue and the number of workers still in their loop; each turn of
  a worker's loop is one step. The quit token that winds the workers down is the interesting part.
\<close>

section \<open>State\<close>

datatype packet = Quit u32 | Msg nat nat u32 u32 | PortError u32

text \<open>
  \<open>Msg ctx ev bytes err\<close> is a packet with a completion key and an event to call, and the error of the
  operation it completes; \<open>Quit bytes\<close> one whose \<^verbatim>\<open>OVERLAPPED\<close> is the poller's own \<^verbatim>\<open>quit\<close>;
  \<open>PortError err\<close> stands for a call that fails without a packet. \<open>live\<close> counts the threads started and not yet ended.
\<close>

record core_poller =
  cp_thr :: u8
  cp_quited :: u32
  cp_timer :: core_timer
  in_timer :: u32
  port :: "packet list"
  live :: nat

section \<open>Operations\<close>

text \<open>
  \<open>h\<close> is whether the system gave a completion port; \<open>junk\<close> is what the allocated memory held, which
  becomes the value of \<^verbatim>\<open>in_timer\<close>.
\<close>

definition corepoller_new :: "bool \<Rightarrow> u32 \<Rightarrow> u64 \<Rightarrow> core_poller option" where
  "corepoller_new h junk filetime =
     (if \<not> h then None
      else Some \<lparr>cp_thr = 0, cp_quited = 1, cp_timer = coretimer_new filetime, in_timer = junk, port = [], live = 0\<rparr>)"

definition corepoller_delete :: "core_poller \<Rightarrow> unit prog" where
  "corepoller_delete io = bnd (coretimer_delete (cp_timer io)) (\<lambda>_. ret ())"

text \<open>The first half of a turn: whoever finds the timer free brings it up to date.\<close>

definition thread_timer :: "core_poller callback \<Rightarrow> u64 \<Rightarrow> core_poller \<Rightarrow> core_poller prog" where
  "thread_timer cb filetime io =
     (if in_timer io = 0 then
        bnd (coretimer_update cb filetime (io\<lparr>in_timer := 1\<rparr>) (cp_timer io)) (\<lambda>(io, t).
        ret (io\<lparr>cp_timer := t, in_timer := 0\<rparr>))
      else ret io)"

text \<open>
  The second half: what a worker does with the packet it took. The result says whether it goes on.
  \<open>handler\<close> interprets the event's callback. Handling a packet is one step here; in particular setting \<^verbatim>\<open>quited\<close> and leaving the loop,
  which follows at once, coincide.
\<close>

definition thread_packet ::
  "(nat \<Rightarrow> nat \<Rightarrow> u32 \<Rightarrow> u32 \<Rightarrow> core_poller \<Rightarrow> core_poller prog) \<Rightarrow> packet \<Rightarrow> core_poller \<Rightarrow> (bool \<times> core_poller) prog" where
  "thread_packet handler p io =
     (case p of
        Quit bytes \<Rightarrow>
          (let bytes = bytes - 1 in
           if bytes > 0 then ret (False, io\<lparr>port := port io @ [Quit bytes]\<rparr>)
           else ret (False, io\<lparr>cp_quited := 1\<rparr>))
      | Msg ctx ev bytes err \<Rightarrow> bnd (handler ctx ev bytes err io) (\<lambda>io. ret (True, io))
      | PortError err \<Rightarrow> abort AssertionFailed)"

text \<open>One turn of the loop of \<^verbatim>\<open>THREAD_START_ROUTINE\<close>; an empty port is the timeout.\<close>

definition thread_turn ::
  "(nat \<Rightarrow> nat \<Rightarrow> u32 \<Rightarrow> u32 \<Rightarrow> core_poller \<Rightarrow> core_poller prog) \<Rightarrow> core_poller callback \<Rightarrow> u64 \<Rightarrow> core_poller \<Rightarrow> core_poller prog" where
  "thread_turn handler cb filetime io =
     bnd (thread_timer cb filetime io) (\<lambda>io.
     case port io of
       [] \<Rightarrow> ret io
     | p # ps \<Rightarrow>
       bnd (thread_packet handler p (io\<lparr>port := ps\<rparr>)) (\<lambda>(goes_on, io).
       ret (if goes_on then io else io\<lparr>live := live io - 1\<rparr>)))"

definition corepoller_start_thread :: "core_poller \<Rightarrow> u8 \<Rightarrow> core_poller" where
  "corepoller_start_thread io n =
     (let n = (if n = 0 then 1 else n);
          io = io\<lparr>cp_quited := 0\<rparr>;
          io = (if cp_thr io < n then io\<lparr>live := live io + (unat n - unat (cp_thr io)), cp_thr := n\<rparr> else io);
          io = (if cp_thr io > n then io\<lparr>port := port io @ [Quit (ucast (cp_thr io) - ucast n)]\<rparr> else io) in
      io\<lparr>cp_thr := n\<rparr>)"

text \<open>Stopping posts the token; then the caller waits until \<^verbatim>\<open>quited\<close> is set.\<close>

definition corepoller_stop_thread :: "core_poller \<Rightarrow> core_poller" where
  "corepoller_stop_thread io =
     (if cp_thr io > 0 then io\<lparr>port := port io @ [Quit (ucast (cp_thr io))], cp_thr := 0\<rparr> else io)"

definition stop_returns :: "core_poller \<Rightarrow> bool" where
  "stop_returns io \<longleftrightarrow> cp_quited io \<noteq> 0"

text \<open>
  \<open>last_error\<close> is what \<^verbatim>\<open>GetLastError\<close> says after the post; a pending operation is no error. The
  argument \<open>e\<close> is not used: the packet always arrives without an error.
\<close>

definition corepoller_post :: "u32 \<Rightarrow> core_poller \<Rightarrow> nat \<Rightarrow> nat \<Rightarrow> u32 \<Rightarrow> u32 \<Rightarrow> u32 \<times> core_poller" where
  "corepoller_post last_error io ctx ev bytes e =
     (if cp_thr io = 0 then (- 1, io)
      else ((if last_error = 997 then 0 else last_error), io\<lparr>port := port io @ [Msg ctx ev bytes 0]\<rparr>))"

definition corepoller_append_socket :: "bool \<Rightarrow> u32" where
  "corepoller_append_socket h = (if h then 0 else - 1)"

definition corepoller_start_timer :: "core_poller \<Rightarrow> nat \<Rightarrow> nat \<Rightarrow> u32 \<Rightarrow> (u32 \<times> core_poller) prog" where
  "corepoller_start_timer io call u wait =
     bnd (coretimer_add (cp_timer io) call u wait) (\<lambda>(i, t). ret (i, io\<lparr>cp_timer := t\<rparr>))"

definition corepoller_stop_timer :: "core_poller \<Rightarrow> u32 \<Rightarrow> core_poller prog" where
  "corepoller_stop_timer io idx =
     bnd (coretimer_del (cp_timer io) idx) (\<lambda>t. ret (io\<lparr>cp_timer := t\<rparr>))"

section \<open>The quit token\<close>

text \<open>
  Handlers and timer callbacks may post messages and change anything of the timer, but never a quit
  token, the number of workers or \<^verbatim>\<open>quited\<close>: that is all that is assumed of them.
\<close>

fun is_quit :: "packet \<Rightarrow> bool" where
  "is_quit (Quit _) = True"
| "is_quit (Msg _ _ _ _) = False"
| "is_quit (PortError _) = False"

fun is_msg :: "packet \<Rightarrow> bool" where
  "is_msg (Msg _ _ _ _) = True"
| "is_msg (Quit _) = False"
| "is_msg (PortError _) = False"

definition posts_only :: "core_poller \<Rightarrow> core_poller \<Rightarrow> bool" where
  "posts_only io io' \<longleftrightarrow> cp_quited io' = cp_quited io \<and> live io' = live io \<and>
     (\<exists>ms. (\<forall>m\<in>set ms. is_msg m) \<and> port io' = port io @ ms)"

definition handler_ok :: "(nat \<Rightarrow> nat \<Rightarrow> u32 \<Rightarrow> u32 \<Rightarrow> core_poller \<Rightarrow> core_poller prog) \<Rightarrow> bool" where
  "handler_ok handler \<longleftrightarrow> (\<forall>ctx ev bytes err io io'. handler ctx ev bytes err io = ret io' \<longrightarrow> posts_only io io')"

definition callback_ok :: "core_poller callback \<Rightarrow> bool" where
  "callback_ok cb \<longleftrightarrow> (\<forall>c u io t io' t'. cb c u (io, t) = ret (io', t') \<longrightarrow> posts_only io io')"

text \<open>
  Events of the system: a worker runs the timer, a worker takes the next packet, or somebody else
  posts a message.
\<close>

inductive winding :: "(nat \<Rightarrow> nat \<Rightarrow> u32 \<Rightarrow> u32 \<Rightarrow> core_poller \<Rightarrow> core_poller prog) \<Rightarrow> core_poller callback \<Rightarrow>
    core_poller \<Rightarrow> core_poller \<Rightarrow> bool" for handler cb where
  w_timer: "live io > 0 \<Longrightarrow> thread_timer cb filetime io = ret io' \<Longrightarrow> winding handler cb io io'"
| w_take: "live io > 0 \<Longrightarrow> port io = p # ps \<Longrightarrow> thread_packet handler p (io\<lparr>port := ps\<rparr>) = ret (goes_on, io') \<Longrightarrow>
     winding handler cb io (if goes_on then io' else io'\<lparr>live := live io' - 1\<rparr>)"
| w_post: "posts_only io io' \<Longrightarrow> winding handler cb io io'"

inductive windings :: "(nat \<Rightarrow> nat \<Rightarrow> u32 \<Rightarrow> u32 \<Rightarrow> core_poller \<Rightarrow> core_poller prog) \<Rightarrow> core_poller callback \<Rightarrow>
    core_poller \<Rightarrow> core_poller \<Rightarrow> bool" for handler cb where
  w_refl: "windings handler cb io io"
| w_step: "winding handler cb io io' \<Longrightarrow> windings handler cb io' io'' \<Longrightarrow> windings handler cb io io''"

text \<open>
  \<open>token k io\<close>: either exactly one token is under way and says how many workers are to go, all but
  \<open>k\<close> of those live, or the last of them has set \<^verbatim>\<open>quited\<close>.
\<close>

definition token :: "nat \<Rightarrow> core_poller \<Rightarrow> bool" where
  "token k io \<longleftrightarrow> (\<forall>p\<in>set (port io). is_quit p \<or> is_msg p) \<and>
     (if cp_quited io = 0 then
        k < live io \<and> (\<exists>b. filter is_quit (port io) = [Quit b] \<and> unat b = live io - k)
      else live io = k \<and> filter is_quit (port io) = [])"

lemma is_msg_not_quit: "is_msg p \<Longrightarrow> \<not> is_quit p"
  by (cases p) auto

lemma msgs_no_quit: "\<forall>p\<in>set ps. is_msg p \<Longrightarrow> filter is_quit ps = []"
  by (simp add: filter_empty_conv is_msg_not_quit)

lemma posts_only_refl: "posts_only io io"
  by (auto simp: posts_only_def intro: exI [of _ "[]"])

lemma posts_only_trans: "posts_only io io1 \<Longrightarrow> posts_only io1 io2 \<Longrightarrow> posts_only io io2"
proof -
  assume a: "posts_only io io1" "posts_only io1 io2"
  then obtain ms ms' where "port io1 = port io @ ms" "port io2 = port io1 @ ms'"
    "\<forall>m\<in>set ms. is_msg m" "\<forall>m\<in>set ms'. is_msg m" unfolding posts_only_def by blast
  then have "(\<forall>m\<in>set (ms @ ms'). is_msg m) \<and> port io2 = port io @ (ms @ ms')" by auto
  then show ?thesis using a unfolding posts_only_def by metis
qed

lemma posts_only_token: "posts_only io io' \<Longrightarrow> token k io' = token k io"
proof -
  assume p: "posts_only io io'"
  then obtain ms where ms: "port io' = port io @ ms" "\<forall>m\<in>set ms. is_msg m" by (auto simp: posts_only_def)
  with p show ?thesis by (auto simp: token_def posts_only_def msgs_no_quit)
qed

text \<open>Whatever the callbacks keep of the poller, an update of the timer keeps.\<close>

lemma execute_loop_posts:
  assumes cb: "callback_ok cb" and e: "execute_loop cb r io t = ret (io', t')"
  shows "posts_only io io'"
proof -
  have "callback_ok cb \<longrightarrow> (\<forall>io' t'. out = Ok (io', t') \<longrightarrow> posts_only io io')"
    if r: "execute_loop cb r io t = Some out" for out
  proof (rule execute_loop.raw_induct [OF _ r], intro impI allI)
    fix f cb r io t y io' t'
    assume IH: "\<And>cb r io t y. f cb r io t = Some y \<Longrightarrow>
        callback_ok cb \<longrightarrow> (\<forall>io' t'. y = Ok (io', t') \<longrightarrow> posts_only io io')"
      and y: "(if r = Null then ret (io, t)
        else bnd (tload (mem t) r) (\<lambda>rn. bnd (delfrom_hash (mem t) r) (\<lambda>m.
          bnd (cb (tn_call rn) (tn_u rn) (io, UNLOCK (t\<lparr>mem := m\<rparr>))) (\<lambda>(w, timer).
          bnd (timernode_dealloc timer r) (\<lambda>timer. bnd (LOCK timer) (f cb (list_next rn) w)))))) = Some y"
      and c: "callback_ok cb" "y = Ok (io', t')"
    show "posts_only io io'"
    proof (cases "r = Null")
      case True
      then show ?thesis using y c by (auto simp: ret_def posts_only_refl)
    next
      case False
      with y c obtain rn :: timer_node and m io1 t1 t2 where
        "cb (tn_call rn) (tn_u rn) (io, UNLOCK (t\<lparr>mem := m\<rparr>)) = ret (io1, t1)"
        "f cb (list_next rn) io1 t2 = ret (io', t')"
        by (auto simp: ret_def [symmetric] bnd_eq_ret)
      moreover from this have "posts_only io io1" using c(1) unfolding callback_ok_def by blast
      moreover have "posts_only io1 io'" using calculation(2) c IH by (auto simp: ret_def)
      ultimately show ?thesis using posts_only_trans by blast
    qed
  qed
  then show ?thesis using assms by (simp add: ret_def)
qed

lemma timer_execute_posts: "callback_ok cb \<Longrightarrow> timer_execute cb io t = ret (io', t') \<Longrightarrow> posts_only io io'"
  by (auto simp: timer_execute_def Let_def bnd_eq_ret dest: execute_loop_posts)

lemma update_loop_posts: "callback_ok cb \<Longrightarrow> update_loop cb n io t = ret (io', t') \<Longrightarrow> posts_only io io'"
proof (induction n arbitrary: io t)
  case 0
  then show ?case by (simp add: posts_only_refl)
next
  case (Suc n)
  then obtain io1 t1 io2 t2 t3 where "timer_execute cb io t = ret (io1, t1)"
      "timer_execute cb io1 t3 = ret (io2, t2)" "update_loop cb n io2 t2 = ret (io', t')"
    by (auto simp: timer_tick_step_def bnd_eq_ret)
  then show ?case using Suc timer_execute_posts posts_only_trans by metis
qed

lemma thread_timer_posts:
  assumes cb: "callback_ok cb" and t: "thread_timer cb filetime io = ret io'"
  shows "posts_only io io'"
proof (cases "in_timer io = 0")
  case True
  then obtain io1 t1 where u: "coretimer_update cb filetime (io\<lparr>in_timer := 1\<rparr>) (cp_timer io) = ret (io1, t1)"
    and e: "io' = io1\<lparr>cp_timer := t1, in_timer := 0\<rparr>"
    using t by (auto simp: thread_timer_def bnd_eq_ret)
  have "posts_only (io\<lparr>in_timer := 1\<rparr>) io1"
    using u cb by (auto simp: coretimer_update_def Let_def bnd_eq_ret posts_only_refl dest: update_loop_posts split: if_splits)
  then show ?thesis using e by (simp add: posts_only_def)
qed (use t in \<open>simp add: thread_timer_def posts_only_refl\<close>)

lemma token_packet:
  assumes h: "handler_ok handler" and t: "token k io" and p: "port io = p # ps"
    and s: "thread_packet handler p (io\<lparr>port := ps\<rparr>) = ret (goes_on, io')"
  shows "token k (if goes_on then io' else io'\<lparr>live := live io' - 1\<rparr>)"
proof (cases p)
  case (Msg ctx ev bytes err)
  then have g: "goes_on" "posts_only (io\<lparr>port := ps\<rparr>) io'"
    using s h by (auto simp: thread_packet_def bnd_eq_ret handler_ok_def)
  have "token k (io\<lparr>port := ps\<rparr>) = token k io" using Msg p by (simp add: token_def)
  then show ?thesis using posts_only_token [OF g(2)] t g(1) by simp
next
  case (PortError err)
  then show ?thesis using s by (simp add: thread_packet_def)
next
  case (Quit b)
  then have q: "cp_quited io = 0" "filter is_quit ps = []" "unat b = live io - k" "k < live io"
    "\<forall>p\<in>set ps. is_quit p \<or> is_msg p"
    using t p by (auto simp: token_def split: if_splits)
  then have "b \<noteq> 0" by auto
  then have b: "unat (b - 1) = live io - k - 1" using unat_minus_one [of b] q by auto
  show ?thesis
  proof (cases "b - 1 > 0")
    case True
    then have "unat (b - 1) > 0" by (simp add: word_less_nat_alt)
    then show ?thesis using Quit s True q b by (auto simp: thread_packet_def Let_def token_def)
  next
    case False
    then have "unat (b - 1) = 0" by (simp add: word_less_nat_alt)
    then show ?thesis using Quit s False q b by (auto simp: thread_packet_def Let_def token_def)
  qed
qed

lemma token_step:
  assumes h: "handler_ok handler" "callback_ok cb" and t: "token k io" and s: "winding handler cb io io'"
  shows "token k io'"
  using s
proof (cases rule: winding.cases)
  case (w_timer filetime)
  then show ?thesis using thread_timer_posts [OF h(2)] posts_only_token t by blast
next
  case (w_take p ps goes_on io1)
  then show ?thesis using token_packet [OF h(1) t] by simp
next
  case w_post
  then show ?thesis using posts_only_token t by simp
qed

lemma token_steps:
  "windings handler cb io io' \<Longrightarrow> handler_ok handler \<Longrightarrow> callback_ok cb \<Longrightarrow> token k io \<Longrightarrow> token k io'"
  by (induction rule: windings.induct) (auto intro: token_step)

section \<open>Winding down\<close>

text \<open>\<open>running io\<close>: as many workers as \<^verbatim>\<open>thr\<close> says, at least one, and no token under way.\<close>

definition running :: "core_poller \<Rightarrow> bool" where
  "running io \<longleftrightarrow> cp_thr io > 0 \<and> live io = unat (cp_thr io) \<and> (\<forall>p\<in>set (port io). is_msg p)"

lemma unat_ucast_u8 [simp]: "unat (ucast (x :: u8) :: u32) = unat x"
  by (simp add: unsigned_ucast_eq take_bit_nat_eq_self less_le_trans [OF unsigned_less])

lemma running_stop_token:
  "running io \<Longrightarrow> cp_quited io = 0 \<Longrightarrow> token 0 (corepoller_stop_thread io)"
  by (simp add: running_def token_def corepoller_stop_thread_def word_less_nat_alt msgs_no_quit)

lemma start_thread_running:
  assumes "live io = unat (cp_thr io)" "\<forall>p\<in>set (port io). is_msg p" "cp_thr io \<le> n" "n > 0"
  shows "running (corepoller_start_thread io n) \<and> cp_quited (corepoller_start_thread io n) = 0
     \<and> cp_thr (corepoller_start_thread io n) = n"
  using assms by (auto simp: running_def corepoller_start_thread_def Let_def word_le_nat_alt word_less_nat_alt)

lemma start_thread_token:
  assumes r: "running io" and n: "n > 0" "n < cp_thr io"
  shows "token (unat n) (corepoller_start_thread io n)"
proof -
  have "unat n < unat (cp_thr io)" using n by (simp add: word_less_nat_alt)
  moreover have "unat (ucast (cp_thr io) - ucast n :: u32) = unat (cp_thr io) - unat n"
    using n by (subst unat_sub) (simp_all add: word_le_nat_alt word_less_nat_alt)
  ultimately show ?thesis
    using assms by (auto simp: running_def token_def corepoller_start_thread_def Let_def msgs_no_quit)
qed

text \<open>
  A whole turn of some worker's loop. While the token is under way every turn takes a packet; what is posted meanwhile is behind the
  token, so that either a worker ends or one packet less is ahead of the token.
\<close>

definition worker_turn :: "(nat \<Rightarrow> nat \<Rightarrow> u32 \<Rightarrow> u32 \<Rightarrow> core_poller \<Rightarrow> core_poller prog) \<Rightarrow> core_poller callback \<Rightarrow>
    core_poller \<Rightarrow> core_poller \<Rightarrow> bool" where
  "worker_turn handler cb io io' \<longleftrightarrow> live io > 0 \<and> (\<exists>filetime. thread_turn handler cb filetime io = ret io')"

definition packets_ahead :: "core_poller \<Rightarrow> nat" where
  "packets_ahead io = length (takeWhile (\<lambda>p. \<not> is_quit p) (port io))"

definition wind_rank :: "(core_poller \<times> core_poller) set" where
  "wind_rank = inv_image (less_than <*lex*> less_than) (\<lambda>io. (live io, packets_ahead io))"

lemma wf_wind_rank: "wf wind_rank"
  by (simp add: wind_rank_def wf_lex_prod)

lemma token_quit_in: "token k io \<Longrightarrow> cp_quited io = 0 \<Longrightarrow> \<exists>q\<in>set (port io). is_quit q"
  by (auto simp: token_def filter_eq_Cons_iff)

lemma posts_only_ahead:
  assumes "posts_only io io1" "token k io" "cp_quited io = 0"
  shows "live io1 = live io \<and> packets_ahead io1 = packets_ahead io"
proof -
  obtain q where "q \<in> set (port io)" "is_quit q" using token_quit_in [OF assms(2,3)] by blast
  moreover obtain ms where "port io1 = port io @ ms" "live io1 = live io" using assms(1) by (auto simp: posts_only_def)
  ultimately show ?thesis by (simp add: packets_ahead_def takeWhile_append1)
qed

lemma packet_rank:
  assumes h: "handler_ok handler" and t: "token k io" "cp_quited io = 0" and p: "port io = p # ps"
    and s: "thread_packet handler p (io\<lparr>port := ps\<rparr>) = ret (goes_on, io')"
  shows "(if goes_on then io' else io'\<lparr>live := live io' - 1\<rparr>, io) \<in> wind_rank"
proof (cases p)
  case (Msg ctx ev bytes err)
  then have g: "goes_on" "posts_only (io\<lparr>port := ps\<rparr>) io'"
    using s h by (auto simp: thread_packet_def bnd_eq_ret handler_ok_def)
  have "token k (io\<lparr>port := ps\<rparr>)" using t Msg p by (auto simp: token_def)
  from posts_only_ahead [OF g(2) this] t(2) show ?thesis using g(1) Msg p by (simp add: wind_rank_def packets_ahead_def)
next
  case (PortError err)
  then show ?thesis using s by (simp add: thread_packet_def)
next
  case (Quit b)
  moreover have "live io > 0" using t by (auto simp: token_def)
  ultimately show ?thesis using s by (auto simp: thread_packet_def Let_def wind_rank_def split: if_splits)
qed

lemma turn_rank:
  assumes ok: "handler_ok handler" "callback_ok cb" and t: "token k io" "cp_quited io = 0" and w: "worker_turn handler cb io io'"
  shows "token k io' \<and> (io', io) \<in> wind_rank"
proof -
  from w obtain filetime io1 where io1: "thread_timer cb filetime io = ret io1"
    and rest: "(case port io1 of [] \<Rightarrow> ret io1
      | p # ps \<Rightarrow> bnd (thread_packet handler p (io1\<lparr>port := ps\<rparr>)) (\<lambda>(goes_on, io). ret (if goes_on then io else io\<lparr>live := live io - 1\<rparr>))) = ret io'"
    by (auto simp: worker_turn_def thread_turn_def bnd_eq_ret)
  have po: "posts_only io io1" by (rule thread_timer_posts [OF ok(2) io1])
  then have t1: "token k io1" "cp_quited io1 = 0" using posts_only_token [OF po] t by (simp_all add: posts_only_def)
  then obtain p ps where p: "port io1 = p # ps" using token_quit_in [OF t1] by (cases "port io1") auto
  with rest obtain g io2 where g: "thread_packet handler p (io1\<lparr>port := ps\<rparr>) = ret (g, io2)"
    "io' = (if g then io2 else io2\<lparr>live := live io2 - 1\<rparr>)" by (auto simp: bnd_eq_ret)
  have "(io', io1) \<in> wind_rank" unfolding g(2) by (rule packet_rank [OF ok(1) t1 p g(1)])
  then have "(io', io) \<in> wind_rank" using posts_only_ahead [OF po t] by (simp add: wind_rank_def)
  then show ?thesis using token_packet [OF ok(1) t1(1) p g(1)] g(2) by simp
qed

text \<open>However the turns follow each other, there are only finitely many before the last worker has ended.\<close>

lemma turns_end:
  assumes ok: "handler_ok handler" "callback_ok cb" and t: "token 0 (f 0)"
    and run: "\<forall>n. \<exists>io. posts_only (f n) io \<and> worker_turn handler cb io (f (Suc n))"
  shows False
proof -
  have s: "token 0 (f (Suc n)) \<and> (f (Suc n), f n) \<in> wind_rank" if "token 0 (f n)" for n
  proof -
    obtain io where io: "posts_only (f n) io" "worker_turn handler cb io (f (Suc n))" using run by blast
    have tok: "token 0 io" using posts_only_token [OF io(1)] that by simp
    moreover have "live io > 0" using io(2) by (simp add: worker_turn_def)
    ultimately have q: "cp_quited io = 0" by (auto simp: token_def split: if_splits)
    moreover have "cp_quited (f n) = 0" using q io(1) by (simp add: posts_only_def)
    ultimately show ?thesis using turn_rank [OF ok tok q io(2)] posts_only_ahead [OF io(1) that] by (simp add: wind_rank_def)
  qed
  have "token 0 (f n)" for n by (induction n) (use t s in auto)
  then have "\<forall>n. (f (Suc n), f n) \<in> wind_rank" using s by blast
  then show False using wf_wind_rank unfolding wf_iff_no_infinite_down_chain by blast
qed

text \<open>
  \<open>handler_returns I handler\<close>: the handlers return whenever the timer satisfies \<open>I\<close>, and leave a timer that does. A quiet timer is not
  locked, and the clock can show the tick it has reached: then there is a turn in which the timer has nothing to do.
\<close>

definition handler_returns :: "(core_timer \<Rightarrow> bool) \<Rightarrow> (nat \<Rightarrow> nat \<Rightarrow> u32 \<Rightarrow> u32 \<Rightarrow> core_poller \<Rightarrow> core_poller prog) \<Rightarrow> bool" where
  "handler_returns I handler \<longleftrightarrow> (\<forall>ctx ev bytes err io. I (cp_timer io) \<longrightarrow>
     (\<exists>io'. handler ctx ev bytes err io = ret io' \<and> I (cp_timer io')))"

definition timer_quiet :: "core_timer \<Rightarrow> bool" where
  "timer_quiet t \<longleftrightarrow> lock t = 0 \<and> (\<exists>filetime. gettime filetime = timer_tick t)"

lemma thread_timer_quiet: "timer_quiet (cp_timer io) \<Longrightarrow> \<exists>filetime. thread_timer cb filetime io = ret io"
proof -
  assume "timer_quiet (cp_timer io)"
  then obtain filetime where t: "lock (cp_timer io) = 0" "gettime filetime = timer_tick (cp_timer io)" by (auto simp: timer_quiet_def)
  then have "UNLOCK (cp_timer io\<lparr>lock := 1\<rparr>) = cp_timer io" by (simp add: UNLOCK_def)
  then have "thread_timer cb filetime io = ret io"
    using t by (auto simp: thread_timer_def coretimer_update_def LOCK_def update_diff_def)
  then show ?thesis by blast
qed

lemma turn_possible:
  assumes t: "token k io" "cp_quited io = 0" and I: "\<And>t. I t \<Longrightarrow> timer_quiet t" "handler_returns I handler" "I (cp_timer io)"
  shows "\<exists>io'. worker_turn handler cb io io' \<and> I (cp_timer io')"
proof -
  obtain filetime where f: "thread_timer cb filetime io = ret io" using thread_timer_quiet I(1,3) by blast
  obtain p ps where p: "port io = p # ps" using token_quit_in [OF t] by (cases "port io") auto
  have "\<exists>g io1. thread_packet handler p (io\<lparr>port := ps\<rparr>) = ret (g, io1) \<and> I (cp_timer io1)"
  proof (cases p)
    case (Msg ctx ev bytes err)
    have "I (cp_timer (io\<lparr>port := ps\<rparr>))" using I(3) by simp
    then obtain io1 where "handler ctx ev bytes err (io\<lparr>port := ps\<rparr>) = ret io1" "I (cp_timer io1)"
      using I(2) unfolding handler_returns_def by blast
    then show ?thesis using Msg by (auto simp: thread_packet_def)
  next
    case (PortError err)
    then show ?thesis using t(1) p by (simp add: token_def)
  qed (use I(3) in \<open>auto simp: thread_packet_def Let_def\<close>)
  then obtain g io1 where "thread_packet handler p (io\<lparr>port := ps\<rparr>) = ret (g, io1)" "I (cp_timer io1)" by blast
  moreover have "live io > 0" using t by (auto simp: token_def)
  ultimately show ?thesis
    using f p unfolding worker_turn_def thread_turn_def
    by (intro exI [of _ "if g then io1 else io1\<lparr>live := live io1 - 1\<rparr>"] conjI exI [of _ filetime]) simp_all
qed

lemma token_drains:
  assumes ok: "handler_ok handler" "callback_ok cb" and I: "\<And>t. I t \<Longrightarrow> timer_quiet t" "handler_returns I handler"
  shows "token k io \<Longrightarrow> I (cp_timer io) \<Longrightarrow> \<exists>io'. (worker_turn handler cb)\<^sup>*\<^sup>* io io' \<and> cp_quited io' \<noteq> 0 \<and> live io' = k"
proof (induction io rule: wf_induct_rule [OF wf_wind_rank])
  case (1 io)
  show ?case
  proof (cases "cp_quited io = 0")
    case False
    then show ?thesis using 1(2) by (auto simp: token_def)
  next
    case True
    obtain io1 where io1: "worker_turn handler cb io io1" "I (cp_timer io1)" using turn_possible [OF 1(2) True I 1(3)] by blast
    from turn_rank [OF ok 1(2) True io1(1)] 1(1) io1(2) obtain io' where
      "(worker_turn handler cb)\<^sup>*\<^sup>* io1 io'" "cp_quited io' \<noteq> 0" "live io' = k" by blast
    then show ?thesis using converse_rtranclp_into_rtranclp [of "worker_turn handler cb" io io1] io1(1) by blast
  qed
qed

text \<open>
  C30. Stopping is safe: when \<^verbatim>\<open>corepoller_stop_thread\<close> was called on a poller whose workers
  are all running, then whatever messages are posted and handled meanwhile and however the workers'
  turns interleave, the wait on \<^verbatim>\<open>quited\<close> ends only when no worker is left in its loop and
  no token is left in the port.
\<close>

theorem corepoller_stop_waits:
  assumes "handler_ok handler" "callback_ok cb" "running io" "cp_quited io = 0"
    and "windings handler cb (corepoller_stop_thread io) io'" "stop_returns io'"
  shows "live io' = 0 \<and> filter is_quit (port io') = []"
  using token_steps [OF assms(5,1,2) running_stop_token [OF assms(3,4)]] assms(6)
  by (simp add: token_def stop_returns_def)

definition idle_handler :: "nat \<Rightarrow> nat \<Rightarrow> u32 \<Rightarrow> u32 \<Rightarrow> core_poller \<Rightarrow> core_poller prog" where
  "idle_handler ctx ev bytes err io = ret io"

definition idle_callback :: "core_poller callback" where
  "idle_callback call u s = ret s"

lemma idle_ok: "handler_ok idle_handler" "callback_ok idle_callback"
  by (simp_all add: handler_ok_def idle_handler_def callback_ok_def idle_callback_def posts_only_refl)

definition poller_up :: "u8 \<Rightarrow> core_poller" where
  "poller_up n = corepoller_start_thread
     \<lparr>cp_thr = 0, cp_quited = 1, cp_timer = coretimer_new 0, in_timer = 0, port = [], live = 0\<rparr> n"

lemma poller_up_running: "n > 0 \<Longrightarrow> running (poller_up n) \<and> cp_quited (poller_up n) = 0 \<and> cp_thr (poller_up n) = n"
  unfolding poller_up_def by (rule start_thread_running) simp_all

definition poller_down :: core_poller where
  "poller_down = (corepoller_stop_thread (poller_up 1))\<lparr>port := [], cp_quited := 1, live := 0\<rparr>"

lemma poller_down_reached: "windings idle_handler idle_callback (corepoller_stop_thread (poller_up 1)) poller_down"
proof -
  let ?io = "corepoller_stop_thread (poller_up 1)"
  have p: "live ?io > 0" "port ?io = Quit 1 # []" "live ?io = 1"
    by (simp_all add: poller_up_def corepoller_stop_thread_def corepoller_start_thread_def)
  have "thread_packet idle_handler (Quit 1) (?io\<lparr>port := []\<rparr>) = ret (False, ?io\<lparr>port := [], cp_quited := 1\<rparr>)"
    by (simp add: thread_packet_def)
  from w_take [OF p(1,2) this] p(3) show ?thesis
    by (auto simp: poller_down_def intro: w_step w_refl)
qed

theorem corepoller_stop_waits_witness: "live poller_down = 0 \<and> filter is_quit (port poller_down) = []"
  by (rule corepoller_stop_waits [OF idle_ok _ _ poller_down_reached])
    (simp_all add: poller_up_running stop_returns_def poller_down_def)

text \<open>
  C31. Stopping completes: from every state the wait can be in, the workers cannot take turns for ever, whatever the clock shows, whatever
  the handlers and the timer's callbacks post and whatever else is posted between the turns; and if the handlers return as long as the
  timer satisfies \<open>I\<close>, which keeps it quiet, then the workers can, with these same handlers and by whole turns of their loop, run to a state in
  which \<^verbatim>\<open>quited\<close> is set and all of them have ended. The token is never lost.
\<close>

theorem corepoller_stop_completes:
  assumes "handler_ok handler" "callback_ok cb" "running io" "cp_quited io = 0"
    and "windings handler cb (corepoller_stop_thread io) io'"
    and "\<And>t. I t \<Longrightarrow> timer_quiet t" "handler_returns I handler" "I (cp_timer io')"
  shows "(\<forall>f. f 0 = io' \<longrightarrow> \<not> (\<forall>n. \<exists>io1. posts_only (f n) io1 \<and> worker_turn handler cb io1 (f (Suc n)))) \<and>
    (\<exists>io''. (worker_turn handler cb)\<^sup>*\<^sup>* io' io'' \<and> stop_returns io'' \<and> live io'' = 0)"
proof -
  have t: "token 0 io'" by (rule token_steps [OF assms(5,1,2) running_stop_token [OF assms(3,4)]])
  have "\<not> (\<forall>n. \<exists>io1. posts_only (f n) io1 \<and> worker_turn handler cb io1 (f (Suc n)))" if "f 0 = io'" for f
    using turns_end [OF assms(1,2), of f] t that by blast
  moreover have "\<exists>io''. (worker_turn handler cb)\<^sup>*\<^sup>* io' io'' \<and> stop_returns io'' \<and> live io'' = 0"
    using token_drains [OF assms(1,2,6,7) t assms(8)] by (simp add: stop_returns_def)
  ultimately show ?thesis by blast
qed

text \<open>Handlers that answer every message with another one, which the port takes while the poller is not being stopped.\<close>

definition answer_handler :: "nat \<Rightarrow> nat \<Rightarrow> u32 \<Rightarrow> u32 \<Rightarrow> core_poller \<Rightarrow> core_poller prog" where
  "answer_handler ctx ev bytes err io = ret (snd (corepoller_post 0 io ctx ev bytes err))"

lemma answer_ok: "handler_ok answer_handler" "handler_returns timer_quiet answer_handler"
  by (auto simp: handler_ok_def answer_handler_def corepoller_post_def posts_only_def handler_returns_def)

theorem corepoller_stop_completes_witness:
  "\<exists>io. (worker_turn answer_handler idle_callback)\<^sup>*\<^sup>* (corepoller_stop_thread (snd (corepoller_post 0 (poller_up 3) 1 2 3 0))) io \<and>
    stop_returns io \<and> live io = 0"
proof -
  let ?io = "snd (corepoller_post 0 (poller_up 3) 1 2 3 0)"
  have "running ?io" "cp_quited ?io = 0" using poller_up_running [of 3] by (auto simp: corepoller_post_def running_def)
  moreover have "gettime 0 = timer_tick (coretimer_new 0)" "lock (coretimer_new 0) = 0" by (simp_all add: coretimer_new_def)
  then have "timer_quiet (cp_timer (corepoller_stop_thread ?io))"
    by (auto simp: timer_quiet_def poller_up_def corepoller_start_thread_def corepoller_stop_thread_def corepoller_post_def)
  ultimately show ?thesis
    using corepoller_stop_completes [OF answer_ok(1) idle_ok(2) _ _ w_refl, of ?io timer_quiet] answer_ok(2) by blast
qed

text \<open>
  Shrinking the pool spoils the next stop: once \<^verbatim>\<open>corepoller_start_thread\<close> with a
  smaller number has wound down the surplus workers, their last one has set \<^verbatim>\<open>quited\<close>; a
  later \<^verbatim>\<open>corepoller_stop_thread\<close> then returns at once while the remaining workers are all
  still running.
\<close>

theorem corepoller_shrink_then_stop:
  assumes "handler_ok handler" "callback_ok cb" "running io" "n > 0" "n < cp_thr io"
    and "windings handler cb (corepoller_start_thread io n) io'" "cp_quited io' \<noteq> 0" "cp_thr io' = n"
  shows "stop_returns (corepoller_stop_thread io') \<and> live (corepoller_stop_thread io') = unat n
     \<and> live (corepoller_stop_thread io') > 0"
  using token_steps [OF assms(6,1,2) start_thread_token [OF assms(3,4,5)]] assms(4,7,8)
  by (simp add: token_def stop_returns_def corepoller_stop_thread_def word_less_nat_alt)

definition poller_shrunk :: core_poller where
  "poller_shrunk = (corepoller_start_thread (poller_up 2) 1)\<lparr>port := [], cp_quited := 1, live := 1\<rparr>"

lemma poller_shrunk_reached: "windings idle_handler idle_callback (corepoller_start_thread (poller_up 2) 1) poller_shrunk"
proof -
  let ?io = "corepoller_start_thread (poller_up 2) 1"
  have p: "live ?io > 0" "port ?io = Quit 1 # []" "live ?io = 2"
    by (simp_all add: poller_up_def corepoller_start_thread_def)
  have "thread_packet idle_handler (Quit 1) (?io\<lparr>port := []\<rparr>) = ret (False, ?io\<lparr>port := [], cp_quited := 1\<rparr>)"
    by (simp add: thread_packet_def)
  from w_take [OF p(1,2) this] p(3) show ?thesis
    by (auto simp: poller_shrunk_def intro: w_step w_refl)
qed

theorem corepoller_shrink_then_stop_witness:
  "stop_returns (corepoller_stop_thread poller_shrunk) \<and> live (corepoller_stop_thread poller_shrunk) = unat (1 :: u8)
     \<and> live (corepoller_stop_thread poller_shrunk) > 0"
  by (rule corepoller_shrink_then_stop [OF idle_ok _ _ _ poller_shrunk_reached])
    (simp_all add: poller_up_running, simp_all add: poller_shrunk_def corepoller_start_thread_def poller_up_def)

end
