(* ===== verification/TimerObject.thy ===== *)
theory TimerObject
  imports TimerProps
begin

text \<open>
  The timer class of \<^verbatim>\<open>net/timer.cpp\<close> with the spin lock of \<^verbatim>\<open>net/lock.h\<close> it inherits, and the two operations
  of \<^verbatim>\<open>net/poller.cpp\<close> that call it under that lock. The class has the fields of the C structure, so the
  state is the record of the C timer. It differs in three ways: \<^verbatim>\<open>add\<close> and \<^verbatim>\<open>del\<close> leave locking to the
  caller, the free list is bounded by a tenth of the nodes in use, and the execution loop holds the lock
  only around the unlinking of each node. The operations are shown to meet the contract of the C timer.
\<close>

section \<open>The spin lock\<close>

definition spin_lock :: "core_timer \<Rightarrow> core_timer prog" where
  "spin_lock t = (if lock t = 0 then ret (t\<lparr>lock := 1\<rparr>) else diverge)"

definition spin_unlock :: "core_timer \<Rightarrow> core_timer" where
  "spin_unlock t = t\<lparr>lock := 0\<rparr>"

section \<open>Lists and buckets\<close>

text \<open>The link operations repeat those of the C timer write by write; the bucket is a remainder instead of a mask.\<close>

definition cpp_HASH :: "u32 \<Rightarrow> nat" where
  "cpp_HASH ident = unat (ident mod 1024)"

definition cpp_list_add :: "tmem \<Rightarrow> tptr \<Rightarrow> tptr \<Rightarrow> tmem prog" where
  "cpp_list_add m list r =
     bnd (tload m r) (\<lambda>rn.
     bnd (assert_c (list_prev rn = Null)) (\<lambda>_.
     bnd (assert_c (list_next rn = Null)) (\<lambda>_.
     bnd (tload m list) (\<lambda>ln.
     bnd (tmod m r (list_prev_update (\<lambda>_. list_prev ln))) (\<lambda>m.
     bnd (tload m r) (\<lambda>rn.
     bnd (tmod m (list_prev rn) (list_next_update (\<lambda>_. r))) (\<lambda>m.
     bnd (tmod m r (list_next_update (\<lambda>_. list))) (\<lambda>m.
     bnd (tload m r) (\<lambda>rn.
     tmod m (list_next rn) (list_prev_update (\<lambda>_. r)))))))))))"

definition cpp_delfrom_list :: "tmem \<Rightarrow> tptr \<Rightarrow> tmem prog" where
  "cpp_delfrom_list m r =
     bnd (tload m r) (\<lambda>rn.
     bnd (assert_c (hash_prev rn \<noteq> Null)) (\<lambda>_.
     bnd (assert_c (hash_next rn \<noteq> Null)) (\<lambda>_.
     bnd (tmod m (list_prev rn) (list_next_update (\<lambda>_. list_next rn))) (\<lambda>m.
     bnd (tload m r) (\<lambda>rn.
     bnd (tmod m (list_next rn) (list_prev_update (\<lambda>_. list_prev rn))) (\<lambda>m.
     bnd (tmod m r (list_prev_update (\<lambda>_. Null))) (\<lambda>m.
     tmod m r (list_next_update (\<lambda>_. Null)))))))))"

definition cpp_addto_hash :: "tmem \<Rightarrow> tptr \<Rightarrow> tmem prog" where
  "cpp_addto_hash m r =
     bnd (tload m r) (\<lambda>rn.
     bnd (assert_c (hash_prev rn = Null)) (\<lambda>_.
     bnd (assert_c (hash_next rn = Null)) (\<lambda>_.
     let h = HHead (cpp_HASH (tn_id rn)) in
     bnd (tload m h) (\<lambda>hn.
     bnd (tmod m r (hash_next_update (\<lambda>_. hash_next hn))) (\<lambda>m.
     bnd (tload m r) (\<lambda>rn.
     bnd (tmod m (hash_next rn) (hash_prev_update (\<lambda>_. r))) (\<lambda>m.
     bnd (tmod m r (hash_prev_update (\<lambda>_. h))) (\<lambda>m.
     bnd (tload m r) (\<lambda>rn.
     tmod m (hash_prev rn) (hash_next_update (\<lambda>_. r)))))))))))"

definition cpp_delfrom_hash :: "tmem \<Rightarrow> tptr \<Rightarrow> tmem prog" where
  "cpp_delfrom_hash m r =
     bnd (tload m r) (\<lambda>rn.
     bnd (assert_c (hash_prev rn \<noteq> Null)) (\<lambda>_.
     bnd (assert_c (hash_next rn \<noteq> Null)) (\<lambda>_.
     bnd (tmod m (hash_prev rn) (hash_next_update (\<lambda>_. hash_next rn))) (\<lambda>m.
     bnd (tload m r) (\<lambda>rn.
     bnd (tmod m (hash_next rn) (hash_prev_update (\<lambda>_. hash_prev rn))) (\<lambda>m.
     bnd (tmod m r (hash_prev_update (\<lambda>_. Null))) (\<lambda>m.
     tmod m r (hash_next_update (\<lambda>_. Null)))))))))"

definition cpp_list_clear :: "tmem \<Rightarrow> tptr \<Rightarrow> (tptr \<times> tmem) prog" where
  "cpp_list_clear m list =
     bnd (tload m list) (\<lambda>ln.
     let node = list_next ln in
     if node = list then ret (Null, m)
     else
       bnd (tmod m node (list_prev_update (\<lambda>_. Null))) (\<lambda>m.
       bnd (tload m list) (\<lambda>ln.
       bnd (tmod m (list_prev ln) (list_next_update (\<lambda>_. Null))) (\<lambda>m.
       bnd (tmod m list (list_prev_update (\<lambda>_. list))) (\<lambda>m.
       bnd (tmod m list (list_next_update (\<lambda>_. list))) (\<lambda>m.
       ret (node, m)))))))"

section \<open>Construction, nodes and the wheel\<close>

definition cpp_gettime :: "u64 \<Rightarrow> u64" where
  "cpp_gettime filetime = filetime div 10 div 1000 div 10"

text \<open>
  The \<^verbatim>\<open>memset\<close> zeroes the lock and the counters; the three loops link the sentinels as the C version
  does, again only the rows 0 to 2 of the four rows of \<^verbatim>\<open>n\<close>.
\<close>

definition cpp_timer :: "u64 \<Rightarrow> core_timer" where
  "cpp_timer filetime = \<lparr>mem = (\<lambda>p. case p of
       NHead i j \<Rightarrow> if i < 3 \<and> j < 64 then Some (zero_node\<lparr>list_next := p, list_prev := p\<rparr>)
         else if i = 3 \<and> j < 64 then Some zero_node else None
     | THead j \<Rightarrow> if j < 256 then Some (zero_node\<lparr>list_next := p, list_prev := p\<rparr>) else None
     | HHead j \<Rightarrow> if j < 1024 then Some (zero_node\<lparr>hash_next := p, hash_prev := p\<rparr>) else None
     | _ \<Rightarrow> None),
     brk = 0, index = 0, timer_tick = cpp_gettime filetime, time = 0,
     freenode = Null, free_cnt = 0, use_cnt = 0, lock = 0\<rparr>"

definition cpp_addto_list :: "core_timer \<Rightarrow> tptr \<Rightarrow> core_timer prog" where
  "cpp_addto_list t r =
     bnd (tload (mem t) r) (\<lambda>rn.
     let expire = tn_expire rn; current_time = time t in
     bnd (assert_c (\<not> expire < current_time)) (\<lambda>_.
     bnd (if (expire OR 255) = (current_time OR 255) then
            cpp_list_add (mem t) (THead (unat (expire AND 255))) r
          else
            let i = addto_level expire current_time 0 (push_bit 6 256) in
            cpp_list_add (mem t) (NHead i (unat (drop_bit (8 + i * 6) expire AND 63))) r) (\<lambda>m.
     ret (t\<lparr>mem := m\<rparr>))))"

definition cpp_alloc :: "core_timer \<Rightarrow> (tptr \<times> core_timer) prog" where
  "cpp_alloc t =
     (let r = freenode t in
     bnd (if r \<noteq> Null then
            bnd (tload (mem t) r) (\<lambda>n.
            ret (r, t\<lparr>freenode := list_next n, free_cnt := free_cnt t - 1\<rparr>))
          else ret (Cell (brk t), t\<lparr>mem := (mem t)(Cell (brk t) \<mapsto> zero_node), brk := brk t + 1\<rparr>)) (\<lambda>(r, t).
     ret (r, t\<lparr>use_cnt := use_cnt t + 1\<rparr>)))"

definition cpp_add :: "core_timer \<Rightarrow> nat \<Rightarrow> nat \<Rightarrow> u32 \<Rightarrow> (u32 \<times> core_timer) prog" where
  "cpp_add t call ctx wait =
     bnd (cpp_alloc t) (\<lambda>(r, t).
     let t = t\<lparr>index := index t + 1\<rparr>;
         wait = wait div 10;
         wait = (if wait \<noteq> 0 then wait else 1) in
     bnd (tmod (mem t) r (\<lambda>_. \<lparr>tn_u = ctx, tn_call = call, list_prev = Null, list_next = Null,
            hash_prev = Null, hash_next = Null, tn_expire = time t + wait, tn_id = index t\<rparr>)) (\<lambda>m.
     bnd (cpp_addto_list (t\<lparr>mem := m\<rparr>) r) (\<lambda>t.
     bnd (cpp_addto_hash (mem t) r) (\<lambda>m.
     bnd (tload m r) (\<lambda>rn.
     ret (tn_id rn, t\<lparr>mem := m\<rparr>))))))"

definition cpp_dealloc :: "core_timer \<Rightarrow> tptr \<Rightarrow> core_timer prog" where
  "cpp_dealloc t node =
     (let t = t\<lparr>use_cnt := use_cnt t - 1\<rparr>;
          us = use_cnt t div 10;
          us = (if us \<noteq> 0 then us else 1) in
     if free_cnt t \<ge> us then ret (free_cell t node)
     else
       bnd (tmod (mem t) node (list_next_update (\<lambda>_. freenode t))) (\<lambda>m.
       ret (t\<lparr>mem := m, freenode := node, free_cnt := free_cnt t + 1\<rparr>)))"

partial_function (option) cpp_del_find :: "tmem \<Rightarrow> tptr \<Rightarrow> u32 \<Rightarrow> tptr \<Rightarrow> tptr prog" where
  "cpp_del_find m head ident r =
     (if r = head then ret Null
      else bnd (tload m r) (\<lambda>rn.
        if tn_id rn = ident then ret r else cpp_del_find m head ident (hash_next rn)))"

definition cpp_del :: "core_timer \<Rightarrow> u32 \<Rightarrow> core_timer prog" where
  "cpp_del t ident =
     (let head = HHead (cpp_HASH ident) in
     bnd (tload (mem t) head) (\<lambda>hn.
     bnd (cpp_del_find (mem t) head ident (hash_next hn)) (\<lambda>r.
     if r \<noteq> Null then
       bnd (cpp_delfrom_list (mem t) r) (\<lambda>m.
       bnd (cpp_delfrom_hash m r) (\<lambda>m.
       cpp_dealloc (t\<lparr>mem := m\<rparr>) r))
     else ret t)))"

section \<open>Ticks\<close>

partial_function (option) cpp_execute_loop ::
  "'w callback \<Rightarrow> tptr \<Rightarrow> 'w \<Rightarrow> core_timer \<Rightarrow> ('w \<times> core_timer) prog" where
  "cpp_execute_loop cb r w t =
     (if r = Null then ret (w, t)
      else
        bnd (tload (mem t) r) (\<lambda>rn.
        bnd (spin_lock t) (\<lambda>t.
        bnd (cpp_delfrom_hash (mem t) r) (\<lambda>m.
        bnd (cb (tn_call rn) (tn_u rn) (w, spin_unlock (t\<lparr>mem := m\<rparr>))) (\<lambda>(w, t).
        bnd (cpp_dealloc t r) (\<lambda>t.
        cpp_execute_loop cb (list_next rn) w t))))))"

definition cpp_execute :: "'w callback \<Rightarrow> 'w \<Rightarrow> core_timer \<Rightarrow> ('w \<times> core_timer) prog" where
  "cpp_execute cb w t =
     bnd (spin_lock t) (\<lambda>t.
     let idx = unat (time t AND 255) in
     bnd (cpp_list_clear (mem t) (THead idx)) (\<lambda>(r, m).
     cpp_execute_loop cb r w (spin_unlock (t\<lparr>mem := m\<rparr>))))"

partial_function (option) cpp_move_loop :: "core_timer \<Rightarrow> tptr \<Rightarrow> core_timer prog" where
  "cpp_move_loop t r =
     (if r = Null then ret t
      else
        bnd (tload (mem t) r) (\<lambda>rn.
        bnd (tmod (mem t) r (list_prev_update (\<lambda>_. Null))) (\<lambda>m.
        bnd (tmod m r (list_next_update (\<lambda>_. Null))) (\<lambda>m.
        bnd (cpp_addto_list (t\<lparr>mem := m\<rparr>) r) (\<lambda>t.
        cpp_move_loop t (list_next rn))))))"

definition cpp_list_move :: "core_timer \<Rightarrow> nat \<Rightarrow> nat \<Rightarrow> core_timer prog" where
  "cpp_list_move t level idx =
     bnd (cpp_list_clear (mem t) (NHead level idx)) (\<lambda>(r, m).
     cpp_move_loop (t\<lparr>mem := m\<rparr>) r)"

partial_function (option) cpp_shift_loop :: "core_timer \<Rightarrow> u32 \<Rightarrow> u32 \<Rightarrow> u32 \<Rightarrow> nat \<Rightarrow> core_timer prog" where
  "cpp_shift_loop tm ct msk t i =
     (if ct AND (msk - 1) = 0 then
        let idx = unat (t AND 63) in
        if idx \<noteq> 0 then cpp_list_move tm i idx
        else cpp_shift_loop tm ct (push_bit 6 msk) (drop_bit 6 t) (i + 1)
      else ret tm)"

definition cpp_shift :: "core_timer \<Rightarrow> core_timer prog" where
  "cpp_shift t =
     bnd (spin_lock t) (\<lambda>t.
     let t = t\<lparr>time := time t + 1\<rparr>; ct = time t in
     bnd (if ct = 0 then cpp_list_move t 3 0
          else cpp_shift_loop t ct 256 (drop_bit 8 ct) 0) (\<lambda>t.
     ret (spin_unlock t)))"

definition cpp_tick :: "'w callback \<Rightarrow> 'w \<Rightarrow> core_timer \<Rightarrow> ('w \<times> core_timer) prog" where
  "cpp_tick cb w t =
     bnd (cpp_execute cb w t) (\<lambda>(w, t).
     bnd (cpp_shift t) (\<lambda>t.
     cpp_execute cb w t))"

primrec cpp_ticks :: "'w callback \<Rightarrow> nat \<Rightarrow> 'w \<Rightarrow> core_timer \<Rightarrow> ('w \<times> core_timer) prog" where
  "cpp_ticks cb 0 w t = ret (w, t)"
| "cpp_ticks cb (Suc n) w t = bnd (cpp_tick cb w t) (\<lambda>(w, t). cpp_ticks cb n w t)"

definition cpp_update :: "'w callback \<Rightarrow> u64 \<Rightarrow> 'w \<Rightarrow> core_timer \<Rightarrow> ('w \<times> core_timer) prog" where
  "cpp_update cb filetime w t =
     (let now_tick = cpp_gettime filetime in
     bnd (spin_lock t) (\<lambda>t.
     let diff = (if now_tick < timer_tick t then ucast (- 1 - timer_tick t + now_tick)
                 else if now_tick \<noteq> timer_tick t then ucast (now_tick - timer_tick t)
                 else 0 :: u32) in
     if diff > 0 then
       cpp_ticks cb (unat diff) w (spin_unlock (t\<lparr>timer_tick := now_tick\<rparr>))
     else ret (w, spin_unlock t)))"

section \<open>The poller's timer operations\<close>

text \<open>The guard object takes the lock when it is made and gives it back when the function returns.\<close>

definition start_timer :: "core_timer \<Rightarrow> nat \<Rightarrow> nat \<Rightarrow> u32 \<Rightarrow> (u32 \<times> core_timer) prog" where
  "start_timer tm call u wait =
     bnd (spin_lock tm) (\<lambda>tm.
     bnd (cpp_add tm call u wait) (\<lambda>(idx, tm).
     ret (idx, spin_unlock tm)))"

definition stop_timer :: "core_timer \<Rightarrow> u32 \<Rightarrow> core_timer prog" where
  "stop_timer tm idx =
     bnd (spin_lock tm) (\<lambda>tm.
     bnd (cpp_del tm idx) (\<lambda>tm.
     ret (spin_unlock tm)))"

section \<open>Agreement with the C timer\<close>

lemma prog_eqI: "(\<And>y. m = Some y \<Longrightarrow> n = Some y) \<Longrightarrow> (\<And>y. n = Some y \<Longrightarrow> m = Some y) \<Longrightarrow> m = n"
  by (cases m; cases n) auto

lemma bnd_Some_mono: "bnd m f = Some y \<Longrightarrow> (\<And>x. f x = Some y \<Longrightarrow> g x = Some y) \<Longrightarrow> bnd m g = Some y"
  by (auto simp: bnd_def split: option.splits outcome.splits)

lemma spin_lock_eq: "spin_lock = LOCK" "spin_unlock = UNLOCK"
  by (intro ext, simp add: spin_lock_def LOCK_def spin_unlock_def UNLOCK_def)+

lemma cpp_HASH_eq: "cpp_HASH = HASH"
  by (intro ext) (simp add: cpp_HASH_def HASH_def unat_mod and_pow2_minus_1 [where 'a = 32, of 10, simplified])

lemma cpp_links_eq:
  "cpp_list_add = list_add" "cpp_delfrom_list = delfrom_list" "cpp_addto_hash = addto_hash"
  "cpp_delfrom_hash = delfrom_hash" "cpp_list_clear = list_clear"
  by (intro ext, simp add: cpp_list_add_def list_add_def cpp_delfrom_list_def delfrom_list_def cpp_addto_hash_def
      addto_hash_def cpp_delfrom_hash_def delfrom_hash_def cpp_list_clear_def list_clear_def cpp_HASH_eq)+

lemma cpp_addto_list_eq: "cpp_addto_list = addto_list"
  unfolding cpp_addto_list_def addto_list_def cpp_links_eq by (intro ext refl)

text \<open>The loops have the same bodies, so each returns what the other returns.\<close>

lemma cpp_del_find_eq: "cpp_del_find = hash_find"
proof (intro ext, rule prog_eqI)
  show "hash_find m h i r = Some y" if "cpp_del_find m h i r = Some y" for m h i r y
    using that by (rule cpp_del_find.raw_induct [rotated])
      (subst hash_find.simps, auto split: if_splits elim!: bnd_Some_mono)
  show "cpp_del_find m h i r = Some y" if "hash_find m h i r = Some y" for m h i r y
    using that by (rule hash_find.raw_induct [rotated])
      (subst cpp_del_find.simps, auto split: if_splits elim!: bnd_Some_mono)
qed

lemma cpp_move_loop_eq: "cpp_move_loop = move_loop"
proof (intro ext, rule prog_eqI)
  show "move_loop t r = Some y" if "cpp_move_loop t r = Some y" for t r y
    using that by (rule cpp_move_loop.raw_induct [rotated])
      (subst move_loop.simps, auto simp: cpp_addto_list_eq split: if_splits elim!: bnd_Some_mono)
  show "cpp_move_loop t r = Some y" if "move_loop t r = Some y" for t r y
    using that by (rule move_loop.raw_induct [rotated])
      (subst cpp_move_loop.simps, auto simp: cpp_addto_list_eq split: if_splits elim!: bnd_Some_mono)
qed

lemma cpp_list_move_eq: "cpp_list_move = list_move"
  unfolding cpp_list_move_def list_move_def cpp_links_eq cpp_move_loop_eq by (intro ext refl)

lemma cpp_shift_loop_eq: "cpp_shift_loop = shift_loop"
proof (intro ext, rule prog_eqI)
  show "shift_loop tm ct k t i = Some y" if "cpp_shift_loop tm ct k t i = Some y" for tm ct k t i y
    using that by (rule cpp_shift_loop.raw_induct [rotated])
      (subst shift_loop.simps, auto simp: cpp_list_move_eq Let_def split: if_splits)
  show "cpp_shift_loop tm ct k t i = Some y" if "shift_loop tm ct k t i = Some y" for tm ct k t i y
    using that by (rule shift_loop.raw_induct [rotated])
      (subst cpp_shift_loop.simps, auto simp: cpp_list_move_eq Let_def split: if_splits)
qed

lemma cpp_shift_eq: "cpp_shift = timer_shift"
  unfolding cpp_shift_def timer_shift_def spin_lock_eq cpp_list_move_eq cpp_shift_loop_eq by (intro ext refl)

lemma cpp_timer_eq: "cpp_timer ft = coretimer_new ft"
proof -
  have "mem (cpp_timer ft) p = new_mem p" for p by (cases p) (simp_all add: cpp_timer_def)
  then have "mem (cpp_timer ft) = new_mem" by blast
  then show ?thesis by (simp add: cpp_timer_def coretimer_new_def cpp_gettime_def gettime_def TIME_SLOT_LEN_def)
qed

text \<open>Taking the lock once around the whole addition or twice inside it makes no difference.\<close>

lemma start_timer_eq: "lock t = 0 \<Longrightarrow> start_timer t c u wait = coretimer_add t c u wait"
  by (cases t) (simp add: start_timer_def cpp_add_def coretimer_add_def cpp_alloc_def timernode_alloc_def
      spin_lock_eq LOCK_def UNLOCK_def cpp_links_eq cpp_addto_list_eq Let_def bnd_assoc split_beta)

text \<open>Callbacks of the class add timers through the poller; with the lock free that is the same again.\<close>

primrec start_all :: "request list \<Rightarrow> core_timer \<Rightarrow> core_timer prog" where
  "start_all [] t = ret t"
| "start_all (r # rs) t = (case r of (c, u, wait) \<Rightarrow>
     bnd (start_timer t c u wait) (\<lambda>(_, t'). start_all rs t'))"

definition cpp_script_cb :: "'w script \<Rightarrow> 'w callback" where
  "cpp_script_cb s c u = (\<lambda>(w, t). case s c u w of (w', rs) \<Rightarrow> bnd (start_all rs t) (\<lambda>t'. ret (w', t')))"

lemma bnd_cong: "(\<And>x. m = ret x \<Longrightarrow> f x = g x) \<Longrightarrow> bnd m f = bnd m g"
  by (auto simp: bnd_def ret_def split: option.splits outcome.splits)

lemma coretimer_add_unlocks: "coretimer_add t c u wait = ret (i, t') \<Longrightarrow> lock t' = 0"
  by (auto simp: coretimer_add_def Let_def bnd_eq_ret UNLOCK_def split_beta)

lemma start_all_eq: "lock t = 0 \<Longrightarrow> start_all rs t = add_all rs t"
  by (induction rs arbitrary: t)
    (auto simp: start_timer_eq coretimer_add_unlocks split: prod.splits intro!: bnd_cong)

lemma cpp_script_cb_eq: "lock t = 0 \<Longrightarrow> cpp_script_cb s c u (w, t) = script_cb s c u (w, t)"
  by (simp add: cpp_script_cb_def script_cb_def start_all_eq)

definition cpp_limit :: "core_timer \<Rightarrow> u32" where
  "cpp_limit t = (let us = (use_cnt t - 1) div 10 in if us \<noteq> 0 then us else 1)"

lemma cpp_dealloc_eq: "r \<in> dom (mem t) \<Longrightarrow> r \<noteq> Null \<Longrightarrow> cpp_dealloc t r = ret (release_node t r (cpp_limit t))"
  by (simp add: cpp_dealloc_def release_node_def cpp_limit_def Let_def free_cell_def)

section \<open>The class meets the contract\<close>

lemma cpp_execute_loop_running:
  assumes "running t C D {}" "lock t = 0" "nchain (mem t) r D"
    "cal_fire s (map (entry (mem t)) D) w C = Some (w', C')"
  shows "\<exists>t'. cpp_execute_loop (cpp_script_cb s) r w t = ret (w', t') \<and> running t' C' [] {} \<and> lock t' = 0 \<and>
    timer_tick t' = timer_tick t"
  using assms
proof (induction D arbitrary: t C r w)
  case Nil
  then show ?case by (subst cpp_execute_loop.simps) auto
next
  case (Cons x D)
  obtain m w1 t1 C1 where step: "r = x" "x \<noteq> Null" "x \<in> dom (mem t)" "x \<in> dom (mem t1)" "delfrom_hash (mem t) x = ret m"
    "script_cb s (fld tn_call (mem t) x) (fld tn_u (mem t) x) (w, t\<lparr>mem := m, lock := 0\<rparr>) = ret (w1, t1)"
    "lock t1 = 0" "timer_tick t1 = timer_tick t"
    and after: "\<And>us. running (release_node t1 x us) C1 D {}"
    "\<And>us. nchain (mem (release_node t1 x us)) (fld list_next (mem t) x) D"
    "\<And>us. cal_fire s (map (entry (mem (release_node t1 x us))) D) w1 C1 = Some (w', C')"
    using fire_step [OF Cons.prems(1,3,4)] by blast
  let ?t2 = "release_node t1 x (cpp_limit t1)" and ?n = "fld list_next (mem t) x"
  have tick: "timer_tick ?t2 = timer_tick t" using release_node_same(1) step(8) by (simp add: same_clock_def)
  have "cpp_execute_loop (cpp_script_cb s) r w t = cpp_execute_loop (cpp_script_cb s) ?n w1 ?t2"
    using step Cons.prems(2) cpp_dealloc_eq [OF step(4,2)]
    by (subst cpp_execute_loop.simps)
      (simp add: tload_dom fld_folds spin_lock_eq UNLOCK_def LOCK_def cpp_links_eq cpp_script_cb_eq)
  then show ?case using Cons.IH [of ?t2 C1 ?n w1] after [of "cpp_limit t1"] tick step(7) by auto
qed

lemma cpp_execute_refines:
  assumes sh: "shifted_in t C" and lock: "lock t = 0" and fire: "cal_fire s (due C) w C = Some (w', C')"
  shows "\<exists>t'. cpp_execute (cpp_script_cb s) w t = ret (w', t') \<and> running t' C' [] {} \<and> lock t' = 0"
proof -
  obtain r m D where D: "list_clear (mem t) (THead (unat (time t AND 255))) = ret (r, m)"
    "running (t\<lparr>mem := m\<rparr>) C D {}" "nchain m r D" "map (entry m) D = due C"
    using execute_clear [OF sh] by auto
  then have "running (t\<lparr>mem := m, lock := 0\<rparr>) C D {}" using running_lock [where t = "t\<lparr>mem := m\<rparr>" and l = 0] by simp
  from cpp_execute_loop_running [OF this, of r s w w' C'] show ?thesis
    using D fire lock by (auto simp: cpp_execute_def spin_lock_eq LOCK_def UNLOCK_def Let_def cpp_links_eq)
qed

lemma cpp_tick_refines:
  assumes run: "running t C [] {}" and lock: "lock t = 0" and tick: "cal_tick s w C = Some (w', C')"
  shows "\<exists>t'. cpp_tick (cpp_script_cb s) w t = ret (w', t') \<and> running t' C' [] {} \<and> lock t' = 0"
proof -
  have C1: "cal_now C + 1 < 2 ^ 26" "cal_fire s (due (C\<lparr>cal_now := cal_now C + 1\<rparr>)) w (C\<lparr>cal_now := cal_now C + 1\<rparr>) = Some (w', C')"
    using tick by (auto simp: cal_tick_def Let_def split: if_splits)
  have "due C = []" using running_pending [OF run] by (fastforce simp: due_def filter_empty_conv)
  then obtain t1 where t1: "cpp_execute (cpp_script_cb s) w t = ret (w, t1)" "running t1 C [] {}" "lock t1 = 0"
    using cpp_execute_refines [OF running_shifted_in [OF run] lock, of s w w C] by auto
  obtain t2 where t2: "timer_shift t1 = ret t2" "shifted_in t2 (C\<lparr>cal_now := cal_now C + 1\<rparr>)" "lock t2 = 0"
    using shift_refines [OF t1(2,3) C1(1)] by blast
  show ?thesis
    using cpp_execute_refines [OF t2(2,3) C1(2)] t1(1) t2(1) by (auto simp: cpp_tick_def cpp_shift_eq)
qed

lemma cpp_del_running:
  assumes run: "running t C [] {}"
  shows "\<exists>t'. cpp_del t ident = ret t' \<and> running t' (cal_del C ident) [] {}"
proof -
  obtain W B F where inv: "tinv t W B F [] {}" and ah: "ahead t W" and sim: "cal_sim t C W []"
    using run unfolding running_def by blast
  note I = tinvD [OF inv]
  have hd: "HHead (HASH ident) \<in> dom (mem t)" using hash_nodes_dom [OF I(2)] HASH_head by blast
  show ?thesis
  proof (cases "\<exists>r\<in>members wheel_heads W. fld tn_id (mem t) r = ident")
    case False
    then have "hash_find (mem t) (HHead (HASH ident)) ident (fld hash_next (mem t) (HHead (HASH ident))) = ret Null"
      using hash_lookup [OF I(2) refl, of ident Null] I(3) by auto
    then have "cpp_del t ident = ret t"
      using hd by (simp add: cpp_del_def cpp_HASH_eq cpp_del_find_eq Let_def tload_dom fld_folds)
    then show ?thesis using missing_running [OF inv ah sim] False by blast
  next
    case True
    then obtain r where r: "r \<in> members wheel_heads W" "fld tn_id (mem t) r = ident" by blast
    obtain m1 m2 where m: "delfrom_list (mem t) r = ret m1" "delfrom_hash m1 r = ret m2" "r \<in> dom m2" "r \<noteq> Null"
      and after: "\<And>us. \<exists>W' B' F'. tinv (release_node (t\<lparr>mem := m2\<rparr>) r us) W' B' F' [] {} \<and>
        members wheel_heads W' = members wheel_heads W - {r} \<and> (\<forall>h\<in>wheel_heads. W' h = filter (\<lambda>p. p \<noteq> r) (W h)) \<and>
        (\<forall>q. q \<noteq> r \<longrightarrow> entry (mem (release_node (t\<lparr>mem := m2\<rparr>) r us)) q = entry (mem t) q)"
      using unlink_release_ok [OF inv r(1)] by blast
    let ?t = "t\<lparr>mem := m2\<rparr>"
    have "cpp_del t ident = ret (release_node ?t r (cpp_limit ?t))"
      using del_find [OF inv r] m cpp_dealloc_eq [of r ?t]
      by (simp add: cpp_del_def cpp_HASH_eq cpp_del_find_eq cpp_links_eq Let_def tload_dom fld_folds)
    moreover have "same_clock t (release_node ?t r (cpp_limit ?t))"
      using release_node_same(1) [of ?t r "cpp_limit ?t"] by (simp add: same_clock_def)
    ultimately show ?thesis using unlinked_running [OF inv ah sim r] after [of "cpp_limit ?t"] by metis
  qed
qed

lemma stop_timer_running:
  assumes "timer_ok t C"
  shows "\<exists>t'. stop_timer t i = ret t' \<and> timer_ok t' (cal_del C i)"
  using cpp_del_running [of "t\<lparr>lock := 1\<rparr>" C i] assms
  by (auto simp: timer_ok_def stop_timer_def spin_lock_eq LOCK_def UNLOCK_def)

interpretation class_timer: timer_service timer_ok start_timer stop_timer "\<lambda>s. cpp_tick (cpp_script_cb s)"
proof unfold_locales
  show "\<exists>t'. start_timer t c u wait = ret (cal_index C', t') \<and> timer_ok t' C'"
    if "timer_ok t C" "cal_add C c u wait = Some C'" for t C c u wait C'
    using wheel_timer.add_law [OF that] that(1) by (simp add: timer_ok_def start_timer_eq)
  show "\<exists>t'. stop_timer t i = ret t' \<and> timer_ok t' (cal_del C i)" if "timer_ok t C" for t C i
    by (rule stop_timer_running [OF that])
  show "\<exists>t'. cpp_tick (cpp_script_cb s) w t = ret (w', t') \<and> timer_ok t' C'"
    if "timer_ok t C" "cal_tick s w C = Some (w', C')" for t C s w w' C'
    using cpp_tick_refines [of t C s w w' C'] that by (auto simp: timer_ok_def)
qed

lemma cpp_ticks_run_ops:
  "cpp_ticks cb n w t = run_ops start_timer stop_timer (cpp_tick cb) (replicate n TTick) w t"
  by (induction n arbitrary: w t) simp_all

lemma cpp_update_fires:
  assumes ok: "timer_ok t C" and clock: "timer_tick t \<le> cpp_gettime filetime" "unat (cpp_gettime filetime - timer_tick t) = n"
    and n: "cal_now C + n < 2 ^ 26"
  shows "\<exists>t'. cpp_update (cpp_script_cb log_script) filetime w t = ret (w @ calls (fired C n), t') \<and>
    timer_ok t' (cal_after C n)"
proof -
  let ?d = "update_diff (timer_tick t) (cpp_gettime filetime)"
  have diff: "unat ?d = n" using update_diff_ahead [OF clock] n by simp
  have lock: "lock t = 0" using ok by (simp add: timer_ok_def)
  have upd: "cpp_update (cpp_script_cb log_script) filetime w t =
      (if ?d > 0 then cpp_ticks (cpp_script_cb log_script) n w (t\<lparr>timer_tick := cpp_gettime filetime, lock := 0\<rparr>)
       else ret (w, t\<lparr>lock := 0\<rparr>))"
    using lock unfolding diff [symmetric]
    by (auto simp: cpp_update_def update_diff_def spin_lock_eq LOCK_def UNLOCK_def Let_def)
  have fires: "\<exists>t'. cpp_ticks (cpp_script_cb log_script) n w t0 = ret (w @ calls (fired C n), t') \<and> timer_ok t' (cal_after C n)"
    if "timer_ok t0 C" for t0
    unfolding cpp_ticks_run_ops
    by (rule class_timer.run_refines [OF that cal_run_ticks]) (use n timer_ok_pending [OF ok] in auto)
  show ?thesis
  proof (cases "n = 0")
    case True
    then have "\<not> ?d > 0" using diff by (simp add: unat_eq_zero)
    moreover have "t\<lparr>lock := 0\<rparr> = t" using lock by simp
    ultimately show ?thesis using fires [OF ok] upd True by simp
  next
    case False
    then have "?d > 0" using diff by (simp add: word_less_nat_alt)
    moreover have "timer_ok (t\<lparr>timer_tick := cpp_gettime filetime, lock := 0\<rparr>) C"
      using ok by (simp only: timer_ok_tick) (simp add: timer_ok_def)
    ultimately show ?thesis using fires upd by simp
  qed
qed

text \<open>
  C3. The timer class and the C timer are interchangeable: every sequence of additions, deletions and
  ticks, with callbacks that may add timers through the poller, returns on both with the same calls in the
  same order, and both end with the same entries pending (while expiry times stay below \<open>2 ^ 26\<close> ticks
  and the identifiers have not wrapped), although they lock and recycle their nodes differently.
\<close>

theorem timer_class_agrees:
  assumes "cal_run s ops w cal_new = Some (w', C')"
  shows "\<exists>t t'. run_ops start_timer stop_timer (cpp_tick (cpp_script_cb s)) ops w (cpp_timer filetime) = ret (w', t) \<and>
    run_ops coretimer_add coretimer_del (timer_tick_step (script_cb s)) ops w (coretimer_new filetime) = ret (w', t') \<and>
    timer_ok t C' \<and> timer_ok t' C'"
  using class_timer.run_refines [OF coretimer_new_ok assms] wheel_timer.run_refines [OF coretimer_new_ok assms]
  unfolding cpp_timer_eq by blast

text \<open>A timer of 20 ms that fires, next to one that is cancelled.\<close>

theorem timer_class_agrees_witness:
  "\<exists>t t'. run_ops start_timer stop_timer (cpp_tick (cpp_script_cb log_script))
     [TAdd 7 1 20, TAdd 8 2 10, TDel 2, TTick, TTick] [] (cpp_timer 0) = ret ([(7, 1)], t) \<and>
   run_ops coretimer_add coretimer_del (timer_tick_step (script_cb log_script))
     [TAdd 7 1 20, TAdd 8 2 10, TDel 2, TTick, TTick] [] (coretimer_new 0) = ret ([(7, 1)], t')"
proof -
  have "cal_run log_script [TAdd 7 1 20, TAdd 8 2 10, TDel 2, TTick, TTick] [] cal_new =
      Some ([(7, 1)], \<lparr>cal_now = 2, cal_index = 2, pending = []\<rparr>)"
    by (simp add: cal_new_def cal_add_def cal_del_def cal_tick_log calls_def ticks_def)
  from timer_class_agrees [OF this, of 0] show ?thesis by blast
qed

end
