(* ===== verification/Iocp.thy ===== *)
theory Iocp
  imports CorePoller TimerObject
begin

text \<open>
  The poller class of \<^verbatim>\<open>net/poller.cpp\<close>. Its fields are those of the C poller, so the state is the same record; the
  timer in it is the timer class. A turn of a worker's loop, starting, stopping and posting are translated
  again from this file; every step of the class is a step the C poller's workers and their surroundings can
  make, so what is proved of winding down holds here too.
\<close>

section \<open>Operations\<close>

text \<open>The constructor leaves \<^verbatim>\<open>in_timer\<close> as the memory was (\<open>junk\<close>).\<close>

definition iocp_new :: "u32 \<Rightarrow> u64 \<Rightarrow> core_poller" where
  "iocp_new junk filetime =
     \<lparr>cp_thr = 0, cp_quited = 1, cp_timer = cpp_timer filetime, in_timer = junk, port = [], live = 0\<rparr>"

definition iocp_start_thread :: "core_poller \<Rightarrow> u8 \<Rightarrow> core_poller" where
  "iocp_start_thread io n =
     (let io = io\<lparr>cp_quited := 0\<rparr>;
          n = (if n = 0 then 1 else n);
          io = (if cp_thr io < n then io\<lparr>live := live io + (unat n - unat (cp_thr io)), cp_thr := n\<rparr> else io);
          io = (if cp_thr io > n then io\<lparr>port := port io @ [Quit (ucast (cp_thr io) - ucast n)]\<rparr> else io) in
      io\<lparr>cp_thr := n\<rparr>)"

text \<open>Up to the loop that waits for \<^verbatim>\<open>quited\<close>.\<close>

definition iocp_stop_thread :: "core_poller \<Rightarrow> core_poller" where
  "iocp_stop_thread io =
     (if cp_thr io > 0 then io\<lparr>port := port io @ [Quit (ucast (cp_thr io))], cp_thr := 0\<rparr> else io)"

text \<open>A turn of \<^verbatim>\<open>run\<close>, in its two halves: the timer, then the next packet.\<close>

definition run_timer :: "core_poller callback \<Rightarrow> u64 \<Rightarrow> core_poller \<Rightarrow> core_poller prog" where
  "run_timer cb filetime io =
     (if in_timer io = 0 then
        bnd (cpp_update cb filetime (io\<lparr>in_timer := 1\<rparr>) (cp_timer io)) (\<lambda>(io, t).
        ret (io\<lparr>cp_timer := t, in_timer := 0\<rparr>))
      else ret io)"

definition run_packet ::
  "(nat \<Rightarrow> nat \<Rightarrow> u32 \<Rightarrow> u32 \<Rightarrow> core_poller \<Rightarrow> core_poller prog) \<Rightarrow> packet \<Rightarrow> core_poller \<Rightarrow> (bool \<times> core_poller) prog" where
  "run_packet call p io =
     (case p of
        Quit bytes \<Rightarrow>
          (let bytes = bytes - 1 in
           if bytes > 0 then ret (False, io\<lparr>port := port io @ [Quit bytes]\<rparr>)
           else ret (False, io\<lparr>cp_quited := 1\<rparr>))
      | Msg key ev bytes err \<Rightarrow> bnd (call key ev bytes err io) (\<lambda>io. ret (True, io))
      | PortError err \<Rightarrow> abort AssertionFailed)"

definition FRAME_POLLER_NOT_RUN :: u32 where
  "FRAME_POLLER_NOT_RUN = 2000000000"

definition iocp_post :: "u32 \<Rightarrow> core_poller \<Rightarrow> nat \<Rightarrow> nat \<Rightarrow> u32 \<Rightarrow> u32 \<Rightarrow> u32 \<times> core_poller" where
  "iocp_post last_error io ctx ev bytes e =
     (if cp_thr io = 0 then (FRAME_POLLER_NOT_RUN, io)
      else ((if last_error = 997 then 0 else last_error), io\<lparr>port := port io @ [Msg ctx ev bytes 0]\<rparr>))"

definition iocp_append_socket :: "bool \<Rightarrow> bool" where
  "iocp_append_socket h = h"

definition iocp_start_timer :: "core_poller \<Rightarrow> nat \<Rightarrow> nat \<Rightarrow> u32 \<Rightarrow> (u32 \<times> core_poller) prog" where
  "iocp_start_timer io call u wait =
     bnd (start_timer (cp_timer io) call u wait) (\<lambda>(i, t). ret (i, io\<lparr>cp_timer := t\<rparr>))"

definition iocp_stop_timer :: "core_poller \<Rightarrow> u32 \<Rightarrow> core_poller prog" where
  "iocp_stop_timer io idx = bnd (stop_timer (cp_timer io) idx) (\<lambda>t. ret (io\<lparr>cp_timer := t\<rparr>))"

section \<open>The steps of the workers\<close>

inductive run_step :: "(nat \<Rightarrow> nat \<Rightarrow> u32 \<Rightarrow> u32 \<Rightarrow> core_poller \<Rightarrow> core_poller prog) \<Rightarrow> core_poller callback \<Rightarrow>
    core_poller \<Rightarrow> core_poller \<Rightarrow> bool" for call cb where
  r_timer: "live io > 0 \<Longrightarrow> run_timer cb filetime io = ret io' \<Longrightarrow> run_step call cb io io'"
| r_take: "live io > 0 \<Longrightarrow> port io = p # ps \<Longrightarrow> run_packet call p (io\<lparr>port := ps\<rparr>) = ret (goes_on, io') \<Longrightarrow>
     run_step call cb io (if goes_on then io' else io'\<lparr>live := live io' - 1\<rparr>)"
| r_post: "iocp_post last_error io ctx ev bytes e = (r, io') \<Longrightarrow> run_step call cb io io'"

inductive run_steps :: "(nat \<Rightarrow> nat \<Rightarrow> u32 \<Rightarrow> u32 \<Rightarrow> core_poller \<Rightarrow> core_poller prog) \<Rightarrow> core_poller callback \<Rightarrow>
    core_poller \<Rightarrow> core_poller \<Rightarrow> bool" for call cb where
  r_refl: "run_steps call cb io io"
| r_step: "run_step call cb io io' \<Longrightarrow> run_steps call cb io' io'' \<Longrightarrow> run_steps call cb io io''"

section \<open>The class takes the C poller's steps\<close>

lemma iocp_eq:
  "iocp_start_thread = corepoller_start_thread" "iocp_stop_thread = corepoller_stop_thread" "run_packet = thread_packet"
  by (intro ext, simp add: iocp_start_thread_def corepoller_start_thread_def iocp_stop_thread_def corepoller_stop_thread_def
      run_packet_def thread_packet_def Let_def)+

text \<open>Whatever the callbacks keep of the poller, an update of the timer class keeps.\<close>

lemma cpp_execute_loop_posts:
  assumes cb: "callback_ok cb" and e: "cpp_execute_loop cb r io t = ret (io', t')"
  shows "posts_only io io'"
proof -
  have "callback_ok cb \<longrightarrow> (\<forall>io' t'. out = Ok (io', t') \<longrightarrow> posts_only io io')"
    if r: "cpp_execute_loop cb r io t = Some out" for out
  proof (rule cpp_execute_loop.raw_induct [OF _ r], intro impI allI)
    fix f cb r io t y io' t'
    assume IH: "\<And>cb r io t y. f cb r io t = Some y \<Longrightarrow>
        callback_ok cb \<longrightarrow> (\<forall>io' t'. y = Ok (io', t') \<longrightarrow> posts_only io io')"
      and y: "(if r = Null then ret (io, t)
        else bnd (tload (mem t) r) (\<lambda>rn. bnd (spin_lock t) (\<lambda>t. bnd (cpp_delfrom_hash (mem t) r) (\<lambda>m.
          bnd (cb (tn_call rn) (tn_u rn) (io, spin_unlock (t\<lparr>mem := m\<rparr>))) (\<lambda>(w, t).
          bnd (cpp_dealloc t r) (f cb (list_next rn) w)))))) = Some y"
      and c: "callback_ok cb" "y = Ok (io', t')"
    show "posts_only io io'"
    proof (cases "r = Null")
      case True
      then show ?thesis using y c by (auto simp: ret_def posts_only_refl)
    next
      case False
      with y c obtain rn :: timer_node and m io1 t0 t1 t2 where
        "cb (tn_call rn) (tn_u rn) (io, spin_unlock (t0\<lparr>mem := m\<rparr>)) = ret (io1, t1)"
        "f cb (list_next rn) io1 t2 = ret (io', t')"
        by (auto simp: ret_def [symmetric] bnd_eq_ret)
      moreover from this have "posts_only io io1" using c(1) unfolding callback_ok_def by blast
      moreover have "posts_only io1 io'" using calculation(2) c IH by (auto simp: ret_def)
      ultimately show ?thesis using posts_only_trans by blast
    qed
  qed
  then show ?thesis using assms by (simp add: ret_def)
qed

lemma cpp_execute_posts: "callback_ok cb \<Longrightarrow> cpp_execute cb io t = ret (io', t') \<Longrightarrow> posts_only io io'"
  by (auto simp: cpp_execute_def Let_def bnd_eq_ret dest: cpp_execute_loop_posts)

lemma cpp_ticks_posts: "callback_ok cb \<Longrightarrow> cpp_ticks cb n io t = ret (io', t') \<Longrightarrow> posts_only io io'"
proof (induction n arbitrary: io t)
  case 0
  then show ?case by (simp add: posts_only_refl)
next
  case (Suc n)
  then obtain io1 t1 io2 t2 t3 where "cpp_execute cb io t = ret (io1, t1)"
      "cpp_execute cb io1 t3 = ret (io2, t2)" "cpp_ticks cb n io2 t2 = ret (io', t')"
    by (auto simp: cpp_tick_def bnd_eq_ret)
  then show ?case using Suc cpp_execute_posts posts_only_trans by metis
qed

lemma run_timer_posts:
  assumes cb: "callback_ok cb" and t: "run_timer cb filetime io = ret io'"
  shows "posts_only io io'"
proof (cases "in_timer io = 0")
  case True
  then obtain io1 t1 where u: "cpp_update cb filetime (io\<lparr>in_timer := 1\<rparr>) (cp_timer io) = ret (io1, t1)"
    and e: "io' = io1\<lparr>cp_timer := t1, in_timer := 0\<rparr>"
    using t by (auto simp: run_timer_def bnd_eq_ret)
  have "posts_only (io\<lparr>in_timer := 1\<rparr>) io1"
    using u cb by (auto simp: cpp_update_def Let_def bnd_eq_ret posts_only_refl dest: cpp_ticks_posts split: if_splits)
  then show ?thesis using e by (simp add: posts_only_def)
qed (use t in \<open>simp add: run_timer_def posts_only_refl\<close>)

lemma iocp_post_posts: "iocp_post last_error io ctx ev bytes e = (r, io') \<Longrightarrow> posts_only io io'"
  by (auto simp: iocp_post_def posts_only_refl posts_only_def split: if_splits intro!: exI [of _ "[Msg ctx ev bytes 0]"])

lemma run_step_winding:
  assumes cb: "callback_ok cb" and s: "run_step call cb io io'"
  shows "winding call cb io io'"
  using s
proof (cases rule: run_step.cases)
  case (r_timer filetime)
  then show ?thesis using run_timer_posts [OF cb] w_post by blast
next
  case (r_take p ps goes_on io1)
  then show ?thesis using w_take [of io p ps call goes_on io1 cb] by (simp add: iocp_eq)
next
  case r_post
  then show ?thesis using iocp_post_posts w_post by blast
qed

lemma run_steps_windings: "run_steps call cb io io' \<Longrightarrow> callback_ok cb \<Longrightarrow> windings call cb io io'"
  by (induction rule: run_steps.induct) (auto intro: w_refl w_step run_step_winding)

text \<open>
  C32. Stopping the poller class is safe: from a poller whose workers all run, whatever is posted and
  handled meanwhile and however the workers' turns interleave, the wait in \<^verbatim>\<open>stop_thread\<close> ends only when no
  worker is left in its loop and no token is left in the port.
\<close>

theorem iocp_stop_waits:
  assumes "handler_ok call" "callback_ok cb" "CorePoller.running io" "cp_quited io = 0"
    and "run_steps call cb (iocp_stop_thread io) io'" "stop_returns io'"
  shows "live io' = 0 \<and> filter is_quit (port io') = []"
proof -
  have "windings call cb (corepoller_stop_thread io) io'"
    using run_steps_windings [OF assms(5,2)] by (simp add: iocp_eq)
  from token_steps [OF this assms(1,2) running_stop_token [OF assms(3,4)]] assms(6) show ?thesis
    by (simp add: token_def stop_returns_def)
qed

definition iocp_up :: core_poller where
  "iocp_up = iocp_start_thread (iocp_new 0 0) 2"

definition iocp_down :: core_poller where
  "iocp_down = (iocp_stop_thread iocp_up)\<lparr>port := [], cp_quited := 1, live := 0\<rparr>"

lemma iocp_down_reached: "run_steps idle_handler idle_callback (iocp_stop_thread iocp_up) iocp_down"
proof -
  let ?io = "iocp_stop_thread iocp_up"
  let ?io1 = "?io\<lparr>port := [Quit 1], live := 1\<rparr>"
  have p: "live ?io > 0" "port ?io = Quit 2 # []" "live ?io = 2"
    by (simp_all add: iocp_up_def iocp_new_def iocp_stop_thread_def iocp_start_thread_def)
  have "run_packet idle_handler (Quit 2) (?io\<lparr>port := []\<rparr>) = ret (False, ?io\<lparr>port := [Quit 1]\<rparr>)"
    by (simp add: run_packet_def)
  from r_take [OF p(1,2) this] p(3) have 1: "run_step idle_handler idle_callback ?io ?io1" by simp
  have "run_packet idle_handler (Quit 1) (?io1\<lparr>port := []\<rparr>) = ret (False, ?io1\<lparr>port := [], cp_quited := 1\<rparr>)"
    by (simp add: run_packet_def)
  moreover have "live ?io1 > 0" "port ?io1 = Quit 1 # []" by simp_all
  ultimately have "run_step idle_handler idle_callback ?io1 iocp_down"
    using r_take [of ?io1 "Quit 1" "[]" idle_handler False "?io1\<lparr>port := [], cp_quited := 1\<rparr>" idle_callback]
    by (simp add: iocp_down_def)
  with 1 show ?thesis by (blast intro: r_refl r_step)
qed

theorem iocp_stop_waits_witness: "live iocp_down = 0 \<and> filter is_quit (port iocp_down) = []"
  by (rule iocp_stop_waits [OF idle_ok _ _ iocp_down_reached])
    (simp_all add: iocp_up_def iocp_new_def iocp_start_thread_def CorePoller.running_def stop_returns_def iocp_down_def)

end
