(* ===== verification/CoreBuffer.thy ===== *)
theory CoreBuffer
  imports Prelude
begin

text \<open>
  The ring of bytes of \<^verbatim>\<open>net/corebuffer.c\<close> (\<^verbatim>\<open>struct buffer_node\<close> and the
  \<^verbatim>\<open>buffernode_\<close> functions). The two counters run freely modulo \<open>2 ^ 32\<close> and the size is a
  power of two, so a position is a counter modulo the size. The lemmas show that the node is a queue
  of bytes: what is written is appended, and the chunk handed out for a send is a prefix.
\<close>

section \<open>Allocation sizes\<close>

abbreviation LONG_MAX :: u32 where
  "LONG_MAX \<equiv> 0x7FFFFFFF"

partial_function (option) next_power_loop :: "u32 \<Rightarrow> u32 \<Rightarrow> u32 prog" where
  "next_power_loop sz i = (if i < sz then next_power_loop sz (i * 2) else ret i)"

definition next_power :: "u32 \<Rightarrow> u32 prog" where
  "next_power sz = (if sz \<ge> LONG_MAX then ret LONG_MAX else next_power_loop sz 64)"

section \<open>The node and its operations\<close>

record buffer_node =
  bn_next :: "nat option"
  bn_size :: u32
  bn_in :: u32
  bn_out :: u32
  bn_buf :: bytes

text \<open>
  Fresh memory holds whatever it held: \<open>junk\<close> is the content of the allocated bytes. Allocation
  itself is taken to succeed, as the code takes it.
\<close>

definition buffernode_new :: "(nat \<Rightarrow> u8) \<Rightarrow> u32 \<Rightarrow> buffer_node prog" where
  "buffernode_new junk len = bnd (next_power len) (\<lambda>len.
     ret \<lparr>bn_next = None, bn_size = len, bn_in = 0, bn_out = 0, bn_buf = map junk [0..<unat len]\<rparr>)"

definition CORE_MIN :: "u32 \<Rightarrow> u32 \<Rightarrow> u32" where
  "CORE_MIN a b = (if a < b then a else b)"

definition buffernode_write :: "buffer_node \<Rightarrow> bytes \<Rightarrow> u32 \<Rightarrow> (u32 \<times> buffer_node) prog" where
  "buffernode_write node data sz =
     (let all = bn_size node - (bn_in node - bn_out node) in
      if all < sz then ret (- 1, node)
      else
        let pos = bn_in node AND (bn_size node - 1);
            l = CORE_MIN sz (bn_size node - pos)
        in bnd (memcpy (bn_buf node) (unat pos) data 0 (unat l)) (\<lambda>b.
           bnd (memcpy b 0 data (unat l) (unat (sz - l))) (\<lambda>b.
           ret (0, node\<lparr>bn_buf := b, bn_in := bn_in node + sz\<rparr>))))"

text \<open>
  The second copy of \<^verbatim>\<open>buffernode_read\<close> takes its bytes from the caller's array, not from the ring.
\<close>

definition buffernode_read ::
  "buffer_node \<Rightarrow> bytes \<Rightarrow> u32 \<Rightarrow> (u32 \<times> buffer_node \<times> bytes) prog" where
  "buffernode_read node data sz =
     (let all = bn_in node - bn_out node in
      if all < sz then ret (- 1, node, data)
      else
        let pos = bn_out node AND (bn_size node - 1);
            l = CORE_MIN sz (bn_size node - pos)
        in bnd (memcpy data 0 (bn_buf node) (unat pos) (unat l)) (\<lambda>d.
           bnd (memcpy_within d (unat l) 0 (unat (sz - l))) (\<lambda>d.
           ret (0, node\<lparr>bn_out := bn_out node + sz\<rparr>, d))))"

text \<open>
  The two functions that hand out a region return its length and, when it is not empty, the offset
  the pointer argument is set to.
\<close>

definition buffernode_startread :: "buffer_node \<Rightarrow> u32 \<times> u32 option" where
  "buffernode_startread node =
     (let all = bn_in node - bn_out node in
      if all = 0 then (0, None)
      else
        let i = bn_in node mod bn_size node;
            out = bn_out node mod bn_size node
        in (if i > out then i - out else bn_size node - out, Some out))"

definition buffernode_readok :: "buffer_node \<Rightarrow> u32 \<Rightarrow> u32 \<times> buffer_node" where
  "buffernode_readok node sz =
     (let all = bn_in node - bn_out node in
      if sz > all then (- 1, node) else (0, node\<lparr>bn_out := bn_out node + sz\<rparr>))"

definition buffernode_startwrite :: "buffer_node \<Rightarrow> u32 \<times> u32 option" where
  "buffernode_startwrite node =
     (let all = bn_size node - (bn_in node - bn_out node) in
      if all = 0 then (0, None)
      else
        let i = bn_in node AND (bn_size node - 1);
            out = bn_out node AND (bn_size node - 1)
        in (if i < out then bn_size node - i - 1 else bn_out node - i, Some i))"

definition buffernode_writeok :: "buffer_node \<Rightarrow> u32 \<Rightarrow> u32 \<times> buffer_node" where
  "buffernode_writeok node sz =
     (let all = bn_in node - bn_out node in
      if sz > all then (- 1, node) else (0, node\<lparr>bn_in := bn_in node + sz\<rparr>))"

definition buffernode_size :: "buffer_node \<Rightarrow> u32" where
  "buffernode_size node = bn_size node"

definition buffernode_canwrite :: "buffer_node \<Rightarrow> u32" where
  "buffernode_canwrite node = bn_size node - (bn_in node - bn_out node)"

definition buffernode_canread :: "buffer_node \<Rightarrow> u32" where
  "buffernode_canread node = bn_in node - bn_out node"

definition buffernode_clean :: "buffer_node \<Rightarrow> buffer_node" where
  "buffernode_clean node = node\<lparr>bn_in := 0, bn_out := 0\<rparr>"

section \<open>The byte queue a node stands for\<close>

definition node_inv :: "buffer_node \<Rightarrow> bool" where
  "node_inv n \<longleftrightarrow> (\<exists>k<32. bn_size n = 2 ^ k \<and> length (bn_buf n) = 2 ^ k) \<and>
     bn_in n - bn_out n \<le> bn_size n"

definition buffered :: "buffer_node \<Rightarrow> bytes" where
  "buffered n = map (\<lambda>i. bn_buf n ! ((unat (bn_out n) + i) mod unat (bn_size n)))
     [0..<unat (bn_in n - bn_out n)]"

lemma node_invE:
  assumes "node_inv n"
  obtains k where "k < 32" "bn_size n = 2 ^ k" "unat (bn_size n) = 2 ^ k"
    "length (bn_buf n) = 2 ^ k" "unat (bn_in n - bn_out n) \<le> 2 ^ k"
proof -
  from assms obtain k where k: "k < 32" "bn_size n = 2 ^ k" "length (bn_buf n) = 2 ^ k"
    "bn_in n - bn_out n \<le> bn_size n" by (auto simp: node_inv_def)
  have sz: "unat (bn_size n) = 2 ^ k" using k(1,2) unat_pow2 [where 'a = 32, of k] by simp
  with k(4) have "unat (bn_in n - bn_out n) \<le> 2 ^ k" by (simp add: word_le_nat_alt)
  with k sz that show thesis by blast
qed

lemma length_buffered [simp]: "length (buffered n) = unat (bn_in n - bn_out n)"
  by (simp add: buffered_def)

section \<open>Sizes are powers of two\<close>

lemma next_power_loop_stop: "sz \<le> i \<Longrightarrow> next_power_loop sz i = ret i"
  by (subst next_power_loop.simps) (simp add: leD)

lemma next_power_loop_step: "i < sz \<Longrightarrow> next_power_loop sz i = next_power_loop sz (i * 2)"
  by (subst next_power_loop.simps) simp

lemma next_power_loop_pow2:
  assumes "sz \<le> 2 ^ 31" "k \<le> 31" "k = 6 \<or> (2 ^ (k - 1) :: u32) < sz" "6 \<le> k"
  shows "\<exists>m. 6 \<le> m \<and> m \<le> 31 \<and> next_power_loop sz (2 ^ k) = ret (2 ^ m) \<and> sz \<le> 2 ^ m \<and>
    (m = 6 \<or> 2 ^ (m - 1) < sz)"
  using assms(2-4)
proof (induction "31 - k" arbitrary: k)
  case 0
  then have "k = 31" by simp
  with assms(1) 0 show ?case by (intro exI [of _ 31]) (auto simp: next_power_loop_stop)
next
  case (Suc d)
  show ?case
  proof (cases "2 ^ k < sz")
    case True
    with Suc.hyps(2) have "k < 31" by linarith
    with Suc.hyps(1) [of "Suc k"] Suc.hyps(2) Suc.prems True
    have "\<exists>m\<ge>6. m \<le> 31 \<and> next_power_loop sz (2 ^ Suc k) = ret (2 ^ m) \<and> sz \<le> 2 ^ m \<and>
      (m = 6 \<or> 2 ^ (m - 1) < sz)" by simp
    with next_power_loop_step [OF True] show ?thesis by (simp add: mult.commute)
  next
    case False
    with Suc.prems show ?thesis by (intro exI [of _ k]) (simp add: next_power_loop_stop)
  qed
qed

lemma next_power_pow2:
  assumes "sz < LONG_MAX"
  shows "\<exists>m. 6 \<le> m \<and> m \<le> 31 \<and> next_power sz = ret (2 ^ m) \<and> sz \<le> 2 ^ m \<and>
    (m = 6 \<or> 2 ^ (m - 1) < sz)"
proof -
  have "sz \<le> 2 ^ 31" using assms by (simp add: word_le_nat_alt word_less_nat_alt)
  from next_power_loop_pow2 [OF this, of 6] assms show ?thesis
    by (simp add: next_power_def not_le [symmetric])
qed

section \<open>Writing into the ring\<close>

text \<open>
  The two copies of \<^verbatim>\<open>buffernode_write\<close> store byte \<open>i\<close> of the data at position
  \<open>(off + i) mod N\<close> and leave every other position alone.
\<close>

definition ring_store :: "bytes \<Rightarrow> nat \<Rightarrow> bytes \<Rightarrow> nat \<Rightarrow> nat \<Rightarrow> bytes" where
  "ring_store b off data l m =
     take m (drop l data) @ drop m (take off b @ take l data @ drop (off + l) b)"

lemma ring_store_nth:
  assumes "off + l \<le> length b" "l + m \<le> length data" "m \<le> length b" "p < length b"
  shows "ring_store b off data l m ! p =
    (if p < m then data ! (l + p) else if p < off then b ! p
     else if p < off + l then data ! (p - off) else b ! p)"
proof -
  define b1 where "b1 = take off b @ take l data @ drop (off + l) b"
  have len: "length b1 = length b" using assms by (simp add: b1_def)
  have b1: "b1 ! p = (if p < off then b ! p else if p < off + l then data ! (p - off) else b ! p)"
    using assms by (auto simp: b1_def nth_append)
  have "ring_store b off data l m ! p = (take m (drop l data) @ drop m b1) ! p"
    by (simp only: ring_store_def b1_def)
  also have "\<dots> = (if p < m then data ! (l + p) else b1 ! p)"
    using assms len by (simp add: nth_append)
  finally show ?thesis using b1 by simp
qed

lemma ring_store_length:
  "off + l \<le> length b \<Longrightarrow> l + m \<le> length data \<Longrightarrow> m \<le> length b \<Longrightarrow>
   length (ring_store b off data l m) = length b"
  by (simp add: ring_store_def)

lemma ring_store_length_min:
  "off < length b \<Longrightarrow> n \<le> length b \<Longrightarrow> n \<le> length data \<Longrightarrow>
   length (ring_store b off data (min n (length b - off)) (n - min n (length b - off))) = length b"
  by (rule ring_store_length) auto

lemma ring_store_hit:
  assumes "off < N" "N = length b" "n \<le> N" "n \<le> length data" "i < n" "l = min n (N - off)"
  shows "ring_store b off data l (n - l) ! ((off + i) mod N) = data ! i"
proof -
  have l: "l \<le> n" "off + l \<le> N" "off + l = N \<or> l = n" using assms by auto
  have p: "(off + i) mod N < N" by (rule mod_less_divisor) (use assms(1) in linarith)
  show ?thesis
  proof (cases "off + i < N")
    case True
    with assms l have "i < l" by linarith
    with True assms l p show ?thesis by (subst ring_store_nth) auto
  next
    case False
    with assms(1,3,5) have "(off + i) mod N = off + i - N" by (simp add: mod_wrap)
    with False assms l p show ?thesis by (subst ring_store_nth) auto
  qed
qed

lemma ring_store_miss:
  assumes "off < N" "N = length b" "n \<le> i" "i < N" "n \<le> length data" "l = min n (N - off)"
  shows "ring_store b off data l (n - l) ! ((off + i) mod N) = b ! ((off + i) mod N)"
proof -
  have l: "l \<le> n" "off + l \<le> N" "off + l = N \<or> l = n" using assms by auto
  have p: "(off + i) mod N < N" by (rule mod_less_divisor) (use assms(1) in linarith)
  show ?thesis
  proof (cases "off + i < N")
    case True
    with assms l p show ?thesis by (subst ring_store_nth) auto
  next
    case False
    with assms(1,4) have "(off + i) mod N = off + i - N" by (simp add: mod_wrap)
    with False assms l p show ?thesis by (subst ring_store_nth) auto
  qed
qed

lemma write_region:
  assumes "node_inv n"
  shows "unat (bn_in n AND (bn_size n - 1)) = unat (bn_in n) mod unat (bn_size n)"
    and "unat (bn_out n AND (bn_size n - 1)) = unat (bn_out n) mod unat (bn_size n)"
    and "unat (buffernode_canwrite n) = unat (bn_size n) - unat (bn_in n - bn_out n)"
    and "(unat (bn_out n) + unat (bn_in n - bn_out n)) mod unat (bn_size n) =
      unat (bn_in n) mod unat (bn_size n)"
proof -
  from assms obtain k where k: "k < 32" "bn_size n = 2 ^ k" "unat (bn_size n) = 2 ^ k"
    "unat (bn_in n - bn_out n) \<le> 2 ^ k" by (rule node_invE)
  show "unat (bn_in n AND (bn_size n - 1)) = unat (bn_in n) mod unat (bn_size n)"
    and "unat (bn_out n AND (bn_size n - 1)) = unat (bn_out n) mod unat (bn_size n)"
    unfolding k(3) unfolding k(2) by (rule and_pow2_minus_1, use k(1) in simp)+
  show "unat (buffernode_canwrite n) = unat (bn_size n) - unat (bn_in n - bn_out n)"
    unfolding buffernode_canwrite_def using k(3,4) by (simp add: unat_sub word_le_nat_alt)
  show "(unat (bn_out n) + unat (bn_in n - bn_out n)) mod unat (bn_size n) =
      unat (bn_in n) mod unat (bn_size n)"
    unfolding k(3) using k(1) by (simp add: unat_add_diff_mod_pow2)
qed

lemma node_invI:
  assumes "k < 32" "bn_size n = 2 ^ k" "length (bn_buf n) = 2 ^ k" "unat (bn_in n - bn_out n) \<le> 2 ^ k"
  shows "node_inv n"
  using assms unat_pow2 [where 'a = 32, of k] by (auto simp: node_inv_def word_le_nat_alt)

lemma node_inv_size:
  assumes "node_inv n"
  shows "0 < unat (bn_size n)" "unat (bn_size n) \<le> 2 ^ 31" "length (bn_buf n) = unat (bn_size n)"
    "unat (bn_in n - bn_out n) \<le> unat (bn_size n)"
proof -
  from assms obtain k where "k < 32" "unat (bn_size n) = 2 ^ k" "length (bn_buf n) = 2 ^ k"
    "unat (bn_in n - bn_out n) \<le> 2 ^ k" by (rule node_invE)
  moreover from this(1) have "2 ^ k \<le> (2 :: nat) ^ 31" by (intro power_increasing) auto
  ultimately show "0 < unat (bn_size n)" "unat (bn_size n) \<le> 2 ^ 31"
    "length (bn_buf n) = unat (bn_size n)" "unat (bn_in n - bn_out n) \<le> unat (bn_size n)" by simp_all
qed

text \<open>The node after \<open>n\<close> bytes were stored from the write position on.\<close>

definition written :: "buffer_node \<Rightarrow> bytes \<Rightarrow> u32 \<Rightarrow> buffer_node" where
  "written n data sz = (let N = unat (bn_size n); off = unat (bn_in n) mod N;
     l = min (unat sz) (N - off)
   in n\<lparr>bn_buf := ring_store (bn_buf n) off data l (unat sz - l), bn_in := bn_in n + sz\<rparr>)"

lemma written_fields [simp]:
  "bn_size (written n data sz) = bn_size n" "bn_next (written n data sz) = bn_next n"
  "bn_out (written n data sz) = bn_out n" "bn_in (written n data sz) = bn_in n + sz"
  by (simp_all add: written_def Let_def)

lemma buffernode_write_eq:
  assumes inv: "node_inv n" and room: "sz \<le> buffernode_canwrite n"
    and data: "unat sz \<le> length data"
  shows "buffernode_write n data sz = ret (0, written n data sz)"
proof -
  define N where "N = unat (bn_size n)"
  define off where "off = unat (bn_in n) mod N"
  define pos where "pos = bn_in n AND (bn_size n - 1)"
  define l where "l = CORE_MIN sz (bn_size n - pos)"
  have N: "0 < N" "length (bn_buf n) = N"
    using node_inv_size [OF inv] by (simp_all add: N_def)
  have fits: "unat sz \<le> N"
    using room write_region(3) [OF inv] by (simp add: word_le_nat_alt N_def)
  have pos: "unat pos = off" "off < N"
    using write_region(1) [OF inv] N(1) by (simp_all add: pos_def off_def N_def)
  then have "unat (bn_size n - pos) = N - off"
    by (simp add: unat_sub word_le_nat_alt N_def)
  then have l: "unat l = min (unat sz) (N - off)"
    by (auto simp: l_def CORE_MIN_def word_less_nat_alt)
  then have l': "unat l \<le> unat sz" "off + unat l \<le> N" "unat (sz - l) = unat sz - unat l"
    using pos(2) by (auto simp: unat_sub word_le_nat_alt)
  show ?thesis
    using room l' fits data N(2) pos(1)
    by (simp add: buffernode_write_def Let_def buffernode_canwrite_def not_less [symmetric]
        pos_def [symmetric] l_def [symmetric] memcpy_ok written_def ring_store_def
        N_def [symmetric] off_def [symmetric] l [symmetric])
qed

lemma written_count:
  assumes inv: "node_inv n" and room: "sz \<le> buffernode_canwrite n"
  shows "unat (bn_in n + sz - bn_out n) = unat (bn_in n - bn_out n) + unat sz"
    and "unat (bn_in n - bn_out n) + unat sz \<le> unat (bn_size n)"
proof -
  show fits: "unat (bn_in n - bn_out n) + unat sz \<le> unat (bn_size n)"
    using room write_region(3) [OF inv] node_inv_size(4) [OF inv] by (simp add: word_le_nat_alt)
  have "bn_in n + sz - bn_out n = (bn_in n - bn_out n) + sz" by simp
  also have "unat \<dots> = unat (bn_in n - bn_out n) + unat sz"
    using fits node_inv_size(2) [OF inv] by (simp add: unat_word_ariths)
  finally show "unat (bn_in n + sz - bn_out n) = unat (bn_in n - bn_out n) + unat sz" .
qed

lemma node_inv_written:
  assumes inv: "node_inv n" and room: "sz \<le> buffernode_canwrite n"
    and data: "unat sz \<le> length data"
  shows "node_inv (written n data sz)"
proof -
  from inv obtain k where k: "k < 32" "bn_size n = 2 ^ k" "unat (bn_size n) = 2 ^ k"
    "length (bn_buf n) = 2 ^ k" by (rule node_invE)
  have "length (bn_buf (written n data sz)) = 2 ^ k"
    using written_count(2) [OF inv room] data k(3,4)
      ring_store_length_min [of "unat (bn_in n) mod 2 ^ k" "bn_buf n" "unat sz" data]
    by (simp add: written_def Let_def)
  with k(1-3) written_count [OF inv room] show ?thesis by (intro node_invI) simp_all
qed

lemma buffered_written:
  assumes inv: "node_inv n" and room: "sz \<le> buffernode_canwrite n"
    and data: "unat sz \<le> length data"
  shows "buffered (written n data sz) = buffered n @ take (unat sz) data"
proof -
  define N used off where "N = unat (bn_size n)" and "used = unat (bn_in n - bn_out n)"
    and "off = unat (bn_in n) mod N"
  define l where "l = min (unat sz) (N - off)"
  define b where "b = ring_store (bn_buf n) off data l (unat sz - l)"
  have N: "N = length (bn_buf n)" "off < N"
    using node_inv_size [OF inv] by (simp_all add: N_def off_def)
  note count = written_count [OF inv room, folded N_def used_def]
  have base: "(unat (bn_out n) + used) mod N = off"
    using write_region(4) [OF inv] by (simp add: used_def N_def off_def)
  have b: "bn_buf (written n data sz) = b"
    by (simp add: written_def Let_def b_def l_def N_def off_def)
  show ?thesis
  proof (rule nth_equalityI)
    show "length (buffered (written n data sz)) = length (buffered n @ take (unat sz) data)"
      using count data by (simp add: used_def)
  next
    fix i assume "i < length (buffered (written n data sz))"
    then have i: "i < used + unat sz" using count by simp
    have new: "buffered (written n data sz) ! i = b ! ((unat (bn_out n) + i) mod N)"
      using i count by (simp add: buffered_def N_def b)
    show "buffered (written n data sz) ! i = (buffered n @ take (unat sz) data) ! i"
    proof (cases "i < used")
      case True
      with base count(2) have pos: "(unat (bn_out n) + i) mod N = (off + (N - used + i)) mod N"
        by (intro ring_pos_before) auto
      have "buffered (written n data sz) ! i = bn_buf n ! ((off + (N - used + i)) mod N)"
        unfolding new pos b_def
        by (rule ring_store_miss [OF N(2,1) _ _ data l_def]) (use True count(2) in simp_all)
      with True show ?thesis
        unfolding pos [symmetric] by (simp add: buffered_def nth_append used_def N_def)
    next
      case False
      with base have pos: "(unat (bn_out n) + i) mod N = (off + (i - used)) mod N"
        by (intro ring_pos_beyond) auto
      have "buffered (written n data sz) ! i = data ! (i - used)"
        unfolding new pos b_def
        by (rule ring_store_hit [OF N(2,1) _ data _ l_def]) (use False i count(2) in simp_all)
      with False i show ?thesis by (simp add: nth_append used_def)
    qed
  qed
qed

section \<open>Reading from the ring\<close>

text \<open>The bytes that \<^verbatim>\<open>buffernode_startread\<close> hands out.\<close>

definition chunk :: "buffer_node \<Rightarrow> bytes" where
  "chunk n = (case buffernode_startread n of (len, None) \<Rightarrow> []
     | (len, Some pos) \<Rightarrow> take (unat len) (drop (unat pos) (bn_buf n)))"

definition readok :: "buffer_node \<Rightarrow> nat \<Rightarrow> buffer_node" where
  "readok n k = snd (buffernode_readok n (of_nat k))"

lemma buffered_nth:
  assumes "i < unat (bn_in n - bn_out n)" "unat (bn_out n) mod unat (bn_size n) + i < unat (bn_size n)"
  shows "buffered n ! i = bn_buf n ! (unat (bn_out n) mod unat (bn_size n) + i)"
proof -
  have "(unat (bn_out n) + i) mod unat (bn_size n) = (unat (bn_out n) mod unat (bn_size n) + i) mod unat (bn_size n)"
    by (simp add: mod_add_left_eq)
  with assms show ?thesis by (simp add: buffered_def)
qed

lemma startread_region:
  assumes inv: "node_inv n" and some: "bn_in n \<noteq> bn_out n"
  obtains len pos where "buffernode_startread n = (len, Some pos)" "0 < unat len"
    "unat len \<le> unat (bn_in n - bn_out n)" "unat pos = unat (bn_out n) mod unat (bn_size n)"
    "unat pos + unat len \<le> unat (bn_size n)"
proof -
  define N where "N = unat (bn_size n)"
  define used where "used = unat (bn_in n - bn_out n)"
  define wp where "wp = unat (bn_in n) mod N"
  define rp where "rp = unat (bn_out n) mod N"
  define w where "w = bn_in n mod bn_size n"
  define r where "r = bn_out n mod bn_size n"
  have wr: "unat w = wp" "unat r = rp" by (simp_all add: w_def r_def wp_def rp_def N_def unat_mod)
  have N: "0 < N" "used \<le> N" using node_inv_size [OF inv] by (simp_all add: N_def used_def)
  have lt: "rp < N" "wp < N" using N(1) by (simp_all add: rp_def wp_def)
  have pos: "0 < used" using some by (simp add: used_def unat_gt_0)
  have "(rp + used) mod N = wp"
    using write_region(4) [OF inv] by (simp add: rp_def wp_def N_def used_def mod_add_left_eq)
  then have eq: "wp = (if rp + used < N then rp + used else rp + used - N)"
    using lt(1) N(2) by (cases "used = N") (auto simp: mod_wrap)
  have res: "buffernode_startread n = (if r < w then w - r else bn_size n - r, Some r)"
    using some by (simp add: buffernode_startread_def Let_def w_def r_def)
  show thesis
  proof (cases "rp < wp")
    case True
    have "unat (w - r) = wp - rp" using True wr by (simp add: unat_sub word_le_nat_alt)
    with True res wr eq N lt that [of "w - r" r] show thesis
      by (auto simp: word_less_nat_alt used_def N_def rp_def split: if_splits)
  next
    case False
    have "unat (bn_size n - r) = N - rp" using lt wr by (simp add: unat_sub word_le_nat_alt N_def)
    with False res wr eq lt pos that [of "bn_size n - r" r] show thesis
      by (auto simp: word_less_nat_alt used_def N_def rp_def split: if_splits)
  qed
qed

lemma chunk_prefix:
  assumes inv: "node_inv n"
  shows "chunk n = take (unat (fst (buffernode_startread n))) (buffered n)"
    and "chunk n = [] \<longleftrightarrow> buffered n = []"
    and "length (chunk n) = unat (fst (buffernode_startread n))"
proof -
  have "chunk n = take (unat (fst (buffernode_startread n))) (buffered n) \<and>
    (chunk n = [] \<longleftrightarrow> buffered n = []) \<and> length (chunk n) = unat (fst (buffernode_startread n))"
  proof (cases "bn_in n = bn_out n")
    case True
    then show ?thesis by (simp add: chunk_def buffernode_startread_def buffered_def)
  next
    case False
    from inv this obtain len pos where r: "buffernode_startread n = (len, Some pos)" "0 < unat len"
      "unat len \<le> unat (bn_in n - bn_out n)" "unat pos = unat (bn_out n) mod unat (bn_size n)"
      "unat pos + unat len \<le> unat (bn_size n)" by (rule startread_region)
    have len: "length (chunk n) = unat len"
      using r(1,5) node_inv_size(3) [OF inv] by (simp add: chunk_def)
    have "chunk n = take (unat len) (buffered n)"
    proof (rule nth_equalityI)
      fix i assume "i < length (chunk n)"
      then have "i < unat len" using len by simp
      then show "chunk n ! i = take (unat len) (buffered n) ! i"
        using r node_inv_size(3) [OF inv] by (simp add: chunk_def buffered_nth)
    qed (use len r(3) in simp)
    moreover have "0 < length (chunk n)" "0 < length (buffered n)" using r(2,3) len by simp_all
    then have "chunk n \<noteq> []" "buffered n \<noteq> []" by blast+
    ultimately show ?thesis using len r(1) by simp
  qed
  then show "chunk n = take (unat (fst (buffernode_startread n))) (buffered n)"
    and "chunk n = [] \<longleftrightarrow> buffered n = []"
    and "length (chunk n) = unat (fst (buffernode_startread n))" by blast+
qed

lemma buffernode_readok_drops:
  assumes inv: "node_inv n" and sz: "sz \<le> buffernode_canread n"
  shows "\<exists>n'. buffernode_readok n sz = (0, n') \<and> node_inv n' \<and>
    buffered n' = drop (unat sz) (buffered n) \<and> bn_size n' = bn_size n \<and> bn_next n' = bn_next n"
proof -
  define n' where "n' = n\<lparr>bn_out := bn_out n + sz\<rparr>"
  from inv obtain k where k: "k < 32" "bn_size n = 2 ^ k" "unat (bn_size n) = 2 ^ k"
    "length (bn_buf n) = 2 ^ k" "unat (bn_in n - bn_out n) \<le> 2 ^ k" by (rule node_invE)
  have "unat ((bn_in n - bn_out n) - sz) = unat (bn_in n - bn_out n) - unat sz"
    using sz by (simp add: unat_sub word_le_nat_alt buffernode_canread_def)
  then have cnt: "unat (bn_in n - (bn_out n + sz)) = unat (bn_in n - bn_out n) - unat sz"
    by (simp add: diff_diff_eq)
  then have inv': "node_inv n'" using k by (intro node_invI [of k]) (simp_all add: n'_def)
  have shift: "unat (bn_out n + sz) mod 2 ^ k = (unat (bn_out n) + unat sz) mod 2 ^ k"
    by (rule unat_add_mod_pow2) (use k(1) in simp)
  have "(unat (bn_out n + sz) + i) mod 2 ^ k = (unat (bn_out n) + (unat sz + i)) mod 2 ^ k" for i
    using shift mod_add_cong [OF _ refl, of "unat (bn_out n + sz)" "2 ^ k" "unat (bn_out n) + unat sz" i]
    by (simp only: add.assoc)
  then have "buffered n' = drop (unat sz) (buffered n)"
    using cnt k(3) by (intro nth_equalityI) (auto simp: buffered_def n'_def)
  moreover have "buffernode_readok n sz = (0, n')"
    using sz by (simp add: buffernode_readok_def Let_def n'_def buffernode_canread_def not_less [symmetric])
  ultimately show ?thesis using inv' by (simp add: n'_def)
qed

section \<open>The queue interface the senders use\<close>

text \<open>
  A sender takes the chunk a queue hands out, the transport accepts some part of it, and the sender
  consumes that part; \<open>transmit\<close> runs this with the given sequence of accepted lengths and
  returns the bytes that left.
\<close>

fun transmit :: "('q \<Rightarrow> bytes) \<Rightarrow> ('q \<Rightarrow> nat \<Rightarrow> 'q) \<Rightarrow> nat list \<Rightarrow> 'q \<Rightarrow> bytes \<times> 'q" where
  "transmit peek eat [] q = ([], q)"
| "transmit peek eat (k # ks) q =
     (let m = min k (length (peek q)); (sent, q') = transmit peek eat ks (eat q m)
      in (take m (peek q) @ sent, q'))"

locale byte_queue =
  fixes qinv :: "'q \<Rightarrow> bool"
    and contents :: "'q \<Rightarrow> bytes"
    and peek :: "'q \<Rightarrow> bytes"
    and eat :: "'q \<Rightarrow> nat \<Rightarrow> 'q"
  assumes peek_prefix: "qinv q \<Longrightarrow> peek q = take (length (peek q)) (contents q)"
    and peek_progress: "qinv q \<Longrightarrow> contents q \<noteq> [] \<Longrightarrow> peek q \<noteq> []"
    and eat_inv: "qinv q \<Longrightarrow> k \<le> length (contents q) \<Longrightarrow> qinv (eat q k)"
    and eat_contents: "qinv q \<Longrightarrow> k \<le> length (contents q) \<Longrightarrow> contents (eat q k) = drop k (contents q)"
begin

lemma peek_length: "qinv q \<Longrightarrow> length (peek q) \<le> length (contents q)"
  by (metis length_take min.cobounded1 peek_prefix)

lemma take_peek: "qinv q \<Longrightarrow> m \<le> length (peek q) \<Longrightarrow> take m (peek q) = take m (contents q)"
  by (metis min.absorb1 peek_prefix take_take)

lemma transmit_step:
  assumes "qinv q" "m = min k (length (peek q))"
  shows "qinv (eat q m)" "take m (peek q) @ contents (eat q m) = contents q"
  using assms peek_length [of q] take_peek [of q m] eat_inv [of q m] eat_contents [of q m] by simp_all

lemma transmit_in_order:
  "qinv q \<Longrightarrow> transmit peek eat ks q = (sent, q') \<Longrightarrow> qinv q' \<and> sent @ contents q' = contents q"
proof (induction ks arbitrary: q sent)
  case Nil
  then show ?case by simp
next
  case (Cons k ks)
  let ?m = "min k (length (peek q))"
  obtain rest where rest: "transmit peek eat ks (eat q ?m) = (rest, q')" "sent = take ?m (peek q) @ rest"
    using Cons.prems(2) by (auto simp: Let_def split: prod.splits)
  note step = transmit_step [OF Cons.prems(1) refl, of k]
  from Cons.IH [OF step(1) rest(1)] step(2) rest(2) show ?case by (metis append.assoc)
qed

lemma transmit_drains:
  assumes "qinv q" "\<forall>k\<in>set ks. 0 < k" "length (contents q) \<le> length ks"
  shows "\<exists>q'. transmit peek eat ks q = (contents q, q') \<and> contents q' = []"
  using assms
proof (induction ks arbitrary: q)
  case Nil
  then show ?case by simp
next
  case (Cons k ks)
  let ?m = "min k (length (peek q))"
  note step = transmit_step [OF Cons.prems(1) refl, of k]
  have "length (contents (eat q ?m)) \<le> length ks"
  proof (cases "contents q = []")
    case True
    with step(2) show ?thesis by simp
  next
    case False
    with Cons.prems(1,2) peek_progress have "0 < ?m" by auto
    moreover have "length (contents q) = ?m + length (contents (eat q ?m))"
      by (subst step(2) [symmetric]) simp
    moreover have "length (contents q) \<le> Suc (length ks)" using Cons.prems(3) by simp
    ultimately show ?thesis by linarith
  qed
  with Cons.IH [OF step(1)] Cons.prems(2) obtain q' where
    "transmit peek eat ks (eat q ?m) = (contents (eat q ?m), q')" "contents q' = []" by auto
  with step(2) show ?case by (simp add: Let_def)
qed

end

interpretation node_queue: byte_queue node_inv buffered chunk readok
proof unfold_locales
  fix q k
  assume inv: "node_inv q"
  show "chunk q = take (length (chunk q)) (buffered q)"
    using chunk_prefix(1,3) [OF inv] by simp
  show "buffered q \<noteq> [] \<Longrightarrow> chunk q \<noteq> []"
    using chunk_prefix(2) [OF inv] by simp
  assume k: "k \<le> length (buffered q)"
  then have "k < 2 ^ 32" using node_inv_size(2,4) [OF inv] by simp
  then have "unat (of_nat k :: u32) = k" by (simp add: unat_of_nat)
  with k have "of_nat k \<le> buffernode_canread q"
    by (simp add: word_le_nat_alt buffernode_canread_def)
  from buffernode_readok_drops [OF inv this] \<open>unat (of_nat k :: u32) = k\<close>
  show "node_inv (readok q k)" "buffered (readok q k) = drop k (buffered q)"
    by (auto simp: readok_def)
qed

section \<open>What the node guarantees\<close>

lemma buffernode_new_spec:
  assumes "len < LONG_MAX"
  shows "\<exists>n. buffernode_new junk len = ret n \<and> node_inv n \<and> buffered n = [] \<and>
    len \<le> bn_size n \<and> bn_in n = 0 \<and> bn_out n = 0 \<and> bn_next n = None"
proof -
  from next_power_pow2 [OF assms] obtain m where m: "m \<le> 31" "next_power len = ret (2 ^ m)" "len \<le> 2 ^ m"
    by blast
  let ?n = "\<lparr>bn_next = None, bn_size = 2 ^ m, bn_in = 0, bn_out = 0,
    bn_buf = map junk [0..<unat (2 ^ m :: u32)]\<rparr>"
  have "unat (2 ^ m :: u32) = 2 ^ m" using m(1) by (intro unat_pow2) simp
  then have "node_inv ?n" using m(1) by (intro node_invI [of m]) simp_all
  with m show ?thesis by (simp add: buffernode_new_def buffered_def)
qed

lemma fresh_node_full_room:
  assumes "node_inv n" "bn_in n = 0" "bn_out n = 0"
  shows "buffernode_canwrite n = bn_size n"
  using assms by (simp add: buffernode_canwrite_def)

text \<open>A concrete node for the witnesses: 64 bytes, the counters about to wrap.\<close>

definition sample_node :: buffer_node where
  "sample_node = \<lparr>bn_next = None, bn_size = 64, bn_in = 1, bn_out = - 2,
     bn_buf = [9] @ replicate 61 0 @ [7, 8]\<rparr>"

lemma sample_node_inv: "node_inv sample_node"
  by (rule node_invI [of 6]) (simp_all add: sample_node_def)

text \<open>
  The allocation size: for every request below \<open>LONG_MAX\<close> the doubling loop returns, and what it
  returns is the least power of two that is at least 64 and at least the request.
\<close>

theorem next_power_least:
  assumes "sz < LONG_MAX"
  shows "\<exists>k. 6 \<le> k \<and> k \<le> 31 \<and> next_power sz = ret (2 ^ k) \<and> sz \<le> 2 ^ k \<and>
    (k = 6 \<or> 2 ^ (k - 1) < sz)"
  using assms by (rule next_power_pow2)

theorem next_power_least_witness:
  "\<exists>k. 6 \<le> k \<and> k \<le> 31 \<and> next_power 100 = ret (2 ^ k) \<and> (100 :: u32) \<le> 2 ^ k \<and>
    (k = 6 \<or> (2 :: u32) ^ (k - 1) < 100)"
  by (rule next_power_least) simp

text \<open>
  C4. A write is all or nothing. When the data fits in the free room it is appended to the queue of
  bytes, for any position of the two counters, including a copy that wraps around the ring and
  counters that wrap around 32 bits; when it does not fit, the result is -1 and the node is unchanged.
\<close>

theorem buffernode_write_spec:
  assumes "node_inv n" and "unat sz \<le> length data"
  shows "if sz \<le> buffernode_canwrite n
    then \<exists>n'. buffernode_write n data sz = ret (0, n') \<and> node_inv n' \<and>
      buffered n' = buffered n @ take (unat sz) data
    else buffernode_write n data sz = ret (- 1, n)"
proof (cases "sz \<le> buffernode_canwrite n")
  case True
  with assms show ?thesis
    using buffernode_write_eq node_inv_written buffered_written by simp
next
  case False
  then show ?thesis by (simp add: buffernode_write_def Let_def buffernode_canwrite_def not_le)
qed

theorem buffernode_write_spec_witness:
  "\<exists>n'. buffernode_write sample_node [4, 5] 2 = ret (0, n') \<and> node_inv n' \<and>
     buffered n' = buffered sample_node @ take (unat (2 :: u32)) [4, 5]"
proof -
  have "(2 :: u32) \<le> buffernode_canwrite sample_node"
    by (simp add: buffernode_canwrite_def sample_node_def)
  with buffernode_write_spec [OF sample_node_inv, of 2 "[4, 5]"] show ?thesis by simp
qed

text \<open>
  C5. Sending drains the node in order: whatever positive lengths the transport accepts of the chunks
  that \<^verbatim>\<open>buffernode_startread\<close> hands out, acknowledged by \<^verbatim>\<open>buffernode_readok\<close>, the bytes that
  leave are exactly the buffered bytes in order, after at most as many sends as there are bytes.
\<close>

theorem node_transmit_all:
  assumes "node_inv n" and "\<forall>k\<in>set ks. 0 < k" and "length (buffered n) \<le> length ks"
  shows "\<exists>n'. transmit chunk readok ks n = (buffered n, n') \<and> buffered n' = []"
  using assms by (rule node_queue.transmit_drains)

theorem node_transmit_all_witness:
  "\<exists>n'. transmit chunk readok [1, 5, 1] sample_node = (buffered sample_node, n') \<and> buffered n' = []"
  by (rule node_transmit_all [OF sample_node_inv]) (simp_all add: sample_node_def)

text \<open>
  C15. The region handed out for a send is safe and is the front of the queue: it lies inside the
  buffer, it is not empty unless nothing is buffered, and it never exceeds what is buffered.
\<close>

theorem buffernode_startread_spec:
  assumes "node_inv n"
  shows "case buffernode_startread n of
      (len, None) \<Rightarrow> len = 0 \<and> buffered n = []
    | (len, Some pos) \<Rightarrow> 0 < len \<and> unat pos + unat len \<le> length (bn_buf n) \<and>
        take (unat len) (drop (unat pos) (bn_buf n)) = take (unat len) (buffered n) \<and>
        len \<le> buffernode_canread n"
proof (cases "bn_in n = bn_out n")
  case True
  then show ?thesis by (simp add: buffernode_startread_def buffered_def)
next
  case False
  from assms this obtain len pos where r: "buffernode_startread n = (len, Some pos)" "0 < unat len"
    "unat len \<le> unat (bn_in n - bn_out n)" "unat pos + unat len \<le> unat (bn_size n)"
    by (rule startread_region)
  with chunk_prefix(1) [OF assms] node_inv_size(3) [OF assms] show ?thesis
    by (simp add: chunk_def word_le_nat_alt word_less_nat_alt buffernode_canread_def)
qed

theorem buffernode_startread_spec_witness:
  "case buffernode_startread sample_node of
      (len, None) \<Rightarrow> len = 0 \<and> buffered sample_node = []
    | (len, Some pos) \<Rightarrow> 0 < len \<and> unat pos + unat len \<le> length (bn_buf sample_node) \<and>
        take (unat len) (drop (unat pos) (bn_buf sample_node)) = take (unat len) (buffered sample_node) \<and>
        len \<le> buffernode_canread sample_node"
  by (rule buffernode_startread_spec [OF sample_node_inv])

text \<open>Where \<^verbatim>\<open>buffernode_read\<close> splits its copy: the bytes up to the end of the array.\<close>

definition flat_part :: "buffer_node \<Rightarrow> u32 \<Rightarrow> nat" where
  "flat_part n sz = min (unat sz) (unat (bn_size n) - unat (bn_out n) mod unat (bn_size n))"

lemma read_split:
  assumes inv: "node_inv n" and sz: "sz \<le> buffernode_canread n"
  defines "pos \<equiv> bn_out n AND (bn_size n - 1)"
  defines "l \<equiv> CORE_MIN sz (bn_size n - pos)"
  shows "unat l = flat_part n sz" "unat pos + unat l \<le> length (bn_buf n)"
    "unat (sz - l) = unat sz - flat_part n sz" "unat l \<le> unat sz"
    "take (unat l) (drop (unat pos) (bn_buf n)) = take (unat l) (buffered n)"
proof -
  let ?N = "unat (bn_size n)"
  have N: "0 < ?N" "length (bn_buf n) = ?N" using node_inv_size [OF inv] by simp_all
  have pos: "unat pos = unat (bn_out n) mod ?N" "unat pos < ?N"
    using write_region(2) [OF inv] N(1) by (simp_all add: pos_def)
  then have "unat (bn_size n - pos) = ?N - unat pos" by (simp add: unat_sub word_le_nat_alt)
  then show l: "unat l = flat_part n sz"
    using pos(1) by (auto simp: l_def CORE_MIN_def word_less_nat_alt flat_part_def)
  then show "unat l \<le> unat sz" by (simp add: flat_part_def)
  then show "unat (sz - l) = unat sz - flat_part n sz"
    using l by (simp add: unat_sub word_le_nat_alt)
  show fits: "unat pos + unat l \<le> length (bn_buf n)"
    using l pos N(2) by (simp add: flat_part_def)
  have used: "unat l \<le> unat (bn_in n - bn_out n)"
    using l sz by (simp add: flat_part_def word_le_nat_alt buffernode_canread_def)
  show "take (unat l) (drop (unat pos) (bn_buf n)) = take (unat l) (buffered n)"
    using fits used N(2) pos(1) by (intro nth_equalityI) (simp_all add: buffered_nth)
qed

text \<open>
  \<^verbatim>\<open>buffernode_read\<close> on every branch. A request for more than is buffered returns -1. A request
  that does not cross the end of the array returns the front of the queue. A request that crosses it
  consumes the bytes but delivers the first ones a second time in place of the wrapped ones, because
  the second copy reads the destination; when the wrapped part is longer than the flat part the
  ranges overlap and the copy is undefined.
\<close>

theorem buffernode_read_spec:
  assumes "node_inv n" and "unat sz \<le> length data"
  shows "if buffernode_canread n < sz then buffernode_read n data sz = ret (- 1, n, data)
    else let l = flat_part n sz in
      if unat sz \<le> 2 * l
      then buffernode_read n data sz = ret (0, n\<lparr>bn_out := bn_out n + sz\<rparr>,
        take l (buffered n) @ take (unat sz - l) (buffered n) @ drop (unat sz) data)
      else buffernode_read n data sz = abort Overlap"
proof (cases "buffernode_canread n < sz")
  case True
  then show ?thesis by (simp add: buffernode_read_def Let_def buffernode_canread_def)
next
  case False
  then have sz: "sz \<le> buffernode_canread n" by simp
  define l where "l = flat_part n sz"
  define d where "d = take l (buffered n) @ drop l data"
  note split = read_split [OF assms(1) sz, folded l_def]
  have l: "l \<le> unat sz" "l \<le> length (buffered n)"
    using split(1,4) sz by (simp_all add: word_le_nat_alt buffernode_canread_def)
  have "buffernode_read n data sz = bnd (memcpy_within d l 0 (unat sz - l))
      (\<lambda>d. ret (0, n\<lparr>bn_out := bn_out n + sz\<rparr>, d))"
    using False split assms(2) l
    by (simp add: buffernode_read_def Let_def buffernode_canread_def memcpy_ok d_def)
  moreover have "memcpy_within d l 0 (unat sz - l) = (if unat sz \<le> 2 * l
      then ret (take l (buffered n) @ take (unat sz - l) (buffered n) @ drop (unat sz) data)
      else abort Overlap)"
    using l assms(2) by (auto simp: memcpy_within_def memcpy_def d_def)
  ultimately show ?thesis using False by (simp add: Let_def l_def [symmetric])
qed

theorem buffernode_read_spec_witness:
  "buffernode_read sample_node [0, 0, 0] 3 =
     ret (0, sample_node\<lparr>bn_out := 1\<rparr>, [7, 8, 7]) \<and> buffered sample_node = [7, 8, 9]"
proof -
  have three: "[0..<3] = [0, 1, 2 :: nat]" by (simp add: upt_rec)
  have c: "buffered sample_node = [7, 8, 9]"
    by (simp add: buffered_def sample_node_def three nth_append)
  have l: "flat_part sample_node 3 = 2" by (simp add: flat_part_def sample_node_def)
  have r: "buffernode_canread sample_node = 3" "bn_out sample_node = - 2"
    by (simp_all add: buffernode_canread_def sample_node_def)
  show ?thesis
    using buffernode_read_spec [OF sample_node_inv, of 3 "[0, 0, 0]"] c l r by (simp add: Let_def)
qed

end
