(* ===== verification/BufferChain.thy ===== *)
theory BufferChain
  imports CoreBuffer
begin

text \<open>
  The queue of buffer nodes of \<^verbatim>\<open>net/corebuffer.c\<close> (\<^verbatim>\<open>struct corebuffer\<close>): a singly linked chain
  in the heap with a head, a tail and a count. The heap maps addresses to nodes; a node that was
  freed is no longer in it. The lemmas show that the pushes append and prepend whole chains, that a
  pop takes the head, and what becomes of a queue whose count is never decremented.
\<close>

section \<open>The queue and its operations\<close>

type_synonym bheap = "nat \<rightharpoonup> buffer_node"

definition bn_at :: "bheap \<Rightarrow> nat option \<Rightarrow> buffer_node prog" where
  "bn_at h p = (case p of None \<Rightarrow> abort NullDeref
     | Some a \<Rightarrow> (case h a of None \<Rightarrow> abort WildPointer | Some n \<Rightarrow> ret n))"

definition buffernode_delete :: "bheap \<Rightarrow> nat option \<Rightarrow> bheap prog" where
  "buffernode_delete h p = bnd (assert_c (p \<noteq> None)) (\<lambda>_. bnd (bn_at h p) (\<lambda>_. ret (h(the p := None))))"

record corebuffer =
  cb_head :: "nat option"
  cb_tail :: "nat option"
  cb_lock :: u32
  cb_count :: u32

definition corebuffer_init :: corebuffer where
  "corebuffer_init = \<lparr>cb_head = None, cb_tail = None, cb_lock = 0, cb_count = 0\<rparr>"

text \<open>The loop that frees the chain reads \<open>cur->next\<close> before it tests \<open>cur\<close> for null.\<close>

partial_function (option) corebuffer_release_loop :: "bheap \<Rightarrow> nat option \<Rightarrow> bheap prog" where
  "corebuffer_release_loop h cur = bnd (bn_at h cur) (\<lambda>n.
     if cur = None then ret h
     else bnd (buffernode_delete h cur) (\<lambda>h. corebuffer_release_loop h (bn_next n)))"

definition corebuffer_releae :: "bheap \<Rightarrow> corebuffer \<Rightarrow> (bheap \<times> corebuffer) prog" where
  "corebuffer_releae h b = bnd (corebuffer_release_loop h (cb_head b)) (\<lambda>h.
     ret (h, b\<lparr>cb_head := None, cb_tail := None, cb_count := 0\<rparr>))"

text \<open>The walk to the last node of the chain that is pushed, counting its nodes.\<close>

partial_function (option) chain_end :: "bheap \<Rightarrow> nat \<Rightarrow> u32 \<Rightarrow> (nat \<times> u32) prog" where
  "chain_end h tail count = bnd (bn_at h (Some tail)) (\<lambda>n.
     case bn_next n of None \<Rightarrow> ret (tail, count) | Some p \<Rightarrow> chain_end h p (count + 1))"

definition set_bn_next :: "bheap \<Rightarrow> nat option \<Rightarrow> nat option \<Rightarrow> bheap prog" where
  "set_bn_next h p v = bnd (bn_at h p) (\<lambda>n. ret (h(the p \<mapsto> n\<lparr>bn_next := v\<rparr>)))"

definition corebuffer_pushback :: "bheap \<Rightarrow> corebuffer \<Rightarrow> nat \<Rightarrow> (bheap \<times> corebuffer) prog" where
  "corebuffer_pushback h b node = bnd (chain_end h node 1) (\<lambda>(tail, count).
     bnd (if cb_head b = None then ret (h, b\<lparr>cb_head := Some node\<rparr>)
          else bnd (set_bn_next h (cb_tail b) (Some node)) (\<lambda>h. ret (h, b))) (\<lambda>(h, b).
     ret (h, b\<lparr>cb_tail := Some tail, cb_count := cb_count b + count\<rparr>)))"

definition corebuffer_pushfront :: "bheap \<Rightarrow> corebuffer \<Rightarrow> nat \<Rightarrow> (bheap \<times> corebuffer) prog" where
  "corebuffer_pushfront h b node = bnd (chain_end h node 1) (\<lambda>(tail, count).
     bnd (if cb_tail b = None then ret (h, b\<lparr>cb_tail := Some tail\<rparr>)
          else bnd (set_bn_next h (Some tail) (cb_head b)) (\<lambda>h. ret (h, b))) (\<lambda>(h, b).
     ret (h, b\<lparr>cb_head := Some node, cb_count := cb_count b + count\<rparr>)))"

definition corebuffer_popfront :: "bheap \<Rightarrow> corebuffer \<Rightarrow> (nat option \<times> corebuffer) prog" where
  "corebuffer_popfront h b =
     (if cb_count b = 0 then ret (None, b)
      else bnd (bn_at h (cb_head b)) (\<lambda>n.
        let b' = b\<lparr>cb_head := bn_next n\<rparr>
        in ret (cb_head b, if cb_head b' = None then b'\<lparr>cb_tail := None\<rparr> else b')))"

text \<open>In this file the lock macros expand to nothing: the safe variants run the same statements.\<close>

definition corebuffer_pushback_safe :: "bheap \<Rightarrow> corebuffer \<Rightarrow> nat \<Rightarrow> (bheap \<times> corebuffer) prog" where
  "corebuffer_pushback_safe h b node = corebuffer_pushback h b node"

definition corebuffer_pushfront_safe :: "bheap \<Rightarrow> corebuffer \<Rightarrow> nat \<Rightarrow> (bheap \<times> corebuffer) prog" where
  "corebuffer_pushfront_safe h b node = corebuffer_pushfront h b node"

definition corebuffer_popfront_safe :: "bheap \<Rightarrow> corebuffer \<Rightarrow> (nat option \<times> corebuffer) prog" where
  "corebuffer_popfront_safe h b = corebuffer_popfront h b"

section \<open>Chains in the heap\<close>

primrec chain :: "bheap \<Rightarrow> nat option \<Rightarrow> nat list \<Rightarrow> bool" where
  "chain h p [] \<longleftrightarrow> p = None"
| "chain h p (x # xs) \<longleftrightarrow> p = Some x \<and> (\<exists>n. h x = Some n \<and> chain h (bn_next n) xs)"

definition queue_of :: "bheap \<Rightarrow> corebuffer \<Rightarrow> nat list \<Rightarrow> bool" where
  "queue_of h b xs \<longleftrightarrow> chain h (cb_head b) xs \<and>
     cb_tail b = (if xs = [] then None else Some (last xs))"

lemma bn_at_Some [simp]: "h a = Some n \<Longrightarrow> bn_at h (Some a) = ret n"
  by (simp add: bn_at_def)

lemma bn_at_None [simp]: "bn_at h None = abort NullDeref"
  by (simp add: bn_at_def)

lemma chain_unique: "chain h p xs \<Longrightarrow> chain h p ys \<Longrightarrow> xs = ys"
  by (induction xs arbitrary: p ys) (case_tac ys, auto)+

lemma chain_suffix: "chain h p (xs @ ys) \<Longrightarrow> \<exists>q. chain h q ys"
  by (induction xs arbitrary: p) auto

lemma chain_head_notin: "chain h p (x # xs) \<Longrightarrow> x \<notin> set xs"
proof
  assume c: "chain h p (x # xs)" and "x \<in> set xs"
  then obtain ys zs where xs: "xs = ys @ x # zs" by (auto simp: in_set_conv_decomp)
  with c obtain n where n: "h x = Some n" "chain h (bn_next n) (ys @ x # zs)" by auto
  from chain_suffix [OF n(2)] n(1) have "chain h (bn_next n) zs" by auto
  with n(2) have "ys @ x # zs = zs" by (rule chain_unique)
  then show False by (metis append_eq_append_conv2 length_append length_Cons add_Suc_right less_add_Suc2 less_irrefl)
qed

lemma chain_distinct: "chain h p xs \<Longrightarrow> distinct xs"
proof (induction xs arbitrary: p)
  case (Cons x xs)
  with chain_head_notin [OF Cons.prems] show ?case by auto
qed simp

lemma chain_upd [simp]: "x \<notin> set xs \<Longrightarrow> chain (h(x := v)) p xs = chain h p xs"
  by (induction xs arbitrary: p) auto

lemma chain_alloc: "chain h p xs \<Longrightarrow> x \<in> set xs \<Longrightarrow> \<exists>n. h x = Some n"
  by (induction xs arbitrary: p) auto

lemma chain_link:
  assumes "chain h p xs" "xs \<noteq> []" "chain h q ys" "set xs \<inter> set ys = {}" "h (last xs) = Some n"
  shows "chain (h(last xs \<mapsto> n\<lparr>bn_next := q\<rparr>)) p (xs @ ys)"
  using assms
proof (induction xs arbitrary: p)
  case (Cons x xs)
  show ?case
  proof (cases "xs = []")
    case True
    let ?h = "h(x \<mapsto> n\<lparr>bn_next := q\<rparr>)"
    have "chain ?h q ys" by (rule iffD2 [OF chain_upd]) (use Cons.prems in auto)
    moreover have "h(last (x # xs) \<mapsto> n\<lparr>bn_next := q\<rparr>) = ?h" using True by simp
    moreover have "?h x = Some (n\<lparr>bn_next := q\<rparr>)" "p = Some x" using Cons.prems(1) by simp_all
    ultimately show ?thesis unfolding True append.simps chain.simps
      by (metis buffer_node.select_convs(1) buffer_node.surjective buffer_node.update_convs(1))
  next
    case False
    have "x \<noteq> last xs"
      using chain_distinct [OF Cons.prems(1)] False last_in_set [OF False] by auto
    with Cons.IH [of _] Cons.prems False show ?thesis by auto
  qed
qed simp

lemma chain_end_spec:
  assumes "chain h (Some a) (a # xs)"
  shows "chain_end h a c = ret (last (a # xs), c + of_nat (length xs))"
  using assms
proof (induction xs arbitrary: a c)
  case Nil
  then show ?case by (subst chain_end.simps) auto
next
  case (Cons x xs)
  then obtain n where n: "h a = Some n" "bn_next n = Some x" "chain h (Some x) (x # xs)" by auto
  with Cons.IH [OF n(3), of "c + 1"] show ?case
    by (subst chain_end.simps) (simp add: ac_simps)
qed

lemma set_bn_next_Some: "h a = Some n \<Longrightarrow> set_bn_next h (Some a) v = ret (h(a \<mapsto> n\<lparr>bn_next := v\<rparr>))"
  by (simp add: set_bn_next_def)

section \<open>The operations on chains\<close>

lemma pushback_spec:
  assumes q: "queue_of h b xs" and node: "chain h (Some a) (a # ys)" and disj: "set xs \<inter> set (a # ys) = {}"
  shows "\<exists>h' b'. corebuffer_pushback h b a = ret (h', b') \<and> queue_of h' b' (xs @ a # ys) \<and>
    cb_count b' = cb_count b + of_nat (Suc (length ys))"
proof (cases "xs = []")
  case True
  with q node chain_end_spec [OF node, of 1] show ?thesis
    by (simp add: corebuffer_pushback_def queue_of_def)
next
  case False
  with q have c: "chain h (cb_head b) xs" "cb_tail b = Some (last xs)" "cb_head b \<noteq> None"
    by (auto simp: queue_of_def neq_Nil_conv)
  with False obtain n where n: "h (last xs) = Some n" using chain_alloc last_in_set by metis
  from chain_link [OF c(1) False node disj n] c chain_end_spec [OF node, of 1] set_bn_next_Some [of h "last xs" n] n False
  show ?thesis by (auto simp: corebuffer_pushback_def queue_of_def)
qed

lemma pushfront_spec:
  assumes q: "queue_of h b xs" and node: "chain h (Some a) (a # ys)" and disj: "set xs \<inter> set (a # ys) = {}"
  shows "\<exists>h' b'. corebuffer_pushfront h b a = ret (h', b') \<and> queue_of h' b' (a # ys @ xs) \<and>
    cb_count b' = cb_count b + of_nat (Suc (length ys))"
proof (cases "xs = []")
  case True
  with q node chain_end_spec [OF node, of 1] show ?thesis
    by (simp add: corebuffer_pushfront_def queue_of_def)
next
  case False
  with q have c: "chain h (cb_head b) xs" "cb_tail b = Some (last xs)" by (auto simp: queue_of_def)
  obtain n where n: "h (last (a # ys)) = Some n" using chain_alloc [OF node last_in_set] by blast
  have "chain (h(last (a # ys) \<mapsto> n\<lparr>bn_next := cb_head b\<rparr>)) (Some a) ((a # ys) @ xs)"
    by (rule chain_link [OF node _ c(1) _ n]) (use disj in auto)
  with c chain_end_spec [OF node, of 1] set_bn_next_Some [of h "last (a # ys)" n] n False
  show ?thesis by (simp add: corebuffer_pushfront_def queue_of_def)
qed

lemma popfront_spec:
  assumes q: "queue_of h b (x # xs)" and cnt: "cb_count b \<noteq> 0"
  shows "\<exists>b'. corebuffer_popfront h b = ret (Some x, b') \<and> queue_of h b' xs \<and> cb_count b' = cb_count b"
proof -
  from q obtain n where n: "cb_head b = Some x" "h x = Some n" "chain h (bn_next n) xs"
    by (auto simp: queue_of_def)
  have "bn_next n = None \<longleftrightarrow> xs = []" using n(3) by (cases xs) auto
  with n q cnt show ?thesis by (auto simp: corebuffer_popfront_def queue_of_def Let_def)
qed

fun pops :: "bheap \<Rightarrow> corebuffer \<Rightarrow> nat \<Rightarrow> (nat option list \<times> corebuffer) prog" where
  "pops h b 0 = ret ([], b)"
| "pops h b (Suc k) = bnd (corebuffer_popfront h b) (\<lambda>(p, b).
     bnd (pops h b k) (\<lambda>(ps, b). ret (p # ps, b)))"

lemma pops_all:
  assumes "queue_of h b xs" "cb_count b \<noteq> 0"
  shows "\<exists>b'. pops h b (length xs) = ret (map Some xs, b') \<and> queue_of h b' [] \<and> cb_count b' = cb_count b"
  using assms
proof (induction xs arbitrary: b)
  case (Cons x xs)
  from popfront_spec [OF Cons.prems] obtain b' where b':
    "corebuffer_popfront h b = ret (Some x, b')" "queue_of h b' xs" "cb_count b' = cb_count b" by blast
  with Cons.IH [of b'] Cons.prems(2) show ?case by auto
qed auto

lemma popfront_drained: "queue_of h b [] \<Longrightarrow> cb_count b \<noteq> 0 \<Longrightarrow> corebuffer_popfront h b = abort NullDeref"
  by (simp add: queue_of_def corebuffer_popfront_def)

lemma release_loop_faults: "chain h p xs \<Longrightarrow> corebuffer_release_loop h p = abort NullDeref"
proof (induction xs arbitrary: h p)
  case Nil
  then show ?case by (subst corebuffer_release_loop.simps) simp
next
  case (Cons x xs)
  then obtain n where n: "p = Some x" "h x = Some n" "chain h (bn_next n) xs" by auto
  have "chain (h(x := None)) (bn_next n) xs"
    by (rule iffD2 [OF chain_upd]) (use chain_head_notin [OF Cons.prems] n in auto)
  then have "corebuffer_release_loop (h(x := None)) (bn_next n) = abort NullDeref" by (rule Cons.IH)
  moreover have "corebuffer_release_loop h p = corebuffer_release_loop (h(x := None)) (bn_next n)"
    using n(1,2) by (subst corebuffer_release_loop.simps) (simp add: buffernode_delete_def)
  ultimately show ?case by (simp only:)
qed

section \<open>What the queue does\<close>

definition sample_heap :: bheap where
  "sample_heap = [1 \<mapsto> sample_node, 2 \<mapsto> sample_node\<lparr>bn_next := Some 3\<rparr>, 3 \<mapsto> sample_node]"

lemma sample_chain: "chain sample_heap (Some 2) (2 # [3])" "queue_of sample_heap corebuffer_init []"
  by (simp_all add: sample_heap_def sample_node_def queue_of_def corebuffer_init_def)

text \<open>
  C16. First in, first out: after a chain of nodes is pushed at the back, popping as often as there are
  nodes returns the old nodes and then the pushed ones, in order, and leaves the queue empty.
\<close>

theorem corebuffer_fifo:
  assumes "queue_of h b xs" and "chain h (Some a) (a # ys)" and "set xs \<inter> set (a # ys) = {}"
    and "cb_count b + of_nat (Suc (length ys)) \<noteq> 0"
  shows "\<exists>h' b' b''. corebuffer_pushback h b a = ret (h', b') \<and>
    pops h' b' (length (xs @ a # ys)) = ret (map Some (xs @ a # ys), b'') \<and> queue_of h' b'' []"
proof -
  from pushback_spec [OF assms(1-3)] obtain h' b' where b':
    "corebuffer_pushback h b a = ret (h', b')" "queue_of h' b' (xs @ a # ys)"
    "cb_count b' = cb_count b + of_nat (Suc (length ys))" by blast
  from pops_all [OF b'(2)] b'(3) assms(4) obtain b'' where
    "pops h' b' (length (xs @ a # ys)) = ret (map Some (xs @ a # ys), b'')" "queue_of h' b'' []" by metis
  with b'(1) show ?thesis by blast
qed

theorem corebuffer_fifo_witness:
  "\<exists>h' b' b''. corebuffer_pushback sample_heap corebuffer_init 2 = ret (h', b') \<and>
    pops h' b' (length ([] @ 2 # [3 :: nat])) = ret (map Some ([] @ 2 # [3]), b'') \<and> queue_of h' b'' []"
  by (rule corebuffer_fifo [OF sample_chain(2,1)]) (simp_all add: corebuffer_init_def)

text \<open>
  Pushing a chain at the front puts its nodes before the queued ones and keeps the tail.
\<close>

theorem corebuffer_pushfront_prepends:
  assumes "queue_of h b xs" and "chain h (Some a) (a # ys)" and "set xs \<inter> set (a # ys) = {}"
  shows "\<exists>h' b'. corebuffer_pushfront h b a = ret (h', b') \<and> queue_of h' b' (a # ys @ xs) \<and>
    cb_count b' = cb_count b + of_nat (Suc (length ys))"
  using assms by (rule pushfront_spec)

theorem corebuffer_pushfront_prepends_witness:
  "\<exists>h' b'. corebuffer_pushfront sample_heap corebuffer_init 2 = ret (h', b') \<and>
    queue_of h' b' (2 # [3] @ []) \<and> cb_count b' = cb_count corebuffer_init + of_nat (Suc (length [3::nat]))"
  by (rule corebuffer_pushfront_prepends [OF sample_chain(2,1)]) simp

text \<open>
  The count is never decremented, so emptiness is not seen: a queue into which anything was ever
  pushed, once drained, dereferences its null head at the next pop instead of returning null.
\<close>

theorem corebuffer_drained_pop_faults:
  assumes "queue_of h b xs" and "cb_count b \<noteq> 0"
  shows "\<exists>b'. pops h b (length xs) = ret (map Some xs, b') \<and> corebuffer_popfront h b' = abort NullDeref"
  using pops_all [OF assms] assms(2) popfront_drained by metis

theorem corebuffer_drained_pop_faults_witness:
  "\<exists>b'. pops sample_heap \<lparr>cb_head = Some 2, cb_tail = Some 3, cb_lock = 0, cb_count = 2\<rparr> (length [2, 3::nat])
      = ret (map Some [2, 3], b') \<and> corebuffer_popfront sample_heap b' = abort NullDeref"
  by (rule corebuffer_drained_pop_faults) (use sample_chain(1) in \<open>simp_all add: queue_of_def\<close>)

text \<open>
  Releasing a queue never completes: the loop reads the next pointer before the null test, so every
  well-formed queue, the empty one included, ends in a null dereference.
\<close>

theorem corebuffer_releae_faults:
  assumes "queue_of h b xs"
  shows "corebuffer_releae h b = abort NullDeref"
  using assms release_loop_faults [of h "cb_head b" xs] by (simp add: corebuffer_releae_def queue_of_def)

theorem corebuffer_releae_faults_witness: "corebuffer_releae sample_heap corebuffer_init = abort NullDeref"
  by (rule corebuffer_releae_faults [OF sample_chain(2)])

end
