(* ===== verification/CoreLogic.thy ===== *)
theory CoreLogic
  imports Prelude
begin

text \<open>
  Modules and logic objects: \<^verbatim>\<open>net/coremodule.c\<close>, \<^verbatim>\<open>net/modules.h\<close> and \<^verbatim>\<open>net/corelogic.c\<close>. The store maps the
  identifier of a logic object to the object through a power-of-two table that doubles when it is
  full. Its critical sections are taken as atomic, which the exclusion theorem of the lock's theory
  justifies; reference counts, identifiers and table sizes keep their 32 bits.
\<close>

section \<open>State\<close>

text \<open>
  \<open>lg_mod\<close> is an index into the table of modules, and \<open>None\<close> while the field has never been
  assigned; a callback is a number that the environment interprets, or null.
\<close>

record core_logic =
  lg_ref :: u32
  logic_id :: u32
  lg_mod :: "nat option"
  lg_inst :: nat
  lg_call :: "nat option"
  lg_cmd :: "nat option"
  lg_io :: nat

text \<open>The store, the logic objects that \<^verbatim>\<open>malloc\<close> returned, and whatever else the process holds.\<close>

record 'w logic_state =
  st_slot :: "nat option list"
  allocid :: u32
  slot_size :: u32
  lgcs :: "nat \<rightharpoonup> core_logic"
  lg_brk :: nat
  rest :: 'w

record 'w core_module =
  md_name :: string
  md_create :: "'w logic_state \<Rightarrow> (nat option \<times> 'w logic_state) prog"
  md_init :: "nat \<Rightarrow> nat \<Rightarrow> nat \<Rightarrow> 'w logic_state \<Rightarrow> (u32 \<times> 'w logic_state) prog"
  md_release :: "nat \<Rightarrow> 'w logic_state \<Rightarrow> 'w logic_state prog"

section \<open>Modules\<close>

text \<open>The table of modules ends with a null pointer; the result is the index of the module found.\<close>

fun query_loop :: "string \<Rightarrow> 'w core_module option list \<Rightarrow> nat \<Rightarrow> nat option prog" where
  "query_loop name [] i = abort OutOfBounds"
| "query_loop name (None # ms) i = ret None"
| "query_loop name (Some m # ms) i = (if name = md_name m then ret (Some i) else query_loop name ms (i + 1))"

definition coremodule_query :: "'w core_module option list \<Rightarrow> string \<Rightarrow> nat option prog" where
  "coremodule_query all_modules name = query_loop name all_modules 0"

section \<open>The store\<close>

definition DEFAULT_SLOT_SIZE :: u32 where
  "DEFAULT_SLOT_SIZE = 64"

definition slot_read :: "nat option list \<Rightarrow> nat \<Rightarrow> nat option prog" where
  "slot_read xs h = (if xs = [] then abort NullDeref else if h < length xs then ret (xs ! h) else abort OutOfBounds)"

definition slot_write :: "nat option list \<Rightarrow> nat \<Rightarrow> nat option \<Rightarrow> nat option list prog" where
  "slot_write xs h v = (if xs = [] then abort NullDeref else if h < length xs then ret (xs[h := v]) else abort OutOfBounds)"

definition lg_load :: "(nat \<rightharpoonup> core_logic) \<Rightarrow> nat option \<Rightarrow> core_logic prog" where
  "lg_load m p = (case p of None \<Rightarrow> abort NullDeref
     | Some a \<Rightarrow> (case m a of None \<Rightarrow> abort WildPointer | Some l \<Rightarrow> ret l))"

definition slot_hash :: "u32 \<Rightarrow> u32 \<Rightarrow> nat" where
  "slot_hash handle sz = unat (handle AND (sz - 1))"

fun resize_loop :: "(nat \<rightharpoonup> core_logic) \<Rightarrow> u32 \<Rightarrow> nat option list \<Rightarrow> nat option list \<Rightarrow> nat option list prog" where
  "resize_loop m sz [] newlist = ret newlist"
| "resize_loop m sz (p # ps) newlist =
     bnd (lg_load m p) (\<lambda>l.
     bnd (slot_write newlist (slot_hash (logic_id l) (sz * 2)) p) (\<lambda>newlist.
     resize_loop m sz ps newlist))"

text \<open>
  The size passed to \<^verbatim>\<open>malloc\<close> would wrap for \<open>2 ^ 30\<close> slots; that table, and the objects that fill the half of it that is copied, do
  not fit into the address space of a 32-bit process.
\<close>

definition corelogic_store_resize :: "'w logic_state \<Rightarrow> 'w logic_state prog" where
  "corelogic_store_resize st =
     (let new_sz = slot_size st;
          new_sz = (if new_sz > 0 then new_sz * 2 else DEFAULT_SLOT_SIZE);
          newlist = replicate (unat new_sz) None in
     bnd (resize_loop (lgcs st) (slot_size st) (take (unat (slot_size st)) (st_slot st)) newlist) (\<lambda>newlist.
     ret (st\<lparr>st_slot := newlist, slot_size := new_sz\<rparr>)))"

text \<open>One pass over the table from the next identifier on; \<open>None\<close> when every slot is taken.\<close>

function reg_scan :: "'w logic_state \<Rightarrow> nat \<Rightarrow> nat \<Rightarrow> (u32 \<times> 'w logic_state) option prog" where
  "reg_scan st lgc i =
     (if i < unat (slot_size st) then
        let handle = of_nat i + allocid st; hash = slot_hash handle (slot_size st) in
        bnd (slot_read (st_slot st) hash) (\<lambda>p.
        if p = None then
          bnd (lg_load (lgcs st) (Some lgc)) (\<lambda>l.
          bnd (slot_write (st_slot st) hash (Some lgc)) (\<lambda>slots.
          ret (Some (handle, st\<lparr>lgcs := (lgcs st)(lgc \<mapsto> l\<lparr>logic_id := handle\<rparr>), st_slot := slots, allocid := handle + 1\<rparr>))))
        else reg_scan st lgc (i + 1))
      else ret None)"
  by pat_completeness auto
termination by (relation "measure (\<lambda>(st, _, i). unat (slot_size st) - i)") auto

declare reg_scan.simps [simp del]

partial_function (option) reg_loop :: "'w logic_state \<Rightarrow> nat \<Rightarrow> (u32 \<times> 'w logic_state) prog" where
  "reg_loop st lgc =
     bnd (reg_scan st lgc 0) (\<lambda>r.
     case r of Some x \<Rightarrow> ret x
     | None \<Rightarrow> bnd (corelogic_store_resize st) (\<lambda>st. reg_loop st lgc))"

definition corelogic_store_reg :: "'w logic_state \<Rightarrow> nat option \<Rightarrow> (u32 \<times> 'w logic_state) prog" where
  "corelogic_store_reg st lgc =
     (case lgc of None \<Rightarrow> abort AssertionFailed | Some p \<Rightarrow> reg_loop st p)"

section \<open>Logic objects\<close>

definition corelogic_new ::
  "'w core_module option list \<Rightarrow> nat \<Rightarrow> string \<Rightarrow> nat \<Rightarrow> 'w logic_state \<Rightarrow> (nat option \<times> 'w logic_state) prog" where
  "corelogic_new all_modules io name param st =
     bnd (coremodule_query all_modules name) (\<lambda>mod_ix.
     case mod_ix of None \<Rightarrow> ret (None, st)
     | Some k \<Rightarrow>
       (case all_modules ! k of None \<Rightarrow> abort NullDeref
        | Some md \<Rightarrow>
          bnd (md_create md st) (\<lambda>(inst, st).
          case inst of None \<Rightarrow> ret (None, st)
          | Some inst \<Rightarrow>
            let p = lg_brk st;
                l = \<lparr>lg_ref = 1, logic_id = 0, lg_mod = None, lg_inst = inst, lg_call = None, lg_cmd = None, lg_io = io\<rparr> in
            bnd (corelogic_store_reg (st\<lparr>lgcs := (lgcs st)(p \<mapsto> l), lg_brk := p + 1\<rparr>) (Some p)) (\<lambda>(handle, st).
            bnd (md_init md inst p param st) (\<lambda>(r, st).
            ret (Some p, st))))))"

text \<open>\<open>cmds\<close> interprets a command handler.\<close>

definition corelogic_cmd ::
  "(nat \<Rightarrow> nat \<Rightarrow> u32 \<Rightarrow> nat \<Rightarrow> 'w logic_state \<Rightarrow> (u32 \<times> 'w logic_state) prog) \<Rightarrow>
   nat \<Rightarrow> u32 \<Rightarrow> nat \<Rightarrow> 'w logic_state \<Rightarrow> (u32 \<times> 'w logic_state) prog" where
  "corelogic_cmd cmds lgc cmd param st =
     bnd (lg_load (lgcs st) (Some lgc)) (\<lambda>l.
     case lg_cmd l of None \<Rightarrow> abort NullDeref | Some f \<Rightarrow> cmds f lgc cmd param st)"

text \<open>When no object has the identifier, the variable that is returned was never assigned.\<close>

definition corelogic_grub :: "u32 \<Rightarrow> 'w logic_state \<Rightarrow> (nat option \<times> 'w logic_state) prog" where
  "corelogic_grub ident st =
     bnd (slot_read (st_slot st) (slot_hash ident (slot_size st))) (\<lambda>p.
     case p of None \<Rightarrow> abort Uninitialised
     | Some a \<Rightarrow>
       bnd (lg_load (lgcs st) (Some a)) (\<lambda>l.
       if logic_id l = ident then ret (Some a, st\<lparr>lgcs := (lgcs st)(a \<mapsto> l\<lparr>lg_ref := lg_ref l + 1\<rparr>)\<rparr>)
       else abort Uninitialised))"

definition corelogic_release :: "'w core_module option list \<Rightarrow> nat \<Rightarrow> 'w logic_state \<Rightarrow> 'w logic_state prog" where
  "corelogic_release all_modules lgc st =
     bnd (lg_load (lgcs st) (Some lgc)) (\<lambda>l.
     let l = l\<lparr>lg_ref := lg_ref l - 1\<rparr>; st = st\<lparr>lgcs := (lgcs st)(lgc \<mapsto> l)\<rparr> in
     if lg_ref l = 0 then
       let hash = slot_hash (logic_id l) (slot_size st) in
       bnd (slot_read (st_slot st) hash) (\<lambda>thelgc.
       bnd (assert_c (thelgc = Some lgc)) (\<lambda>_.
       bnd (slot_write (st_slot st) hash None) (\<lambda>slots.
       let st = st\<lparr>st_slot := slots\<rparr> in
       (case lg_mod l of None \<Rightarrow> abort Uninitialised
        | Some k \<Rightarrow> (case all_modules ! k of None \<Rightarrow> abort NullDeref
          | Some md \<Rightarrow> bnd (md_release md (lg_inst l) st) (\<lambda>st. ret (st\<lparr>lgcs := (lgcs st)(lgc := None)\<rparr>)))))))
     else ret st)"

section \<open>Messages\<close>

text \<open>A message that was allocated, with the data it owns; deleting frees both.\<close>

record logic_msg =
  lm_sender :: u32
  lm_recver :: u32
  lm_session :: u32
  lm_sz :: u32
  lm_data :: nat

text \<open>
  The handler of a message; \<open>calls\<close> interprets the callback of the receiver. Freeing the message and
  its data (\<^verbatim>\<open>logicmsg_delete\<close>) ends the handler.
\<close>

definition logicmsg_new :: logic_msg where
  "logicmsg_new = \<lparr>lm_sender = 0, lm_recver = 0, lm_session = 0, lm_sz = 0, lm_data = 0\<rparr>"

definition default_logicmsg_handler ::
  "(nat \<Rightarrow> nat \<Rightarrow> nat \<Rightarrow> u32 \<Rightarrow> u32 \<Rightarrow> nat \<Rightarrow> u32 \<Rightarrow> 'w logic_state \<Rightarrow> 'w logic_state prog) \<Rightarrow>
   nat \<Rightarrow> logic_msg \<Rightarrow> 'w logic_state \<Rightarrow> 'w logic_state prog" where
  "default_logicmsg_handler calls io ctx st =
     bnd (corelogic_grub (lm_recver ctx) st) (\<lambda>(lgc, st).
     case lgc of None \<Rightarrow> ret st
     | Some a \<Rightarrow>
       bnd (lg_load (lgcs st) (Some a)) (\<lambda>l.
       case lg_call l of None \<Rightarrow> abort NullDeref
       | Some f \<Rightarrow> calls f io a (lm_sender ctx) (lm_session ctx) (lm_data ctx) (lm_sz ctx) st))"

section \<open>The table as a map\<close>

definition size_ok :: "u32 \<Rightarrow> nat option list \<Rightarrow> bool" where
  "size_ok sz xs \<longleftrightarrow> sz = 0 \<and> xs = [] \<or> (\<exists>k. 6 \<le> k \<and> k \<le> 30 \<and> sz = 2 ^ k \<and> length xs = 2 ^ k)"

definition ident_of :: "(nat \<rightharpoonup> core_logic) \<Rightarrow> nat \<Rightarrow> u32" where
  "ident_of m p = logic_id (the (m p))"

definition store_ok :: "'w logic_state \<Rightarrow> bool" where
  "store_ok st \<longleftrightarrow> size_ok (slot_size st) (st_slot st) \<and>
     (\<forall>h<length (st_slot st). \<forall>p. st_slot st ! h = Some p \<longrightarrow>
        p \<in> dom (lgcs st) \<and> slot_hash (ident_of (lgcs st) p) (slot_size st) = h)"

definition registry :: "'w logic_state \<Rightarrow> u32 \<rightharpoonup> nat" where
  "registry st ident = (if st_slot st = [] then None
     else case st_slot st ! slot_hash ident (slot_size st) of None \<Rightarrow> None
     | Some p \<Rightarrow> if ident_of (lgcs st) p = ident then Some p else None)"

lemma slot_hash_mod: "k < 32 \<Longrightarrow> slot_hash ident (2 ^ k) = unat ident mod 2 ^ k"
  by (simp add: slot_hash_def and_pow2_minus_1)

lemma store_ok_size:
  assumes "store_ok st" "st_slot st \<noteq> []"
  obtains k where "6 \<le> k" "k \<le> 30" "slot_size st = 2 ^ k" "length (st_slot st) = 2 ^ k"
  using assms by (auto simp: store_ok_def size_ok_def)

lemma store_ok_empty: "store_ok st \<Longrightarrow> st_slot st = [] \<longleftrightarrow> slot_size st = 0"
  by (auto simp: store_ok_def size_ok_def unat_pow2 [where 'a = 32] simp flip: unat_eq_zero)

lemma store_ok_at:
  "store_ok st \<Longrightarrow> h < length (st_slot st) \<Longrightarrow> st_slot st ! h = Some p \<Longrightarrow>
   p \<in> dom (lgcs st) \<and> slot_hash (ident_of (lgcs st) p) (slot_size st) = h"
  by (simp add: store_ok_def)

lemma lg_load_dom: "p \<in> dom m \<Longrightarrow> lg_load m (Some p) = ret (the (m p))"
  by (auto simp: lg_load_def)

text \<open>The copying loop of the resize, when the new positions are distinct.\<close>

lemma resize_loop_ok:
  assumes "\<And>q. q \<in> set ps \<Longrightarrow> \<exists>p. q = Some p \<and> p \<in> dom m"
    "\<And>q. q \<in> set ps \<Longrightarrow> slot_hash (ident_of m (the q)) (sz * 2) < length nl" "nl \<noteq> []"
    "inj_on (\<lambda>q. slot_hash (ident_of m (the q)) (sz * 2)) (set ps)" "distinct ps"
  shows "\<exists>nl'. resize_loop m sz ps nl = ret nl' \<and> length nl' = length nl \<and>
    (\<forall>q\<in>set ps. nl' ! slot_hash (ident_of m (the q)) (sz * 2) = q) \<and>
    (\<forall>h. h \<notin> (\<lambda>q. slot_hash (ident_of m (the q)) (sz * 2)) ` set ps \<longrightarrow> nl' ! h = nl ! h)"
  using assms
proof (induction ps arbitrary: nl)
  case (Cons q ps)
  let ?H = "\<lambda>q. slot_hash (ident_of m (the q)) (sz * 2)"
  obtain p where p: "q = Some p" "p \<in> dom m" using Cons.prems(1) [of q] by auto
  let ?nl = "nl[?H q := q]"
  have "resize_loop m sz (q # ps) nl = resize_loop m sz ps ?nl"
    using p Cons.prems(2) [of q] Cons.prems(3) by (simp add: lg_load_dom slot_write_def ident_of_def)
  moreover obtain nl' where nl': "resize_loop m sz ps ?nl = ret nl'" "length nl' = length ?nl"
    "\<And>r. r \<in> set ps \<Longrightarrow> nl' ! ?H r = r" "\<And>h. h \<notin> ?H ` set ps \<Longrightarrow> nl' ! h = ?nl ! h"
    using Cons.IH [of ?nl] Cons.prems by (force simp: inj_on_def)
  moreover have "?H q \<notin> ?H ` set ps" using Cons.prems(4,5) by (auto simp: inj_on_def)
  then have "nl' ! ?H q = q" using nl'(4) Cons.prems(2) [of q] by simp
  ultimately show ?case by auto
qed simp

lemma mod_double: "(x :: nat) mod (2 * n) = y mod (2 * n) \<Longrightarrow> x mod n = y mod n"
  by (metis mod_mod_cancel dvd_triv_right)

text \<open>
  A full table doubles: every object keeps its identifier and its place in the map, and there is room
  again.
\<close>

lemma resize_ok:
  assumes ok: "store_ok st" and full: "None \<notin> set (st_slot st)" and room: "unat (slot_size st) \<le> 2 ^ 29"
  shows "\<exists>st'. corelogic_store_resize st = ret st' \<and> store_ok st' \<and> registry st' = registry st \<and>
    lgcs st' = lgcs st \<and> None \<in> set (st_slot st') \<and> set (st_slot st') \<subseteq> insert None (set (st_slot st)) \<and>
    lg_brk st' = lg_brk st \<and> rest st' = rest st"
proof (cases "st_slot st = []")
  case True
  then have z: "slot_size st = 0" using store_ok_empty [OF ok] by simp
  let ?st = "st\<lparr>st_slot := replicate 64 None, slot_size := 64\<rparr>"
  have "corelogic_store_resize st = ret ?st"
    using True z by (simp add: corelogic_store_resize_def DEFAULT_SLOT_SIZE_def)
  moreover have "size_ok 64 (replicate 64 (None :: nat option))"
    unfolding size_ok_def by (intro disjI2 exI [of _ 6]) simp
  then have "store_ok ?st" by (simp add: store_ok_def)
  moreover have "slot_hash i 64 < 64" for i using slot_hash_mod [of 6 i] by simp
  then have "registry ?st = registry st" using True by (simp add: registry_def fun_eq_iff)
  ultimately show ?thesis by (intro exI [of _ ?st]) auto
next
  case False
  obtain k where k: "6 \<le> k" "slot_size st = 2 ^ k" "length (st_slot st) = 2 ^ k" and k30: "k \<le> 30"
    using store_ok_size [OF ok False] by metis
  have "k \<noteq> 30" using room k(2) unat_pow2 [where 'a = 32, of 30] by auto
  then have k29: "k \<le> 29" using k30 by simp
  have u: "unat (2 ^ k :: u32) = 2 ^ k" by (rule unat_pow2) (use k29 in simp)
  have sz2: "slot_size st * 2 = 2 ^ Suc k" using k(2) by simp
  have u2: "unat (2 ^ Suc k :: u32) = 2 ^ Suc k" by (rule unat_pow2) (use k29 in simp)
  let ?m = "lgcs st" and ?xs = "st_slot st"
  let ?H = "\<lambda>q. slot_hash (ident_of ?m (the q)) (slot_size st * 2)"
  have H: "?H q = unat (ident_of ?m (the q)) mod 2 ^ Suc k" for q
    unfolding sz2 by (rule slot_hash_mod) (use k29 in simp)
  have h: "slot_hash i (slot_size st) = unat i mod 2 ^ k" for i
    unfolding k(2) by (rule slot_hash_mod) (use k29 in simp)
  have at: "p \<in> dom ?m \<and> unat (ident_of ?m p) mod 2 ^ k = j" if "j < 2 ^ k" "?xs ! j = Some p" for j p
    using store_ok_at [OF ok, of j p] that k(3) h by simp
  have elem: "\<exists>p j. q = Some p \<and> j < 2 ^ k \<and> ?xs ! j = q" if q: "q \<in> set ?xs" for q
  proof -
    obtain j where "j < length ?xs" "?xs ! j = q" using q by (meson in_set_conv_nth)
    moreover obtain p where "q = Some p" using q full by (metis option.exhaust)
    ultimately show ?thesis using k(3) by auto
  qed
  have same: "q = r" if "q \<in> set ?xs" "r \<in> set ?xs" "unat (ident_of ?m (the q)) mod 2 ^ k = unat (ident_of ?m (the r)) mod 2 ^ k" for q r
    using elem [OF that(1)] elem [OF that(2)] at that(3) by (metis option.sel)
  have inj: "inj_on ?H (set ?xs)"
    by (rule inj_onI, rule same) (auto simp: H intro: mod_double)
  have dis: "distinct ?xs"
    unfolding distinct_conv_nth using at elem nth_mem k(3) by (metis option.sel)
  obtain nl where nl: "resize_loop ?m (slot_size st) ?xs (replicate (2 ^ Suc k) None) = ret nl" "length nl = 2 ^ Suc k"
    "\<And>q. q \<in> set ?xs \<Longrightarrow> nl ! ?H q = q" "\<And>j. j \<notin> ?H ` set ?xs \<Longrightarrow> nl ! j = replicate (2 ^ Suc k) None ! j"
    using resize_loop_ok [of ?xs ?m "slot_size st" "replicate (2 ^ Suc k) None"] elem at inj dis H by fastforce
  let ?st = "st\<lparr>st_slot := nl, slot_size := 2 ^ Suc k\<rparr>"
  have res: "corelogic_store_resize st = ret ?st"
  proof -
    have pos: "slot_size st > 0" using u by (auto simp: word_greater_zero_iff k(2) simp flip: unat_eq_zero)
    have "corelogic_store_resize st =
        bnd (resize_loop ?m (slot_size st) (take (unat (slot_size st)) ?xs) (replicate (2 ^ Suc k) None))
          (\<lambda>nl. ret (st\<lparr>st_slot := nl, slot_size := 2 ^ Suc k\<rparr>))"
      using pos by (simp only: corelogic_store_resize_def Let_def if_True sz2 u2)
    moreover have "take (unat (slot_size st)) ?xs = ?xs" using k u by simp
    ultimately show ?thesis using nl(1) by simp
  qed
  have entry: "\<exists>q\<in>set ?xs. ?H q = j \<and> q = nl ! j" if "j < 2 ^ Suc k" "nl ! j \<noteq> None" for j
  proof -
    have "j \<in> ?H ` set ?xs"
    proof (rule ccontr)
      assume out: "j \<notin> ?H ` set ?xs"
      have "nl ! j = None" using nl(4) [OF out] that(1) by (simp only: nth_replicate)
      with that(2) show False ..
    qed
    then obtain q where q: "q \<in> set ?xs" "j = ?H q" by (rule imageE) simp
    show ?thesis by (rule bexI [OF _ q(1)]) (simp add: q(2) nl(3) [OF q(1)])
  qed
  have ok': "store_ok ?st"
    unfolding store_ok_def
  proof (intro conjI allI impI)
    show "size_ok (slot_size ?st) (st_slot ?st)"
      unfolding size_ok_def by (intro disjI2 exI [of _ "Suc k"]) (use k(1) k29 nl(2) in simp)
    fix j p assume j: "j < length (st_slot ?st)" and p: "st_slot ?st ! j = Some p"
    then obtain q where q: "q \<in> set ?xs" "?H q = j" "q = Some p" using entry [of j] nl(2) by auto
    then show "p \<in> dom (lgcs ?st)" using elem [OF q(1)] at by auto
    show "slot_hash (ident_of (lgcs ?st) p) (slot_size ?st) = j" using q sz2 by simp
  qed
  have reg: "registry ?st i = registry st i" for i
  proof -
    have i': "slot_hash i (2 ^ Suc k) = unat i mod 2 ^ Suc k" by (rule slot_hash_mod) (use k29 in simp)
    obtain p0 where p0: "?xs ! (unat i mod 2 ^ k) = Some p0"
      using full k(3) nth_mem [of "unat i mod 2 ^ k" ?xs] by (cases "?xs ! (unat i mod 2 ^ k)") auto
    let ?h = "unat i mod 2 ^ Suc k"
    have hlt: "?h < 2 ^ Suc k" by simp
    have p0_in: "Some p0 \<in> set ?xs" using p0 k(3) nth_mem [of "unat i mod 2 ^ k" ?xs] by simp
    have only: "p = p0" if p: "nl ! ?h = Some p" for p
    proof -
      obtain q where q: "q \<in> set ?xs" "?H q = ?h" "q = Some p" using entry [OF hlt] p by auto
      have "unat (ident_of ?m p) mod 2 ^ k = unat i mod 2 ^ k"
        using q(2,3) H [of q] mod_double [of "unat (ident_of ?m p)" "2 ^ k" "unat i"] by simp
      moreover have "unat (ident_of ?m p0) mod 2 ^ k = unat i mod 2 ^ k" using at p0 by simp
      ultimately show ?thesis using same [OF q(1) p0_in] q(3) by simp
    qed
    have here: "nl ! ?h = Some p0" if "ident_of ?m p0 = i" using nl(3) [OF p0_in] H [of "Some p0"] that by simp
    have new: "registry ?st i = (case nl ! ?h of None \<Rightarrow> None | Some p \<Rightarrow> if ident_of ?m p = i then Some p else None)"
      using nl(2) i' by (auto simp: registry_def split: option.splits)
    have old: "registry st i = (if ident_of ?m p0 = i then Some p0 else None)"
      using False h [of i] p0 by (simp add: registry_def)
    show ?thesis unfolding new old using only here by (cases "nl ! ?h") auto
  qed
  have "None \<in> set nl"
  proof (rule ccontr)
    assume no: "None \<notin> set nl"
    have "{..<2 ^ Suc k} \<subseteq> ?H ` set ?xs"
    proof
      fix j :: nat assume "j \<in> {..<2 ^ Suc k}"
      then have j: "j < 2 ^ Suc k" by (simp only: lessThan_iff)
      then have "nl ! j \<in> set nl" using nl(2) by (simp only: nth_mem)
      then have "nl ! j \<noteq> None" using no by metis
      then obtain q where "q \<in> set ?xs" "?H q = j" using entry [OF j] by blast
      then show "j \<in> ?H ` set ?xs" by (intro image_eqI [of _ _ q]) simp_all
    qed
    then have "card {..<(2 :: nat) ^ Suc k} \<le> card (?H ` set ?xs)" by (intro card_mono) simp_all
    also have "\<dots> \<le> card (set ?xs)" by (rule card_image_le) simp
    also have "\<dots> \<le> 2 ^ k" using card_length [of ?xs] k(3) by simp
    finally show False by simp
  qed
  moreover have "set nl \<subseteq> insert None (set ?xs)"
  proof
    fix q assume "q \<in> set nl"
    then obtain j where "j < length nl" "nl ! j = q" by (meson in_set_conv_nth)
    then show "q \<in> insert None (set ?xs)" using entry [of j] nl(2) by (cases q) auto
  qed
  ultimately show ?thesis using res ok' reg by (intro exI [of _ ?st]) (auto simp: fun_eq_iff)
qed

section \<open>Registration\<close>

definition placed :: "'w logic_state \<Rightarrow> nat \<Rightarrow> u32 \<Rightarrow> 'w logic_state" where
  "placed st lgc handle = st\<lparr>lgcs := (lgcs st)(lgc \<mapsto> (the (lgcs st lgc))\<lparr>logic_id := handle\<rparr>),
     st_slot := (st_slot st)[slot_hash handle (slot_size st) := Some lgc], allocid := handle + 1\<rparr>"

lemma reg_scan_cases:
  assumes sz: "slot_size st = 2 ^ k" "length (st_slot st) = 2 ^ k" "k \<le> 30" and p: "p \<in> dom (lgcs st)"
  shows "(\<exists>j. i \<le> j \<and> j < 2 ^ k \<and> st_slot st ! slot_hash (of_nat j + allocid st) (slot_size st) = None \<and>
      reg_scan st p i = ret (Some (of_nat j + allocid st, placed st p (of_nat j + allocid st)))) \<or>
    reg_scan st p i = ret None \<and> (\<forall>j. i \<le> j \<and> j < 2 ^ k \<longrightarrow> st_slot st ! slot_hash (of_nat j + allocid st) (slot_size st) \<noteq> None)"
proof (induction "2 ^ k - i" arbitrary: i)
  case 0
  have "unat (slot_size st) = 2 ^ k" unfolding sz(1) by (rule unat_pow2) (use sz(3) in simp)
  then show ?case using 0 by (subst (1 2) reg_scan.simps) auto
next
  case (Suc d)
  have u: "unat (slot_size st) = 2 ^ k" unfolding sz(1) by (rule unat_pow2) (use sz(3) in simp)
  have lt: "slot_hash x (slot_size st) < 2 ^ k" for x
    unfolding sz(1) using slot_hash_mod [of k x] sz(3) by simp
  have i: "i < 2 ^ k" using Suc.hyps(2) by simp
  let ?h = "slot_hash (of_nat i + allocid st) (slot_size st)"
  have ne: "st_slot st \<noteq> []" using sz(2) by auto
  show ?case
  proof (cases "st_slot st ! ?h")
    case None
    then have "reg_scan st p i = ret (Some (of_nat i + allocid st, placed st p (of_nat i + allocid st)))"
      using u i lt sz(2) ne p by (subst reg_scan.simps) (simp add: Let_def slot_read_def slot_write_def lg_load_dom placed_def)
    with None i show ?thesis by auto
  next
    case (Some q)
    then have step: "reg_scan st p i = reg_scan st p (i + 1)"
      using u i lt sz(2) ne by (subst reg_scan.simps) (simp add: Let_def slot_read_def)
    have d: "d = 2 ^ k - (i + 1)" using Suc.hyps(2) by simp
    have not_i: "j \<noteq> i" if "st_slot st ! slot_hash (of_nat j + allocid st) (slot_size st) = None" for j
      using that Some by auto
    have hit: "j = i \<or> i + 1 \<le> j" if "i \<le> j" for j using that by auto
    from Suc.hyps(1) [OF d] show ?thesis
    proof (elim disjE exE conjE)
      fix j assume "i + 1 \<le> j" "j < 2 ^ k" "st_slot st ! slot_hash (of_nat j + allocid st) (slot_size st) = None"
        "reg_scan st p (i + 1) = ret (Some (of_nat j + allocid st, placed st p (of_nat j + allocid st)))"
      then show ?thesis unfolding step by (intro disjI1 exI [of _ j]) simp
    next
      assume none: "reg_scan st p (i + 1) = ret None"
        "\<forall>j. i + 1 \<le> j \<and> j < 2 ^ k \<longrightarrow> st_slot st ! slot_hash (of_nat j + allocid st) (slot_size st) \<noteq> None"
      then show ?thesis unfolding step using hit not_i by blast
    qed
  qed
qed

text \<open>The scan visits every slot.\<close>

lemma hash_onto:
  assumes "h < 2 ^ k" "k \<le> 30" "sz = 2 ^ k"
  shows "\<exists>j<2 ^ k. slot_hash (of_nat j + a) sz = h"
proof -
  let ?d = "(of_nat h - a) :: u32"
  let ?j = "unat ?d mod 2 ^ k"
  have "unat (of_nat h :: u32) = h"
    using assms(1,2) power_increasing [of k 30 "2 :: nat"] by (simp add: unat_of_nat take_bit_nat_eq_self)
  have "slot_hash (of_nat ?j + a) sz = unat (of_nat ?j + a) mod 2 ^ k"
    unfolding assms(3) by (rule slot_hash_mod) (use assms(2) in simp)
  also have "\<dots> = (unat (of_nat ?j :: u32) + unat a) mod 2 ^ k"
    by (rule unat_add_mod_pow2) (use assms(2) in simp)
  also have "unat (of_nat ?j :: u32) = ?j"
    using assms(2) power_increasing [of k 30 "2 :: nat"] mod_less_divisor [of "2 ^ k" "unat ?d"]
    by (simp add: unat_of_nat take_bit_nat_eq_self del: mod_less_divisor)
  also have "(?j + unat a) mod 2 ^ k = (unat a + unat ?d) mod 2 ^ k" by (metis add.commute mod_add_left_eq)
  also have "\<dots> = unat (of_nat h :: u32) mod 2 ^ k"
    by (rule unat_add_diff_mod_pow2) (use assms(2) in simp)
  finally show ?thesis using \<open>unat (of_nat h :: u32) = h\<close> assms(1) by (intro exI [of _ ?j]) simp
qed

lemma placed_ok:
  assumes ok: "store_ok st" and p: "p \<in> dom (lgcs st)" "Some p \<notin> set (st_slot st)"
    and k: "slot_size st = 2 ^ k" "length (st_slot st) = 2 ^ k" "k \<le> 30"
    and free: "st_slot st ! slot_hash handle (slot_size st) = None"
  shows "store_ok (placed st p handle)" "registry (placed st p handle) = (registry st)(handle \<mapsto> p)"
    "registry st handle = None"
proof -
  let ?h = "slot_hash handle (slot_size st)" and ?st = "placed st p handle"
  have lt: "slot_hash x (slot_size st) < 2 ^ k" for x
    unfolding k(1) using slot_hash_mod [of k x] k(3) by simp
  have ids: "ident_of (lgcs ?st) q = (if q = p then handle else ident_of (lgcs st) q)" for q
    by (simp add: placed_def ident_of_def)
  have at: "st_slot ?st ! j = (if j = ?h then Some p else st_slot st ! j)" if "j < 2 ^ k" for j
    using that k(2) by (simp add: placed_def)
  have sizes: "slot_size ?st = slot_size st" "length (st_slot ?st) = 2 ^ k" "dom (lgcs ?st) = dom (lgcs st)"
    using p(1) k(2) by (auto simp: placed_def)
  have other: "q \<noteq> p" if "j < 2 ^ k" "st_slot st ! j = Some q" for j q
    using that p(2) k(2) nth_mem [of j "st_slot st"] by auto
  show "registry st handle = None" using free k(2) by (simp add: registry_def)
  show "store_ok ?st"
    unfolding store_ok_def sizes
  proof (intro conjI allI impI)
    show "size_ok (slot_size st) (st_slot ?st)" using ok k(2) sizes(2) by (auto simp: store_ok_def size_ok_def)
    fix j q assume j: "j < 2 ^ k" "st_slot ?st ! j = Some q"
    show "q \<in> dom (lgcs st)" "slot_hash (ident_of (lgcs ?st) q) (slot_size st) = j"
      using j at [OF j(1)] p(1) store_ok_at [OF ok, of j q] other [OF j(1), of q] k(2) by (auto simp: ids split: if_splits)
  qed
  show "registry ?st = (registry st)(handle \<mapsto> p)"
  proof
    fix i
    let ?j = "slot_hash i (slot_size st)"
    have ne: "st_slot ?st \<noteq> []" "st_slot st \<noteq> []" using sizes(2) k(2) by auto
    show "registry ?st i = ((registry st)(handle \<mapsto> p)) i"
    proof (cases "?j = ?h")
      case True
      then show ?thesis using ne at [OF lt] free by (auto simp: registry_def sizes ids)
    next
      case False
      then have "i \<noteq> handle" by auto
      then show ?thesis
        using ne at [OF lt, of i] False other [OF lt, of i] by (auto simp: registry_def sizes ids split: option.splits)
    qed
  qed
qed

text \<open>A table with a free slot: the scan finds one.\<close>

lemma reg_scan_free:
  assumes ok: "store_ok st" and p: "p \<in> dom (lgcs st)" "Some p \<notin> set (st_slot st)" and free: "None \<in> set (st_slot st)"
  shows "\<exists>handle. reg_scan st p 0 = ret (Some (handle, placed st p handle)) \<and> store_ok (placed st p handle) \<and>
    registry (placed st p handle) = (registry st)(handle \<mapsto> p) \<and> registry st handle = None"
proof -
  have "st_slot st \<noteq> []" using free by auto
  then obtain k where k: "k \<le> 30" "slot_size st = 2 ^ k" "length (st_slot st) = 2 ^ k"
    using store_ok_size [OF ok] by metis
  obtain h where "h < 2 ^ k" "st_slot st ! h = None" using free k(3) by (metis in_set_conv_nth)
  then obtain j where "j < 2 ^ k" "st_slot st ! slot_hash (of_nat j + allocid st) (slot_size st) = None"
    using hash_onto [OF _ k(1,2), of h "allocid st"] by metis
  then obtain j where "st_slot st ! slot_hash (of_nat j + allocid st) (slot_size st) = None"
      "reg_scan st p 0 = ret (Some (of_nat j + allocid st, placed st p (of_nat j + allocid st)))"
    using reg_scan_cases [OF k(2,3,1) p(1), of 0] by blast
  then show ?thesis using placed_ok [OF ok p k(2,3,1)] by blast
qed

lemma reg_scan_full:
  assumes ok: "store_ok st" and p: "p \<in> dom (lgcs st)" and full: "None \<notin> set (st_slot st)"
  shows "reg_scan st p 0 = ret None"
proof (cases "st_slot st = []")
  case True
  then have "unat (slot_size st) = 0" using store_ok_empty [OF ok] by simp
  then show ?thesis by (subst reg_scan.simps) simp
next
  case False
  then obtain k where k: "k \<le> 30" "slot_size st = 2 ^ k" "length (st_slot st) = 2 ^ k"
    using store_ok_size [OF ok] by metis
  have "slot_hash x (slot_size st) < length (st_slot st)" for x
    unfolding k(2,3) using slot_hash_mod [of k x] k(1) by simp
  then have "st_slot st ! slot_hash x (slot_size st) \<noteq> None" for x
    using full nth_mem by metis
  then show ?thesis using reg_scan_cases [OF k(2,3,1) p, of 0] by blast
qed

lemma resize_size:
  "corelogic_store_resize st = ret st' \<Longrightarrow> slot_size st' = (if slot_size st = 0 then DEFAULT_SLOT_SIZE else slot_size st * 2)"
  by (auto simp: corelogic_store_resize_def Let_def bnd_eq_ret word_greater_zero_iff)

lemma register_grows:
  assumes "store_ok st" "p \<in> dom (lgcs st)" "Some p \<notin> set (st_slot st)" "unat (slot_size st) \<le> 2 ^ 29"
  shows "\<exists>handle st'. corelogic_store_reg st (Some p) = ret (handle, st') \<and> store_ok st' \<and>
    registry st handle = None \<and> registry st' = (registry st)(handle \<mapsto> p) \<and>
    lgcs st' = (lgcs st)(p \<mapsto> (the (lgcs st p))\<lparr>logic_id := handle\<rparr>) \<and> rest st' = rest st \<and>
    slot_size st' = (if None \<in> set (st_slot st) then slot_size st
      else if slot_size st = 0 then DEFAULT_SLOT_SIZE else slot_size st * 2)"
proof (cases "None \<in> set (st_slot st)")
  case True
  obtain handle where "reg_scan st p 0 = ret (Some (handle, placed st p handle))" "store_ok (placed st p handle)"
    "registry (placed st p handle) = (registry st)(handle \<mapsto> p)" "registry st handle = None"
    using reg_scan_free [OF assms(1-3) True] by blast
  moreover from this(1) have "corelogic_store_reg st (Some p) = ret (handle, placed st p handle)"
    by (simp add: corelogic_store_reg_def reg_loop.simps [of st p])
  ultimately show ?thesis using True by (auto simp: placed_def)
next
  case False
  obtain st1 where st1: "corelogic_store_resize st = ret st1" "store_ok st1" "registry st1 = registry st"
    "lgcs st1 = lgcs st" "None \<in> set (st_slot st1)" "set (st_slot st1) \<subseteq> insert None (set (st_slot st))" "rest st1 = rest st"
    using resize_ok [OF assms(1) False assms(4)] by blast
  have "p \<in> dom (lgcs st1)" "Some p \<notin> set (st_slot st1)" using st1(4,6) assms(2,3) by auto
  then obtain handle where h: "reg_scan st1 p 0 = ret (Some (handle, placed st1 p handle))" "store_ok (placed st1 p handle)"
    "registry (placed st1 p handle) = (registry st1)(handle \<mapsto> p)" "registry st1 handle = None"
    using reg_scan_free [OF st1(2) _ _ st1(5)] by blast
  have "corelogic_store_reg st (Some p) = ret (handle, placed st1 p handle)"
    using reg_scan_full [OF assms(1,2) False] st1(1) h(1)
    by (simp add: corelogic_store_reg_def reg_loop.simps [of st p] reg_loop.simps [of st1 p])
  with h st1(3,4,7) resize_size [OF st1(1)] False show ?thesis by (auto simp: placed_def)
qed

lemma register_ok:
  assumes "store_ok st" "p \<in> dom (lgcs st)" "Some p \<notin> set (st_slot st)" "unat (slot_size st) \<le> 2 ^ 29"
  shows "\<exists>handle st'. corelogic_store_reg st (Some p) = ret (handle, st') \<and> store_ok st' \<and>
    registry st handle = None \<and> registry st' = (registry st)(handle \<mapsto> p) \<and>
    lgcs st' = (lgcs st)(p \<mapsto> (the (lgcs st p))\<lparr>logic_id := handle\<rparr>) \<and> rest st' = rest st"
  using register_grows [OF assms] by metis

text \<open>
  C28. Registering a logic object returns, gives it an identifier no registered object has and adds exactly that pair to the map from
  identifiers to objects; nothing that was registered is lost when the table is rehashed. The identifier is stored in the object,
  and no other object changes. The table keeps its size when it has a free slot, and is doubled once, or given its first 64 slots, when it has none.
\<close>

theorem corelogic_store_reg_spec:
  assumes "store_ok st" "p \<in> dom (lgcs st)" "Some p \<notin> set (st_slot st)" "unat (slot_size st) \<le> 2 ^ 29"
  shows "\<exists>handle st'. corelogic_store_reg st (Some p) = ret (handle, st') \<and> store_ok st' \<and>
    registry st handle = None \<and> registry st' = (registry st)(handle \<mapsto> p) \<and>
    lgcs st' = (lgcs st)(p \<mapsto> (the (lgcs st p))\<lparr>logic_id := handle\<rparr>) \<and> rest st' = rest st \<and>
    slot_size st' = (if None \<in> set (st_slot st) then slot_size st
      else if slot_size st = 0 then DEFAULT_SLOT_SIZE else slot_size st * 2)"
  using assms by (rule register_grows)

lemma slot_hash_length: "store_ok st \<Longrightarrow> st_slot st \<noteq> [] \<Longrightarrow> slot_hash i (slot_size st) < length (st_slot st)"
proof -
  assume "store_ok st" "st_slot st \<noteq> []"
  then obtain k where k: "k \<le> 30" "slot_size st = 2 ^ k" "length (st_slot st) = 2 ^ k"
    using store_ok_size by metis
  then show ?thesis using slot_hash_mod [of k i] by simp
qed

text \<open>A first registration in the store as the process starts with it.\<close>

definition store_one :: "unit logic_state" where
  "store_one = \<lparr>st_slot = [], allocid = 0, slot_size = 0,
     lgcs = [0 \<mapsto> \<lparr>lg_ref = 1, logic_id = 0, lg_mod = None, lg_inst = 5, lg_call = Some 3, lg_cmd = None, lg_io = 0\<rparr>],
     lg_brk = 1, rest = ()\<rparr>"

lemma store_one_ok: "store_ok store_one" "0 \<in> dom (lgcs store_one)" "Some 0 \<notin> set (st_slot store_one)"
  "unat (slot_size store_one) \<le> 2 ^ 29" "registry store_one = Map.empty"
  by (simp_all add: store_one_def store_ok_def size_ok_def registry_def fun_eq_iff)

theorem corelogic_store_reg_spec_witness:
  "\<exists>handle st'. corelogic_store_reg store_one (Some 0) = ret (handle, st') \<and> store_ok st' \<and> registry st' = [handle \<mapsto> 0] \<and>
     slot_size st' = 64"
proof -
  obtain handle st' where "corelogic_store_reg store_one (Some 0) = ret (handle, st')" "store_ok st'" "registry st' = [handle \<mapsto> 0]"
    "slot_size st' = (if None \<in> set (st_slot store_one) then slot_size store_one
      else if slot_size store_one = 0 then DEFAULT_SLOT_SIZE else slot_size store_one * 2)"
    using corelogic_store_reg_spec [OF store_one_ok(1-4)] store_one_ok(5) by metis
  then show ?thesis by (auto simp: store_one_def DEFAULT_SLOT_SIZE_def)
qed

lemma registry_Some:
  assumes ok: "store_ok st" and r: "registry st ident = Some p"
  shows "st_slot st \<noteq> []" "slot_hash ident (slot_size st) < length (st_slot st)"
    "st_slot st ! slot_hash ident (slot_size st) = Some p" "p \<in> dom (lgcs st)" "ident_of (lgcs st) p = ident"
proof -
  show ne: "st_slot st \<noteq> []" using r by (auto simp: registry_def)
  show lt: "slot_hash ident (slot_size st) < length (st_slot st)" by (rule slot_hash_length [OF ok ne])
  show at: "st_slot st ! slot_hash ident (slot_size st) = Some p" "ident_of (lgcs st) p = ident"
    using r by (auto simp: registry_def split: option.splits if_splits)
  show "p \<in> dom (lgcs st)" using store_ok_at [OF ok lt at(1)] by simp
qed

definition add_ref :: "'w logic_state \<Rightarrow> nat \<Rightarrow> 'w logic_state" where
  "add_ref st p = st\<lparr>lgcs := (lgcs st)(p \<mapsto> (the (lgcs st p))\<lparr>lg_ref := lg_ref (the (lgcs st p)) + 1\<rparr>)\<rparr>"

lemma grub_registered:
  assumes ok: "store_ok st" and r: "registry st ident = Some p"
  shows "corelogic_grub ident st = ret (Some p, add_ref st p)"
  using registry_Some [OF ok r]
  by (simp add: corelogic_grub_def slot_read_def lg_load_dom ident_of_def add_ref_def)

text \<open>
  Looking an identifier up finds exactly the object registered under it and takes a reference; for
  an identifier nobody has, the function returns a variable it never assigned, and before the first
  registration it reads through a null table.
\<close>

theorem corelogic_grub_spec:
  assumes ok: "store_ok st"
  shows "corelogic_grub ident st =
    (if slot_size st = 0 then abort NullDeref
     else case registry st ident of Some p \<Rightarrow> ret (Some p, add_ref st p) | None \<Rightarrow> abort Uninitialised)"
proof (cases "slot_size st = 0")
  case True
  then show ?thesis using store_ok_empty [OF ok] by (simp add: corelogic_grub_def slot_read_def)
next
  case False
  then have ne: "st_slot st \<noteq> []" using store_ok_empty [OF ok] by simp
  let ?h = "slot_hash ident (slot_size st)"
  have lt: "?h < length (st_slot st)" by (rule slot_hash_length [OF ok ne])
  show ?thesis
  proof (cases "st_slot st ! ?h")
    case None
    then show ?thesis using False ne lt by (simp add: corelogic_grub_def slot_read_def registry_def)
  next
    case (Some p)
    then have "p \<in> dom (lgcs st)" using store_ok_at [OF ok lt] by simp
    then show ?thesis using Some False ne lt
      by (simp add: corelogic_grub_def slot_read_def registry_def lg_load_dom ident_of_def add_ref_def)
  qed
qed

text \<open>On the empty store, where it faults.\<close>

theorem corelogic_grub_spec_witness: "corelogic_grub 7 store_one = abort NullDeref"
  using corelogic_grub_spec [OF store_one_ok(1), of 7] by (simp add: store_one_def)

text \<open>
  Register, then look up: the object comes back under the identifier it was given, with one more
  reference, and every object registered before is still found.
\<close>

theorem register_then_grub:
  assumes "store_ok st" "p \<in> dom (lgcs st)" "Some p \<notin> set (st_slot st)" "unat (slot_size st) \<le> 2 ^ 29"
  shows "\<exists>handle st'. corelogic_store_reg st (Some p) = ret (handle, st') \<and>
    corelogic_grub handle st' = ret (Some p, add_ref st' p) \<and>
    (\<forall>i q. registry st i = Some q \<longrightarrow> corelogic_grub i st' = ret (Some q, add_ref st' q))"
proof -
  obtain handle st' where r: "corelogic_store_reg st (Some p) = ret (handle, st')" "store_ok st'"
    "registry st handle = None" "registry st' = (registry st)(handle \<mapsto> p)"
    using register_ok [OF assms] by blast
  have g: "corelogic_grub i st' = ret (Some q, add_ref st' q)" if "registry st' i = Some q" for i q
    using grub_registered [OF r(2) that] .
  moreover have "registry st' i = Some q" if "registry st i = Some q" for i q using that r(3,4) by auto
  ultimately show ?thesis using r by auto
qed

theorem register_then_grub_witness:
  "\<exists>handle st'. corelogic_store_reg store_one (Some 0) = ret (handle, st') \<and>
    corelogic_grub handle st' = ret (Some 0, add_ref st' 0)"
  using register_then_grub [OF store_one_ok(1-4)] by metis

lemma release_last:
  assumes "store_ok st" "registry st ident = Some p" "lgcs st p = Some l" "lg_mod l = None" "lg_ref l = 1"
  shows "corelogic_release mods p st = abort Uninitialised"
proof -
  note R = registry_Some [OF assms(1,2)]
  have "logic_id l = ident" using R(5) assms(3) by (simp add: ident_of_def)
  then show ?thesis using R(1-3) assms(3-5)
    by (auto simp: corelogic_release_def lg_load_def Let_def slot_read_def slot_write_def)
qed

lemma release_other:
  "lgcs st p = Some l \<Longrightarrow> lg_ref l \<noteq> 1 \<Longrightarrow>
   corelogic_release mods p st = ret (st\<lparr>lgcs := (lgcs st)(p \<mapsto> l\<lparr>lg_ref := lg_ref l - 1\<rparr>)\<rparr>)"
  by (simp add: corelogic_release_def lg_load_def Let_def)

text \<open>
  Dropping the last reference of a registered object never completes: its \<^verbatim>\<open>mod\<close> field is read, and no
  code assigns it; with other references left, the count goes down and nothing else changes.
\<close>

theorem corelogic_release_spec:
  assumes "store_ok st" "registry st ident = Some p" "lgcs st p = Some l" "lg_mod l = None"
  shows "corelogic_release mods p st =
    (if lg_ref l = 1 then abort Uninitialised
     else ret (st\<lparr>lgcs := (lgcs st)(p \<mapsto> l\<lparr>lg_ref := lg_ref l - 1\<rparr>)\<rparr>))"
  using release_last [OF assms] release_other [OF assms(3)] by simp

text \<open>After the registration of the witness above.\<close>

theorem corelogic_release_spec_witness:
  "\<exists>handle st'. corelogic_store_reg store_one (Some 0) = ret (handle, st') \<and>
     corelogic_release [] 0 st' = abort Uninitialised"
proof -
  obtain handle st' where r: "corelogic_store_reg store_one (Some 0) = ret (handle, st')" "store_ok st'"
    "registry st' = [handle \<mapsto> 0]" "lgcs st' = (lgcs store_one)(0 \<mapsto> (the (lgcs store_one 0))\<lparr>logic_id := handle\<rparr>)"
    using register_ok [OF store_one_ok(1-4)] store_one_ok(5) by metis
  have "corelogic_release [] 0 st' = abort Uninitialised"
    using corelogic_release_spec [OF r(2), of handle 0 "(the (lgcs store_one 0))\<lparr>logic_id := handle\<rparr>" "[]"] r(3,4)
    by (simp add: store_one_def)
  with r(1) show ?thesis by blast
qed

text \<open>
  A message is delivered to the callback of the registered receiver with one more reference on it,
  and the handler ends with the state the callback leaves: the reference is never given back.
\<close>

theorem default_logicmsg_handler_spec:
  assumes "store_ok st" "registry st (lm_recver ctx) = Some p" "lgcs st p = Some l" "lg_call l = Some f"
  shows "default_logicmsg_handler calls io ctx st =
    calls f io p (lm_sender ctx) (lm_session ctx) (lm_data ctx) (lm_sz ctx) (add_ref st p)"
  using grub_registered [OF assms(1,2)] assms(3,4)
  by (simp add: default_logicmsg_handler_def add_ref_def lg_load_def)

theorem default_logicmsg_handler_spec_witness:
  "\<exists>handle st'. corelogic_store_reg store_one (Some 0) = ret (handle, st') \<and>
     default_logicmsg_handler (\<lambda>f io a sender session data sz st. ret st) 0 (logicmsg_new\<lparr>lm_recver := handle\<rparr>) st' = ret (add_ref st' 0)"
proof -
  obtain handle st' where r: "corelogic_store_reg store_one (Some 0) = ret (handle, st')" "store_ok st'"
    "registry st' = [handle \<mapsto> 0]" "lgcs st' = (lgcs store_one)(0 \<mapsto> (the (lgcs store_one 0))\<lparr>logic_id := handle\<rparr>)"
    using register_ok [OF store_one_ok(1-4)] store_one_ok(5) by metis
  have "default_logicmsg_handler (\<lambda>f io a sender session data sz st. ret st) 0 (logicmsg_new\<lparr>lm_recver := handle\<rparr>) st' = ret (add_ref st' 0)"
    using default_logicmsg_handler_spec [OF r(2), of "logicmsg_new\<lparr>lm_recver := handle\<rparr>" 0] r(3,4)
    by (simp add: store_one_def)
  with r(1) show ?thesis by blast
qed

section \<open>Creating\<close>

lemma corelogic_new_registers:
  assumes "coremodule_query mods name = ret (Some k)" "mods ! k = Some md" "md_create md st0 = ret (Some inst, st)"
    "store_ok st" "\<forall>a\<ge>lg_brk st. a \<notin> dom (lgcs st)" "unat (slot_size st) \<le> 2 ^ 29"
  shows "\<exists>handle st'. registry st handle = None \<and> registry st' = (registry st)(handle \<mapsto> lg_brk st) \<and> store_ok st' \<and>
    rest st' = rest st \<and>
    lgcs st' (lg_brk st) = Some \<lparr>lg_ref = 1, logic_id = handle, lg_mod = None, lg_inst = inst, lg_call = None, lg_cmd = None, lg_io = io\<rparr> \<and>
    corelogic_new mods io name param st0 = bnd (md_init md inst (lg_brk st) param st') (\<lambda>(r, s). ret (Some (lg_brk st), s))"
proof -
  define l where "l = \<lparr>lg_ref = 1, logic_id = 0, lg_mod = None, lg_inst = inst, lg_call = None, lg_cmd = None, lg_io = io\<rparr>"
  let ?p = "lg_brk st"
  define st1 where "st1 = st\<lparr>lgcs := (lgcs st)(?p \<mapsto> l), lg_brk := Suc ?p\<rparr>"
  have new: "?p \<notin> dom (lgcs st)" using assms(5) by blast
  have at: "q \<in> dom (lgcs st)" if "j < length (st_slot st)" "st_slot st ! j = Some q" for j q
    using store_ok_at [OF assms(4) that] by simp
  have ids: "ident_of (lgcs st1) q = ident_of (lgcs st) q" if "q \<noteq> ?p" for q using that by (simp add: st1_def ident_of_def)
  have ok1: "store_ok st1" "Some ?p \<notin> set (st_slot st1)" "?p \<in> dom (lgcs st1)" "unat (slot_size st1) \<le> 2 ^ 29"
  proof -
    show "Some ?p \<notin> set (st_slot st1)"
    proof
      assume "Some ?p \<in> set (st_slot st1)"
      then obtain j where "j < length (st_slot st)" "st_slot st ! j = Some ?p" by (auto simp: st1_def in_set_conv_nth)
      then show False using at new by blast
    qed
    show "store_ok st1"
      unfolding store_ok_def
    proof (intro conjI allI impI)
      show "size_ok (slot_size st1) (st_slot st1)" using assms(4) by (simp add: st1_def store_ok_def)
      fix j q assume j: "j < length (st_slot st1)" "st_slot st1 ! j = Some q"
      then have q: "q \<in> dom (lgcs st)" "q \<noteq> ?p" using at [of j q] new by (auto simp: st1_def)
      then show "q \<in> dom (lgcs st1)" by (simp add: st1_def)
      show "slot_hash (ident_of (lgcs st1) q) (slot_size st1) = j"
        using store_ok_at [OF assms(4), of j q] j ids [OF q(2)] by (simp add: st1_def)
    qed
    show "?p \<in> dom (lgcs st1)" "unat (slot_size st1) \<le> 2 ^ 29" using assms(6) by (simp_all add: st1_def)
  qed
  have reg1: "registry st1 = registry st"
  proof
    fix i
    show "registry st1 i = registry st i"
    proof (cases "st_slot st = []")
      case False
      then have lt: "slot_hash i (slot_size st) < length (st_slot st)" by (rule slot_hash_length [OF assms(4)])
      have "q \<noteq> ?p" if "st_slot st ! slot_hash i (slot_size st) = Some q" for q using at [OF lt that] new by blast
      then show ?thesis by (auto simp: registry_def st1_def ident_of_def split: option.splits)
    qed (simp add: registry_def st1_def)
  qed
  obtain handle st' where r: "corelogic_store_reg st1 (Some ?p) = ret (handle, st')" "store_ok st'"
    "registry st1 handle = None" "registry st' = (registry st1)(handle \<mapsto> ?p)"
    "lgcs st' = (lgcs st1)(?p \<mapsto> (the (lgcs st1 ?p))\<lparr>logic_id := handle\<rparr>)" "rest st' = rest st1"
    using register_ok [OF ok1(1,3,2,4)] by blast
  have "corelogic_new mods io name param st0 = bnd (md_init md inst ?p param st') (\<lambda>(r, s). ret (Some ?p, s))"
    using assms(1-3) r(1) by (simp add: corelogic_new_def Let_def l_def [symmetric] st1_def [symmetric])
  then show ?thesis using r reg1 by (intro exI [of _ handle] exI [of _ st']) (simp add: st1_def l_def)
qed

text \<open>
  Creating a logic object: an unknown module, or one whose \<^verbatim>\<open>create\<close> fails, gives null and registers nothing; otherwise
  the object is registered, with one reference, before the module's \<^verbatim>\<open>init\<close> runs on it, and it is returned whatever
  \<^verbatim>\<open>init\<close> answers.
\<close>

theorem corelogic_new_spec:
  assumes "coremodule_query mods name = ret q" "md_create md st0 = ret (i, st)" "\<And>k. q = Some k \<Longrightarrow> mods ! k = Some md"
    "store_ok st" "\<forall>a\<ge>lg_brk st. a \<notin> dom (lgcs st)" "unat (slot_size st) \<le> 2 ^ 29"
  shows "case q of None \<Rightarrow> corelogic_new mods io name param st0 = ret (None, st0)
    | Some k \<Rightarrow> (case i of None \<Rightarrow> corelogic_new mods io name param st0 = ret (None, st)
      | Some inst \<Rightarrow> (\<exists>handle st'. registry st handle = None \<and> registry st' = (registry st)(handle \<mapsto> lg_brk st) \<and> store_ok st' \<and>
          lgcs st' (lg_brk st) = Some \<lparr>lg_ref = 1, logic_id = handle, lg_mod = None, lg_inst = inst, lg_call = None, lg_cmd = None, lg_io = io\<rparr> \<and>
          corelogic_new mods io name param st0 = bnd (md_init md inst (lg_brk st) param st') (\<lambda>(r, s). ret (Some (lg_brk st), s))))"
proof (cases q)
  case None
  then show ?thesis using assms(1) by (simp add: corelogic_new_def)
next
  case (Some k)
  note k = Some
  show ?thesis
  proof (cases i)
    case None
    then show ?thesis using assms(1-3) k by (simp add: corelogic_new_def)
  next
    case (Some inst)
    then show ?thesis using corelogic_new_registers [of mods name k md st0 inst st io param] assms k by auto
  qed
qed

definition echo_module :: "unit core_module" where
  "echo_module = \<lparr>md_name = ''echo'', md_create = (\<lambda>st. ret (Some 5, st)), md_init = (\<lambda>inst lgc param st. ret (- 1, st)),
     md_release = (\<lambda>inst st. ret st)\<rparr>"

text \<open>A module whose \<^verbatim>\<open>init\<close> reports a failure, which nobody sees.\<close>

theorem corelogic_new_spec_witness:
  "\<exists>handle st'. corelogic_new [Some echo_module, None] 0 ''echo'' 9 store_one = ret (Some 1, st') \<and> registry st' handle = Some 1"
proof -
  have "coremodule_query [Some echo_module, None] ''echo'' = ret (Some 0)" by (simp add: coremodule_query_def echo_module_def)
  from corelogic_new_spec [OF this, of echo_module store_one "Some 5" store_one 0 9] show ?thesis
    by (auto simp: echo_module_def store_one_def store_ok_def size_ok_def)
qed

end
