(* ===== verification/CoreSocket.thy ===== *)
theory CoreSocket
  imports BufferChain CorePoller CoreLogic
begin

text \<open>
  The socket server of \<^verbatim>\<open>net/coresocket.c\<close>: a table of \<open>2 ^ 16\<close> sockets, each with an identifier, a
  reference count of pending operations and two operation contexts that the completion port hands
  back. The state of the server is the \<open>rest\<close> of the state of the logic store, so the reports go through
  the lookup, the poller and the release that the code calls. Winsock and the heap's fresh
  memory are the parameter \<open>E\<close>; its own state is \<open>os\<close>, with the calling thread's last error in it.
\<close>

section \<open>State\<close>

datatype socket_type =
    SOCKET_TYPE_INVALID
  | SOCKET_TYPE_RESERVE
  | SOCKET_TYPE_PLISTEN
  | SOCKET_TYPE_LISTEN
  | SOCKET_TYPE_CONNECTING
  | SOCKET_TYPE_CONNECTED
  | SOCKET_TYPE_HALFCLOSE
  | SOCKET_TYPE_PACCEPT
  | SOCKET_TYPE_BIND

text \<open>The handlers a context can carry; \<open>None\<close> is null.\<close>

datatype sock_call = Call_ev_listen | Call_connect | Call_ev_send | Call_ev_recv

text \<open>
  The union of a context: zeroed memory, a pointer to a socket of the table, a pointer to a buffer node, or
  the two addresses that \<^verbatim>\<open>AcceptEx\<close> stores in \<^verbatim>\<open>buf\<close>.
\<close>

datatype ctx_union = CZero | CSock nat | CNode nat | CAddrs nat nat

record socket_ctx =
  sc_call :: "sock_call option"
  sc_ready :: u32
  sc_u :: ctx_union

record socket =
  so_id :: u32
  so_logic :: u32
  so_fd :: u32
  read_op :: socket_ctx
  write_op :: socket_ctx
  so_type :: socket_type
  so_pending :: u32
  closing :: u32
  r_byte :: u32
  w_byte :: u32
  read_size :: u32
  read_buf :: corebuffer
  write_buf :: corebuffer
  so_local :: nat
  so_remote :: nat

datatype socketmsg_type = socketmsg_accept | socketmsg_connect | socketmsg_recv | socketmsg_socketerr | socketmsg_max

text \<open>The union of a message holds the listener's identifier, and \<open>None\<close> while nothing was stored in it.\<close>

record socket_msg =
  sm_type :: socketmsg_type
  sm_id :: u32
  sm_err :: u32
  sm_listenid :: "u32 option"

record corebuf =
  cbuf_data :: bytes
  cbuf_size :: u32

text \<open>
  The server: its table, the pollers of the process and the one it owns, and the blocks that the
  functions allocate.
\<close>

record 'o net =
  ss_alloc_id :: u32
  ss_slot :: "nat \<Rightarrow> socket"
  IO :: "nat option"
  pollers :: "nat \<rightharpoonup> core_poller"
  msgs :: "nat \<rightharpoonup> logic_msg"
  sdata :: "nat \<rightharpoonup> socket_msg"
  bufs :: bheap
  brk :: nat
  os :: 'o

type_synonym ('o, 'z) nst = "('o, 'z) net_scheme logic_state"

text \<open>What the server calls of the system.\<close>

datatype ext_fn = TransmitFile | AcceptEx | GetAcceptExSockaddrs | TransmitPackets | ConnectEx | DisconnectEx | WSARecvMsg

record 'o winsock =
  WSASetLastError :: "u32 \<Rightarrow> 'o \<Rightarrow> 'o"
  WSAGetLastError :: "'o \<Rightarrow> u32"
  WSAStartup :: "'o \<Rightarrow> 'o"
  WSACleanup :: "'o \<Rightarrow> 'o"
  WSAIoctl :: "u32 \<Rightarrow> ext_fn \<Rightarrow> 'o \<Rightarrow> 'o"
  WSASocket :: "'o \<Rightarrow> u32 \<times> 'o"
  closesocket :: "u32 \<Rightarrow> 'o \<Rightarrow> 'o"
  inet_addr :: "string \<Rightarrow> u32"
  sys_reuse :: "u32 \<Rightarrow> 'o \<Rightarrow> u32 \<times> 'o"
  sys_accept_context :: "u32 \<Rightarrow> u32 \<Rightarrow> 'o \<Rightarrow> 'o"
  sys_bind :: "u32 \<Rightarrow> u32 \<Rightarrow> 16 word \<Rightarrow> 'o \<Rightarrow> u32 \<times> 'o"
  sys_listen :: "u32 \<Rightarrow> u32 \<Rightarrow> 'o \<Rightarrow> u32 \<times> 'o"
  sys_acceptex :: "u32 \<Rightarrow> u32 \<Rightarrow> nat \<Rightarrow> 'o \<Rightarrow> 'o"
  sys_connectex :: "u32 \<Rightarrow> u32 \<Rightarrow> 16 word \<Rightarrow> nat \<Rightarrow> 'o \<Rightarrow> 'o"
  sys_send :: "u32 \<Rightarrow> bytes \<Rightarrow> nat \<Rightarrow> 'o \<Rightarrow> 'o"
  sys_recv :: "u32 \<Rightarrow> u32 \<Rightarrow> nat \<Rightarrow> 'o \<Rightarrow> 'o"
  sys_cancel :: "u32 \<Rightarrow> 'o \<Rightarrow> 'o"
  sys_shutdown :: "u32 \<Rightarrow> 'o \<Rightarrow> 'o"
  sys_new_port :: "'o \<Rightarrow> bool \<times> 'o"
  sys_join_port :: "u32 \<Rightarrow> nat \<Rightarrow> nat \<Rightarrow> 'o \<Rightarrow> bool \<times> 'o"
  sys_post :: "'o \<Rightarrow> u32 \<times> 'o"
  sys_time :: "'o \<Rightarrow> u64"
  junk_word :: "'o \<Rightarrow> u32"
  junk_bytes :: "'o \<Rightarrow> nat \<Rightarrow> u8"

section \<open>Access to the state\<close>

abbreviation INVALID_SOCKET :: u32 where
  "INVALID_SOCKET \<equiv> - 1"

abbreviation WSA_IO_PENDING :: u32 where
  "WSA_IO_PENDING \<equiv> 997"

definition MAX_SOCKET :: nat where
  "MAX_SOCKET = 65536"

definition HASH_ID :: "u32 \<Rightarrow> nat" where
  "HASH_ID ident = unat (ident AND 0xFFFF)"

definition onnet :: "(('o, 'z) net_scheme \<Rightarrow> ('o, 'z) net_scheme) \<Rightarrow> ('o, 'z) nst \<Rightarrow> ('o, 'z) nst" where
  "onnet f st = st\<lparr>rest := f (rest st)\<rparr>"

definition sock :: "('o, 'z) nst \<Rightarrow> nat \<Rightarrow> socket" where
  "sock st i = ss_slot (rest st) i"

definition mod_sock :: "nat \<Rightarrow> (socket \<Rightarrow> socket) \<Rightarrow> ('o, 'z) nst \<Rightarrow> ('o, 'z) nst" where
  "mod_sock i f = onnet (\<lambda>n. n\<lparr>ss_slot := (ss_slot n)(i := f (ss_slot n i))\<rparr>)"

definition onos :: "('o \<Rightarrow> 'o) \<Rightarrow> ('o, 'z) nst \<Rightarrow> ('o, 'z) nst" where
  "onos f = onnet (\<lambda>n. n\<lparr>os := f (os n)\<rparr>)"

definition callos :: "('o \<Rightarrow> 'a \<times> 'o) \<Rightarrow> ('o, 'z) nst \<Rightarrow> 'a \<times> ('o, 'z) nst" where
  "callos f st = (case f (os (rest st)) of (x, s) \<Rightarrow> (x, onos (\<lambda>_. s) st))"

definition last_error :: "('o, 'e) winsock_scheme \<Rightarrow> ('o, 'z) nst \<Rightarrow> u32" where
  "last_error E st = WSAGetLastError E (os (rest st))"

datatype ctx_sel = RD | WR

fun get_ctx :: "ctx_sel \<Rightarrow> socket \<Rightarrow> socket_ctx" where
  "get_ctx RD s = read_op s"
| "get_ctx WR s = write_op s"

fun map_ctx :: "ctx_sel \<Rightarrow> (socket_ctx \<Rightarrow> socket_ctx) \<Rightarrow> socket \<Rightarrow> socket" where
  "map_ctx RD f s = s\<lparr>read_op := f (read_op s)\<rparr>"
| "map_ctx WR f s = s\<lparr>write_op := f (write_op s)\<rparr>"

text \<open>The two contexts of a socket are told apart by the address of their \<^verbatim>\<open>OVERLAPPED\<close>.\<close>

fun op_of :: "nat \<Rightarrow> ctx_sel \<Rightarrow> nat" where
  "op_of i RD = 2 * i"
| "op_of i WR = 2 * i + 1"

definition get_ss :: "('o, 'z) nst \<Rightarrow> nat prog" where
  "get_ss st = (case IO (rest st) of None \<Rightarrow> abort AssertionFailed | Some io \<Rightarrow> ret io)"

text \<open>
  What a member of the union reads as; bytes of another member make no valid pointer. The fault is placed at the read; the code dereferences the
  pointer it read a few lines later, on every path.
\<close>

fun ctx_newsock :: "ctx_union \<Rightarrow> nat option prog" where
  "ctx_newsock CZero = ret None"
| "ctx_newsock (CSock i) = ret (Some i)"
| "ctx_newsock (CNode a) = abort WildPointer"
| "ctx_newsock (CAddrs a b) = abort WildPointer"

fun ctx_buffer :: "ctx_union \<Rightarrow> nat option prog" where
  "ctx_buffer CZero = ret None"
| "ctx_buffer (CNode a) = ret (Some a)"
| "ctx_buffer (CSock i) = abort WildPointer"
| "ctx_buffer (CAddrs a b) = abort WildPointer"

definition ctx_zero :: socket_ctx where
  "ctx_zero = \<lparr>sc_call = None, sc_ready = 0, sc_u = CZero\<rparr>"

definition socket_zero :: socket where
  "socket_zero = \<lparr>so_id = 0, so_logic = 0, so_fd = 0, read_op = ctx_zero, write_op = ctx_zero, so_type = SOCKET_TYPE_INVALID,
     so_pending = 0, closing = 0, r_byte = 0, w_byte = 0, read_size = 0, read_buf = corebuffer_init, write_buf = corebuffer_init,
     so_local = 0, so_remote = 0\<rparr>"

section \<open>Starting, closing and reference counts\<close>

definition wsa_init :: "('o, 'e) winsock_scheme \<Rightarrow> ('o, 'z) nst \<Rightarrow> ('o, 'z) nst" where
  "wsa_init E st =
     (let st = onos (WSAStartup E) st;
          (fd, st) = callos (WSASocket E) st;
          st = onos (fold (WSAIoctl E fd) [TransmitFile, AcceptEx, GetAcceptExSockaddrs, TransmitPackets, TransmitFile,
            ConnectEx, DisconnectEx, WSARecvMsg]) st in
      onos (closesocket E fd) st)"

definition wsa_release :: "('o, 'e) winsock_scheme \<Rightarrow> ('o, 'z) nst \<Rightarrow> ('o, 'z) nst" where
  "wsa_release E st = onos (WSACleanup E) st"

definition resetfd :: "nat option \<Rightarrow> ('o, 'z) nst \<Rightarrow> ('o, 'z) nst prog" where
  "resetfd s st = abort AssertionFailed"

text \<open>A compare-and-exchange on the flag of a context, with the cancellation it guards.\<close>

definition cancel_ready :: "('o, 'e) winsock_scheme \<Rightarrow> nat \<Rightarrow> ctx_sel \<Rightarrow> ('o, 'z) nst \<Rightarrow> ('o, 'z) nst" where
  "cancel_ready E i c st =
     (let old = sc_ready (get_ctx c (sock st i));
          st = (if old = 1 then mod_sock i (map_ctx c (sc_ready_update (\<lambda>_. 0))) st else st) in
      if old \<noteq> 0 then onos (sys_cancel E (so_fd (sock st i))) st else st)"

definition force_close :: "('o, 'e) winsock_scheme \<Rightarrow> nat \<Rightarrow> ('o, 'z) nst \<Rightarrow> ('o, 'z) nst prog" where
  "force_close E i st =
     bnd (get_ss st) (\<lambda>_.
     let st = cancel_ready E i RD st;
         st = cancel_ready E i WR st;
         st = onos (sys_shutdown E (so_fd (sock st i))) st in
     resetfd (Some i) st)"

definition socketcheck_addref :: "nat \<Rightarrow> ('o, 'z) nst \<Rightarrow> u32 \<times> ('o, 'z) nst" where
  "socketcheck_addref i st =
     (if so_type (sock st i) \<noteq> SOCKET_TYPE_INVALID then (0, mod_sock i (so_pending_update (\<lambda>p. p + 1)) st)
      else (0, st))"

definition socketcheck_delref :: "('o, 'e) winsock_scheme \<Rightarrow> nat \<Rightarrow> u32 \<Rightarrow> ('o, 'z) nst \<Rightarrow> ('o, 'z) nst prog" where
  "socketcheck_delref E i r st =
     (let old = so_pending (sock st i);
          st = mod_sock i (so_pending_update (\<lambda>p. p + (0 - r))) st in
      if sint old \<le> sint r then force_close E i st else ret st)"

definition reset_socket_ctx :: "nat \<Rightarrow> ctx_sel \<Rightarrow> ('o, 'z) nst \<Rightarrow> ('o, 'z) nst" where
  "reset_socket_ctx i c = mod_sock i (map_ctx c (\<lambda>_. ctx_zero))"

definition grub_socket :: "('o, 'e) winsock_scheme \<Rightarrow> u32 \<Rightarrow> ('o, 'z) nst \<Rightarrow> (nat option \<times> ('o, 'z) nst) prog" where
  "grub_socket E ident st =
     bnd (get_ss st) (\<lambda>_.
     let i = HASH_ID ident;
         st = mod_sock i (so_pending_update (\<lambda>p. p + 1)) st in
     if so_type (sock st i) \<noteq> SOCKET_TYPE_INVALID \<and> so_id (sock st i) = ident then ret (Some i, st)
     else bnd (socketcheck_delref E i 1 st) (\<lambda>st. ret (None, st)))"

section \<open>Reports to the logic objects\<close>

text \<open>A block for a message and a block for its data.\<close>

definition msg_alloc :: "socket_msg \<Rightarrow> ('o, 'z) nst \<Rightarrow> nat \<times> ('o, 'z) nst" where
  "msg_alloc d st =
     (let n = rest st; m = brk n; a = brk n + 1 in
      (m, onnet (\<lambda>n. n\<lparr>msgs := (msgs n)(m \<mapsto> logicmsg_new\<lparr>lm_data := a, lm_sz := 20\<rparr>), sdata := (sdata n)(a \<mapsto> d), brk := a + 1\<rparr>) st))"

definition poller_at :: "('o, 'z) nst \<Rightarrow> nat \<Rightarrow> core_poller prog" where
  "poller_at st io = (case pollers (rest st) io of None \<Rightarrow> abort WildPointer | Some p \<Rightarrow> ret p)"

definition set_poller :: "nat \<Rightarrow> core_poller \<Rightarrow> ('o, 'z) nst \<Rightarrow> ('o, 'z) nst" where
  "set_poller io p = onnet (\<lambda>n. n\<lparr>pollers := (pollers n)(io \<mapsto> p)\<rparr>)"

definition warp_post ::
  "('o, 'e) winsock_scheme \<Rightarrow> ('o, 'z) net_scheme core_module option list \<Rightarrow> u32 \<Rightarrow> nat \<Rightarrow> ('o, 'z) nst \<Rightarrow> ('o, 'z) nst prog" where
  "warp_post E mods lgc_id m st =
     bnd (corelogic_grub lgc_id st) (\<lambda>(lgc, st).
     let st = onnet (\<lambda>n. n\<lparr>msgs := (msgs n)(m := map_option (lm_recver_update (\<lambda>_. lgc_id)) (msgs n m))\<rparr>) st in
     bnd (lg_load (lgcs st) lgc) (\<lambda>l.
     bnd (poller_at st (lg_io l)) (\<lambda>io.
     let (err, st) = callos (sys_post E) st;
         (r, io) = corepoller_post err io 0 m 0 0;
         st = set_poller (lg_io l) io st in
     corelogic_release mods (the lgc) st)))"

definition report_accept where
  "report_accept E mods lgc_id newid ident err st =
     (let (m, st) = msg_alloc \<lparr>sm_type = socketmsg_accept, sm_id = newid, sm_err = err, sm_listenid = Some ident\<rparr> st in
      warp_post E mods lgc_id m st)"

definition report_socketerr where
  "report_socketerr E mods lgc_id ident err st =
     (let (m, st) = msg_alloc \<lparr>sm_type = socketmsg_socketerr, sm_id = ident, sm_err = err, sm_listenid = None\<rparr> st in
      warp_post E mods lgc_id m st)"

definition report_connect where
  "report_connect E mods lgc_id ident err st =
     (let (m, st) = msg_alloc \<lparr>sm_type = socketmsg_connect, sm_id = ident, sm_err = err, sm_listenid = None\<rparr> st in
      warp_post E mods lgc_id m st)"

text \<open>The macro around the functions that start an operation.\<close>

definition check_warpcall where
  "check_warpcall E mods func i c st =
     (let (r, st) = socketcheck_addref i st in
      if r = (0 :: u32) then
        bnd (func i c st) (\<lambda>(err, st).
        bnd (if err \<noteq> (0 :: u32) then report_socketerr E mods (so_logic (sock st i)) (so_id (sock st i)) err st else ret st) (\<lambda>st.
        socketcheck_delref E i (if err = 0 then 1 else 2) st))
      else ret st)"

section \<open>The server\<close>

definition start_socketserver :: "('o, 'e) winsock_scheme \<Rightarrow> u32 \<Rightarrow> ('o, 'z) nst \<Rightarrow> (u32 \<times> ('o, 'z) nst) prog" where
  "start_socketserver E thr st =
     (let st = wsa_init E st;
          (r, st) =
            (case IO (rest st) of Some io \<Rightarrow> (0, st)
             | None \<Rightarrow>
               let (h, st) = callos (sys_new_port E) st;
                   s = os (rest st) in
               (case corepoller_new h (junk_word E s) (sys_time E s) of None \<Rightarrow> (- 1, st)
                | Some p \<Rightarrow>
                  let io = brk (rest st) in
                  (0, onnet (\<lambda>n. n\<lparr>ss_alloc_id := 0, ss_slot := (\<lambda>_. socket_zero), pollers := (pollers n)(io \<mapsto> p),
                        brk := io + 1, IO := Some io\<rparr>) st))) in
      if r \<noteq> 0 then ret (r, st)
      else case IO (rest st) of None \<Rightarrow> abort AssertionFailed
        | Some io \<Rightarrow> bnd (poller_at st io) (\<lambda>p. ret (0, set_poller io (corepoller_start_thread p (ucast thr)) st)))"

function stop_loop :: "('o, 'e) winsock_scheme \<Rightarrow> nat \<Rightarrow> ('o, 'z) nst \<Rightarrow> ('o, 'z) nst prog" where
  "stop_loop E i st =
     (if i < MAX_SOCKET then
        bnd (if so_type (sock st i) \<noteq> SOCKET_TYPE_RESERVE then force_close E i st else ret st) (\<lambda>st.
        stop_loop E (i + 1) st)
      else ret st)"
  by pat_completeness auto
termination by (relation "measure (\<lambda>(_, i, _). MAX_SOCKET - i)") auto

declare stop_loop.simps [simp del]

definition stop_socketserver :: "('o, 'e) winsock_scheme \<Rightarrow> ('o, 'z) nst \<Rightarrow> (u32 \<times> ('o, 'z) nst) prog" where
  "stop_socketserver E st =
     bnd (get_ss st) (\<lambda>_. bnd (stop_loop E 0 st) (\<lambda>st. ret (0, wsa_release E st)))"

text \<open>A failed call closes the new socket again.\<close>

definition do_listen :: "('o, 'e) winsock_scheme \<Rightarrow> string \<Rightarrow> u32 \<Rightarrow> u32 \<Rightarrow> ('o, 'z) nst \<Rightarrow> u32 \<times> ('o, 'z) nst" where
  "do_listen E host pt backlog st =
     (let addr = (if host \<noteq> [] then inet_addr E host else 0);
          st = onos (WSASetLastError E 0) st;
          (listen_fd, st) = callos (WSASocket E) st in
      if listen_fd = INVALID_SOCKET then (INVALID_SOCKET, st)
      else
        let (r, st) = callos (sys_reuse E listen_fd) st in
        if r = - 1 then (INVALID_SOCKET, onos (closesocket E listen_fd) st)
        else
          let (r, st) = callos (sys_bind E listen_fd addr (ucast pt)) st in
          if r = - 1 then (INVALID_SOCKET, onos (closesocket E listen_fd) st)
          else
            let (r, st) = callos (sys_listen E listen_fd backlog) st in
            if r = - 1 then (INVALID_SOCKET, onos (closesocket E listen_fd) st)
            else (listen_fd, st))"

text \<open>
  The search for a free slot, run without interference: the exchange that takes the slot then succeeds
  whenever the type was read as invalid, and the branch that repeats the turn is not entered. The
  identifier is the counter read as a signed number; the negative case adds to the counter.
\<close>

fun reserve_loop :: "nat \<Rightarrow> ('o, 'z) nst \<Rightarrow> u32 \<times> ('o, 'z) nst" where
  "reserve_loop 0 st = (- 1, st)"
| "reserve_loop (Suc k) st =
     (let st = onnet (\<lambda>n. n\<lparr>ss_alloc_id := ss_alloc_id n + 1\<rparr>) st;
          ident = ss_alloc_id (rest st);
          (ident, st) = (if sint ident < 0 then
             let st = onnet (\<lambda>n. n\<lparr>ss_alloc_id := ss_alloc_id n + 0x7FFFFFFF\<rparr>) st in (ss_alloc_id (rest st), st)
           else (ident, st));
          i = HASH_ID ident in
      if so_type (sock st i) = SOCKET_TYPE_INVALID then
        (ident, mod_sock i (\<lambda>s. s\<lparr>so_type := SOCKET_TYPE_RESERVE, so_id := ident, so_fd := INVALID_SOCKET, so_pending := 1\<rparr>) st)
      else reserve_loop k st)"

definition reserve_id :: "('o, 'z) nst \<Rightarrow> (u32 \<times> ('o, 'z) nst) prog" where
  "reserve_id st = bnd (get_ss st) (\<lambda>_. ret (reserve_loop MAX_SOCKET st))"

definition new_fd :: "('o, 'e) winsock_scheme \<Rightarrow> u32 \<Rightarrow> u32 \<Rightarrow> u32 \<Rightarrow> bool \<Rightarrow> ('o, 'z) nst \<Rightarrow> (nat option \<times> ('o, 'z) nst) prog" where
  "new_fd E ident lgc_id fd add st =
     bnd (get_ss st) (\<lambda>io.
     let i = HASH_ID ident in
     bnd (assert_c (so_type (sock st i) = SOCKET_TYPE_RESERVE)) (\<lambda>_.
     let (err, st) =
       (if add then
          let st = onos (WSASetLastError E 0) st;
              (h, st) = callos (sys_join_port E fd io i) st;
              r = corepoller_append_socket h in
          (last_error E st, st)
        else (0, st)) in
     if err \<noteq> 0 then ret (None, mod_sock i (so_type_update (\<lambda>_. SOCKET_TYPE_INVALID)) st)
     else ret (Some i, mod_sock i (\<lambda>s. s\<lparr>so_id := ident, so_fd := fd, so_logic := lgc_id, so_pending := 1\<rparr>) st)))"

section \<open>Listening\<close>

definition ev_listen_start ::
  "('o, 'e) winsock_scheme \<Rightarrow> nat \<Rightarrow> ctx_sel \<Rightarrow> ('o, 'z) nst \<Rightarrow> (u32 \<times> ('o, 'z) nst) prog" where
  "ev_listen_start E i c st =
     (let st = onos (WSASetLastError E 0) st;
          (fd, st) = callos (WSASocket E) st;
          err = last_error E st in
      if fd = INVALID_SOCKET then ret (err, mod_sock i (map_ctx c (sc_ready_update (\<lambda>_. 0))) st)
      else
        bnd (reserve_id st) (\<lambda>(ident, st).
        bnd (new_fd E ident (so_logic (sock st i)) fd True st) (\<lambda>(news, st).
        case news of None \<Rightarrow>
          bnd (resetfd None (mod_sock i (map_ctx c (sc_ready_update (\<lambda>_. 0))) st)) (\<lambda>st. ret (- 1, st))
        | Some j \<Rightarrow>
          let st = mod_sock j (so_type_update (\<lambda>_. SOCKET_TYPE_PLISTEN)) st;
              st = reset_socket_ctx i c st;
              st = mod_sock i (map_ctx c (\<lambda>x. x\<lparr>sc_ready := 1, sc_call := Some Call_ev_listen, sc_u := CSock j\<rparr>)) st;
              st = onos (WSASetLastError E 0) st;
              st = onos (sys_accept_context E (so_fd (sock st j)) (so_fd (sock st i))) st;
              st = onos (sys_acceptex E (so_fd (sock st i)) (so_fd (sock st j)) (op_of i c)) st;
              err = last_error E st in
          if err \<noteq> 0 \<and> err \<noteq> WSA_IO_PENDING then
            bnd (resetfd (Some j) st) (\<lambda>st. ret (err, mod_sock i (map_ctx c (sc_ready_update (\<lambda>_. 0))) st))
          else ret (0, mod_sock i (map_ctx c (sc_ready_update (\<lambda>_. 1))) st))))"

definition start_listen ::
  "('o, 'e) winsock_scheme \<Rightarrow> u32 \<Rightarrow> string \<Rightarrow> u32 \<Rightarrow> u32 \<Rightarrow> ('o, 'z) nst \<Rightarrow> (u32 \<times> u32 option \<times> ('o, 'z) nst) prog" where
  "start_listen E lgc_id addr pt backlog st =
     (let st = onos (WSASetLastError E 0) st;
          (fd, st) = do_listen E addr pt backlog st in
      if fd = INVALID_SOCKET then ret (last_error E st, None, st)
      else
        bnd (reserve_id st) (\<lambda>(ident, st).
        bnd (new_fd E ident lgc_id fd True st) (\<lambda>(s, st).
        case s of None \<Rightarrow> bnd (resetfd None st) (\<lambda>st. ret (last_error E st, Some 0, st))
        | Some i \<Rightarrow>
          let st = mod_sock i (so_type_update (\<lambda>_. SOCKET_TYPE_LISTEN)) st;
              (r, st) = socketcheck_addref i st in
          bnd (if r = 0 then
                 bnd (ev_listen_start E i RD st) (\<lambda>(err, st).
                 bnd (socketcheck_delref E i (if err = 0 then 1 else 2) st) (\<lambda>st.
                 if err = 0 then
                   let (r, st) = socketcheck_addref i st in
                   if r = 0 then
                     bnd (ev_listen_start E i WR st) (\<lambda>(err, st).
                     bnd (socketcheck_delref E i (if err = 0 then 1 else 2) st) (\<lambda>st. ret (err, st)))
                   else ret (err, st)
                 else ret (err, st)))
               else abort Uninitialised) (\<lambda>(err, st).
          ret (err, Some ident, st)))))"

section \<open>Receiving\<close>

definition ev_recv_start ::
  "('o, 'e) winsock_scheme \<Rightarrow> nat \<Rightarrow> ctx_sel \<Rightarrow> ('o, 'z) nst \<Rightarrow> (u32 \<times> ('o, 'z) nst) prog" where
  "ev_recv_start E i c st =
     bnd (assert_c (sc_ready (get_ctx c (sock st i)) = 0)) (\<lambda>_.
     let st = reset_socket_ctx i c st;
         a = brk (rest st) in
     bnd (buffernode_new (junk_bytes E (os (rest st))) (read_size (sock st i))) (\<lambda>n.
     let st = onnet (\<lambda>n'. n'\<lparr>bufs := (bufs n')(a \<mapsto> n), brk := a + 1\<rparr>) st;
         st = mod_sock i (map_ctx c (\<lambda>x. x\<lparr>sc_ready := 1, sc_call := Some Call_ev_recv, sc_u := CNode a\<rparr>)) st;
         len = fst (buffernode_startwrite n) in
     bnd (assert_c (len \<noteq> 0)) (\<lambda>_.
     let st = onos (WSASetLastError E 0) st;
         st = onos (sys_recv E (so_fd (sock st i)) len (op_of i c)) st;
         err = last_error E st in
     if err \<noteq> 0 \<and> err \<noteq> WSA_IO_PENDING then ret (err, mod_sock i (map_ctx c (sc_ready_update (\<lambda>_. 0))) st)
     else ret (0, st))))"

definition on_ev_recv ::
  "('o, 'e) winsock_scheme \<Rightarrow> ('o, 'z) net_scheme core_module option list \<Rightarrow> nat \<Rightarrow> ctx_sel \<Rightarrow> u32 \<Rightarrow> u32 \<Rightarrow>
   ('o, 'z) nst \<Rightarrow> ('o, 'z) nst prog" where
  "on_ev_recv E mods i c sz e st =
     bnd (ctx_buffer (sc_u (get_ctx c (sock st i)))) (\<lambda>p.
     bnd (assert_c (p \<noteq> None)) (\<lambda>_.
     bnd (bn_at (bufs (rest st)) p) (\<lambda>n.
     let (err, n) = buffernode_readok n sz in
     bnd (assert_c (err = 0)) (\<lambda>_.
     bnd (corebuffer_pushback ((bufs (rest st))(the p \<mapsto> n)) (read_buf (sock st i)) (the p)) (\<lambda>(h, b).
     let st = onnet (\<lambda>n'. n'\<lparr>bufs := h\<rparr>) st;
         st = mod_sock i (read_buf_update (\<lambda>_. b)) st;
         st = mod_sock i (map_ctx c (sc_u_update (\<lambda>_. CZero))) st in
     if e = 0 \<and> sz > 0 then
       let st = mod_sock i (r_byte_update (\<lambda>r. r + sz)) st;
           st = mod_sock i (read_size_update (\<lambda>r. drop_bit 2 (7 * r + sz))) st;
           st = mod_sock i (map_ctx c (sc_ready_update (\<lambda>_. 0))) st;
           (r, st) = socketcheck_addref i st in
       if r = 0 then
         bnd (ev_recv_start E i RD st) (\<lambda>(err, st).
         bnd (if err \<noteq> 0 then report_socketerr E mods (so_logic (sock st i)) (so_id (sock st i)) err st else ret st) (\<lambda>st.
         socketcheck_delref E i (if err = 0 then 1 else 2) st))
       else ret st
     else
       bnd (report_socketerr E mods (so_logic (sock st i)) (so_id (sock st i)) err st) (\<lambda>st.
       socketcheck_delref E i 1 st))))))"

section \<open>Accepting and connecting\<close>

text \<open>\<open>addrs\<close> is what \<^verbatim>\<open>GetAcceptExSockaddrs\<close> finds in the context's buffer.\<close>

fun ctx_addrs :: "ctx_union \<Rightarrow> (nat \<times> nat) prog" where
  "ctx_addrs (CAddrs a b) = ret (a, b)"
| "ctx_addrs CZero = abort Uninitialised"
| "ctx_addrs (CSock i) = abort Uninitialised"
| "ctx_addrs (CNode a) = abort Uninitialised"

definition on_ev_listen ::
  "('o, 'e) winsock_scheme \<Rightarrow> ('o, 'z) net_scheme core_module option list \<Rightarrow> nat \<Rightarrow> ctx_sel \<Rightarrow> u32 \<Rightarrow> u32 \<Rightarrow>
   ('o, 'z) nst \<Rightarrow> ('o, 'z) nst prog" where
  "on_ev_listen E mods i c sz e st =
     (let ident = so_id (sock st i) in
     bnd (ctx_newsock (sc_u (get_ctx c (sock st i)))) (\<lambda>newsock.
     bnd (assert_c (sint (so_pending (sock st i)) \<ge> 1 \<and> newsock \<noteq> None)) (\<lambda>_.
     let j = the newsock in
     bnd (if e \<noteq> 0 then report_accept E mods (so_logic (sock st i)) (so_id (sock st j)) ident e st
          else
            bnd (ctx_addrs (sc_u (get_ctx c (sock st i)))) (\<lambda>(l, r).
            let st = mod_sock i (\<lambda>s. s\<lparr>so_local := l, so_remote := r\<rparr>) st;
                st = onos (sys_accept_context E (so_fd (sock st j)) (so_fd (sock st i))) st;
                st = mod_sock j (so_type_update (\<lambda>_. SOCKET_TYPE_PACCEPT)) st in
            bnd (report_accept E mods (so_logic (sock st i)) (so_id (sock st j)) (so_id (sock st i)) 0 st) (\<lambda>st.
            let st = mod_sock j (so_pending_update (\<lambda>p. p + 1)) st in
            check_warpcall E mods (ev_recv_start E) j RD st))) (\<lambda>st.
     let st = mod_sock i (map_ctx c (sc_ready_update (\<lambda>_. 0))) st in
     check_warpcall E mods (ev_listen_start E) i c st))))"

definition event_connect ::
  "('o, 'e) winsock_scheme \<Rightarrow> ('o, 'z) net_scheme core_module option list \<Rightarrow> nat \<Rightarrow> ctx_sel \<Rightarrow> u32 \<Rightarrow> u32 \<Rightarrow>
   ('o, 'z) nst \<Rightarrow> ('o, 'z) nst prog" where
  "event_connect E mods i c sz e st =
     (let st = mod_sock i (map_ctx c (sc_ready_update (\<lambda>_. 0))) st in
     bnd (report_connect E mods (so_logic (sock st i)) (so_id (sock st i)) e st) (\<lambda>st.
     if e = 0 then
       let st = mod_sock i (so_type_update (\<lambda>_. SOCKET_TYPE_CONNECTED)) st in
       check_warpcall E mods (ev_recv_start E) i c st
     else socketcheck_delref E i 1 st))"

definition start_connet ::
  "('o, 'e) winsock_scheme \<Rightarrow> u32 \<Rightarrow> string \<Rightarrow> u32 \<Rightarrow> ('o, 'z) nst \<Rightarrow> (u32 \<times> u32 option \<times> ('o, 'z) nst) prog" where
  "start_connet E lgc_id addr pt st =
     (let st = onos (WSASetLastError E 0) st;
          (fd, st) = callos (WSASocket E) st;
          err = last_error E st in
      if fd = INVALID_SOCKET then ret (err, None, st)
      else
        let st = onos (WSASetLastError E 0) st;
            (r, st) = callos (sys_bind E fd 0 0) st in
        if r = - 1 then
          let st = onos (closesocket E fd) st in ret (last_error E st, None, st)
        else
          bnd (reserve_id st) (\<lambda>(ident, st).
          bnd (new_fd E ident lgc_id fd True st) (\<lambda>(s, st).
          case s of None \<Rightarrow> bnd (resetfd None st) (\<lambda>st. ret (last_error E st, None, st))
          | Some i \<Rightarrow>
            let ident = so_id (sock st i);
                st = mod_sock i (so_type_update (\<lambda>_. SOCKET_TYPE_CONNECTING)) st;
                st = reset_socket_ctx i RD st;
                st = mod_sock i (map_ctx RD (\<lambda>x. x\<lparr>sc_ready := 1, sc_call := Some Call_connect\<rparr>)) st;
                st = mod_sock i (so_pending_update (\<lambda>p. p + 1)) st;
                st = onos (WSASetLastError E 0) st;
                st = onos (sys_connectex E fd (inet_addr E addr) (ucast pt) (op_of i RD)) st;
                err = last_error E st in
            if err \<noteq> 0 \<and> err \<noteq> WSA_IO_PENDING then
              bnd (resetfd (Some i) st) (\<lambda>st. ret (err, Some 0, st))
            else bnd (assert_c (sint ident > 0)) (\<lambda>_. ret (0, Some ident, st)))))"

section \<open>Sending and closing\<close>

definition ev_send_start ::
  "('o, 'e) winsock_scheme \<Rightarrow> nat \<Rightarrow> ctx_sel \<Rightarrow> ('o, 'z) nst \<Rightarrow> (u32 \<times> ('o, 'z) nst) prog" where
  "ev_send_start E i c st =
     (let old = sc_ready (get_ctx c (sock st i));
          st = mod_sock i (map_ctx c (sc_ready_update (\<lambda>r. if old = 0 then 1 else r + 1))) st in
      if old \<noteq> 0 \<and> sc_ready (get_ctx c (sock st i)) \<noteq> 1 then ret (0, st)
      else
        bnd (ctx_buffer (sc_u (get_ctx c (sock st i)))) (\<lambda>p.
        bnd (if p = None then
               bnd (corebuffer_popfront_safe (bufs (rest st)) (write_buf (sock st i))) (\<lambda>(p, b).
               ret (p, mod_sock i (write_buf_update (\<lambda>_. b)) st))
             else ret (p, st)) (\<lambda>(p, st).
        bnd (bn_at (bufs (rest st)) p) (\<lambda>n.
        let (len, off) = buffernode_startread n in
        bnd (assert_c (len > 0)) (\<lambda>_.
        let st = reset_socket_ctx i c st;
            st = mod_sock i (map_ctx c (sc_call_update (\<lambda>_. Some Call_ev_send))) st;
            st = onos (WSASetLastError E 0) st;
            st = onos (sys_send E (so_fd (sock st i)) (take (unat len) (drop (unat (the off)) (bn_buf n))) (op_of i c)) st;
            err = last_error E st in
        if err \<noteq> 0 \<and> err \<noteq> WSA_IO_PENDING then ret (err, st)
        else ret (0, st))))))"

definition start_send :: "('o, 'e) winsock_scheme \<Rightarrow> u32 \<Rightarrow> corebuf \<Rightarrow> ('o, 'z) nst \<Rightarrow> (u32 \<times> ('o, 'z) nst) prog" where
  "start_send E fd buf st =
     bnd (grub_socket E fd st) (\<lambda>(s, st).
     bnd (buffernode_new (junk_bytes E (os (rest st))) (cbuf_size buf)) (\<lambda>n.
     bnd (buffernode_write n (cbuf_data buf) (cbuf_size buf)) (\<lambda>(r, n).
     let a = brk (rest st);
         st = onnet (\<lambda>n'. n'\<lparr>bufs := (bufs n')(a \<mapsto> n), brk := a + 1\<rparr>) st in
     case s of None \<Rightarrow> abort NullDeref
     | Some i \<Rightarrow>
       bnd (corebuffer_pushback_safe (bufs (rest st)) (read_buf (sock st i)) a) (\<lambda>(h, b).
       let st = onnet (\<lambda>n'. n'\<lparr>bufs := h\<rparr>) st;
           st = mod_sock i (read_buf_update (\<lambda>_. b)) st in
       bnd (ev_send_start E i WR st) (\<lambda>(err, st).
       bnd (socketcheck_delref E i (if err = 0 then 0 else 1) st) (\<lambda>st.
       ret (err, st)))))))"

definition on_ev_send ::
  "('o, 'e) winsock_scheme \<Rightarrow> ('o, 'z) net_scheme core_module option list \<Rightarrow> nat \<Rightarrow> ctx_sel \<Rightarrow> u32 \<Rightarrow> u32 \<Rightarrow>
   ('o, 'z) nst \<Rightarrow> ('o, 'z) nst prog" where
  "on_ev_send E mods i c sz e st =
     (if e \<noteq> 0 then
        let st = mod_sock i (map_ctx c (sc_ready_update (\<lambda>_. 0))) st in
        bnd (report_socketerr E mods (so_logic (sock st i)) (so_id (sock st i)) e st) (\<lambda>st.
        socketcheck_delref E i 1 st)
      else
        bnd (ctx_buffer (sc_u (get_ctx c (sock st i)))) (\<lambda>p.
        bnd (bn_at (bufs (rest st)) p) (\<lambda>n.
        let n = snd (buffernode_readok n sz);
            st = onnet (\<lambda>n'. n'\<lparr>bufs := (bufs n')(the p \<mapsto> n)\<rparr>) st;
            st = mod_sock i (w_byte_update (\<lambda>w. w + sz)) st in
        bnd (if buffernode_canread n = 0 then
               let st = mod_sock i (map_ctx c (sc_u_update (\<lambda>_. CZero))) st in
               bnd (buffernode_delete (bufs (rest st)) p) (\<lambda>h. ret (onnet (\<lambda>n'. n'\<lparr>bufs := h\<rparr>) st))
             else ret st) (\<lambda>st.
        let st = mod_sock i (map_ctx c (sc_ready_update (\<lambda>_. 0))) st in
        check_warpcall E mods (ev_send_start E) i c st))))"

definition start_close :: "('o, 'e) winsock_scheme \<Rightarrow> u32 \<Rightarrow> ('o, 'z) nst \<Rightarrow> (u32 \<times> ('o, 'z) nst) prog" where
  "start_close E fd st =
     bnd (grub_socket E fd st) (\<lambda>(s, st).
     case s of None \<Rightarrow> ret (- 1, st)
     | Some i \<Rightarrow>
       if so_type (sock st i) \<noteq> SOCKET_TYPE_PLISTEN \<and> so_type (sock st i) \<noteq> SOCKET_TYPE_LISTEN
         \<and> so_type (sock st i) \<noteq> SOCKET_TYPE_CONNECTING \<and> so_type (sock st i) \<noteq> SOCKET_TYPE_CONNECTED
         \<and> so_type (sock st i) \<noteq> SOCKET_TYPE_PACCEPT then ret (- 1, st)
       else
         bnd (if closing (sock st i) = 0 then socketcheck_delref E i 2 (mod_sock i (closing_update (\<lambda>_. 1)) st)
              else socketcheck_delref E i 1 st) (\<lambda>st.
         ret (0, st)))"

text \<open>The call a worker makes for a context that comes back from the port.\<close>

definition ctx_dispatch ::
  "('o, 'e) winsock_scheme \<Rightarrow> ('o, 'z) net_scheme core_module option list \<Rightarrow> nat \<Rightarrow> ctx_sel \<Rightarrow> u32 \<Rightarrow> u32 \<Rightarrow>
   ('o, 'z) nst \<Rightarrow> ('o, 'z) nst prog" where
  "ctx_dispatch E mods i c sz e st =
     (case sc_call (get_ctx c (sock st i)) of None \<Rightarrow> abort NullDeref
      | Some Call_ev_listen \<Rightarrow> on_ev_listen E mods i c sz e st
      | Some Call_connect \<Rightarrow> event_connect E mods i c sz e st
      | Some Call_ev_send \<Rightarrow> on_ev_send E mods i c sz e st
      | Some Call_ev_recv \<Rightarrow> on_ev_recv E mods i c sz e st)"

section \<open>Access lemmas\<close>

lemma sock_mod_sock [simp]: "sock (mod_sock i f st) j = (if i = j then f (sock st j) else sock st j)"
  by (simp add: sock_def mod_sock_def onnet_def)

lemma sock_onos [simp]: "sock (onos f st) j = sock st j"
  by (simp add: sock_def onos_def onnet_def)

lemma rest_onos [simp]: "IO (rest (onos f st)) = IO (rest st)" "os (rest (onos f st)) = f (os (rest st))"
  "bufs (rest (onos f st)) = bufs (rest st)" "ss_alloc_id (rest (onos f st)) = ss_alloc_id (rest st)"
  "pollers (rest (onos f st)) = pollers (rest st)" "brk (rest (onos f st)) = brk (rest st)"
  by (simp_all add: onos_def onnet_def)

lemma rest_mod_sock [simp]: "IO (rest (mod_sock i f st)) = IO (rest st)" "os (rest (mod_sock i f st)) = os (rest st)"
  "bufs (rest (mod_sock i f st)) = bufs (rest st)" "ss_alloc_id (rest (mod_sock i f st)) = ss_alloc_id (rest st)"
  "pollers (rest (mod_sock i f st)) = pollers (rest st)" "brk (rest (mod_sock i f st)) = brk (rest st)"
  by (simp_all add: mod_sock_def onnet_def)

lemma get_ss_simps [simp]: "get_ss (onos f st) = get_ss st" "get_ss (mod_sock i g st) = get_ss st"
  by (simp_all add: get_ss_def)

lemma callos_eq: "callos f st = (x, st') \<longleftrightarrow> (\<exists>s. f (os (rest st)) = (x, s) \<and> st' = onos (\<lambda>_. s) st)"
  by (auto simp: callos_def split: prod.splits)

lemma get_map_ctx [simp]: "get_ctx c (map_ctx c f s) = f (get_ctx c s)"
  by (cases c) simp_all

lemma map_ctx_fields [simp]: "so_id (map_ctx c f s) = so_id s" "so_logic (map_ctx c f s) = so_logic s" "so_fd (map_ctx c f s) = so_fd s"
  "so_type (map_ctx c f s) = so_type s" "so_pending (map_ctx c f s) = so_pending s" "read_size (map_ctx c f s) = read_size s"
  "read_buf (map_ctx c f s) = read_buf s" "write_buf (map_ctx c f s) = write_buf s" "closing (map_ctx c f s) = closing s"
  by (cases c; simp)+

lemma force_close_faults: "force_close E i st = abort AssertionFailed"
  by (simp add: force_close_def resetfd_def get_ss_def bnd_def abort_def ret_def Let_def split: option.splits)

end
