(* ===== verification/BinaryArry.thy ===== *)
theory BinaryArry
  imports Prelude
begin

text \<open>
  The sorted array of \<^verbatim>\<open>net/binary_arry.h\<close>: insertion in order of the key, growth by doubling, and binary search. The
  template's null value is a parameter of the operations. Keys are compared only; the sizes are taken not to overflow.
\<close>

section \<open>Operations\<close>

record 'v binary_arry =
  slot :: "(int \<times> 'v) list"
  slot_sz :: nat
  slot_max :: nat
  slot_def :: nat

function slot_def_loop :: "nat \<Rightarrow> nat \<Rightarrow> nat" where
  "slot_def_loop d sz = (if d < sz \<and> d > 0 then slot_def_loop (d * 2) sz else d)"
  by pat_completeness auto

termination
  by (relation "measure (\<lambda>(d, sz). sz - d)") auto

declare slot_def_loop.simps [simp del]

definition binary_arry_new :: "nat \<Rightarrow> 'v binary_arry" where
  "binary_arry_new sz = \<lparr>slot = [], slot_sz = 0, slot_max = 0, slot_def = slot_def_loop 2 sz\<rparr>"

fun copy_items :: "(int \<times> 'v) list \<Rightarrow> (int \<times> 'v) list \<Rightarrow> nat \<Rightarrow> (int \<times> 'v) list prog" where
  "copy_items newslot old 0 = ret newslot"
| "copy_items newslot old (Suc i) =
     bnd (copy_items newslot old i) (\<lambda>newslot.
       if i < length old \<and> i < length newslot then ret (newslot[i := old ! i]) else abort OutOfBounds)"

definition grown :: "'v \<Rightarrow> 'v binary_arry \<Rightarrow> 'v binary_arry prog" where
  "grown null a =
     (let new_max = (if slot_max a \<noteq> 0 then 2 * slot_max a else slot_def a) in
      bnd (copy_items (replicate new_max (0, null)) (slot a) (slot_sz a)) (\<lambda>newslot.
        ret (a\<lparr>slot := newslot, slot_max := new_max\<rparr>)))"

function find_pos :: "(int \<times> 'v) list \<Rightarrow> nat \<Rightarrow> int \<Rightarrow> nat \<Rightarrow> nat prog" where
  "find_pos s sz k p =
     (if p < sz then
        if p < length s then (if fst (s ! p) < k then find_pos s sz k (p + 1) else ret p) else abort OutOfBounds
      else ret p)"
  by pat_completeness auto

termination
  by (relation "measure (\<lambda>(s, sz, k, p). sz - p)") auto

declare find_pos.simps [simp del]

fun shift_items :: "(int \<times> 'v) list \<Rightarrow> nat \<Rightarrow> nat \<Rightarrow> (int \<times> 'v) list prog" where
  "shift_items s p 0 = ret s"
| "shift_items s p (Suc i) =
     (if Suc i > p then
        if Suc i < length s then shift_items (s[Suc i := s ! i]) p i else abort OutOfBounds
      else ret s)"

definition insert_item :: "'v \<Rightarrow> 'v binary_arry \<Rightarrow> int \<Rightarrow> 'v \<Rightarrow> (bool \<times> 'v binary_arry) prog" where
  "insert_item null a k v =
     bnd (if slot_sz a + 1 > slot_max a then grown null a else ret a) (\<lambda>a.
     bnd (find_pos (slot a) (slot_sz a) k 0) (\<lambda>p.
     bnd (shift_items (slot a) p (slot_sz a)) (\<lambda>s.
     if p < length s then ret (True, a\<lparr>slot := s[p := (k, v)], slot_sz := slot_sz a + 1\<rparr>) else abort OutOfBounds)))"

text \<open>The search between two positions, both included; \<open>null\<close> is what \<^verbatim>\<open>not_found\<close> holds.\<close>

function binary_search :: "'v \<Rightarrow> (int \<times> 'v) list \<Rightarrow> int \<Rightarrow> int \<Rightarrow> int \<Rightarrow> 'v prog" where
  "binary_search null arr low high k =
     (if low > high then ret null
      else let m = low + (high - low) div 2 in
        if 0 \<le> m \<and> m < int (length arr) then
          (if fst (arr ! nat m) = k then ret (snd (arr ! nat m))
           else if fst (arr ! nat m) > k then binary_search null arr low (m - 1) k
           else binary_search null arr (m + 1) high k)
        else abort OutOfBounds)"
  by pat_completeness auto

termination
  by (relation "measure (\<lambda>(n, a, low, high, k). nat (high - low + 1))") auto

declare binary_search.simps [simp del]

definition find_item :: "'v \<Rightarrow> 'v binary_arry \<Rightarrow> int \<Rightarrow> 'v prog" where
  "find_item null a k = (if slot_sz a = 0 then ret null else binary_search null (slot a) 0 (int (slot_sz a)) k)"

section \<open>The array as a sorted list\<close>

definition items :: "'v binary_arry \<Rightarrow> (int \<times> 'v) list" where
  "items a = take (slot_sz a) (slot a)"

text \<open>Behind the items the array still holds the zeros of its allocation.\<close>

definition arry_wf :: "'v \<Rightarrow> 'v binary_arry \<Rightarrow> bool" where
  "arry_wf null a \<longleftrightarrow> length (slot a) = slot_max a \<and> slot_sz a \<le> slot_max a \<and> slot_def a \<ge> 2
     \<and> slot a = items a @ replicate (slot_max a - slot_sz a) (0, null) \<and> sorted (map fst (items a))"

lemma slot_def_loop_ge: "slot_def_loop d sz \<ge> d"
  by (induction d sz rule: slot_def_loop.induct) (subst slot_def_loop.simps, auto)

lemma binary_arry_new_wf: "arry_wf null (binary_arry_new sz)" "items (binary_arry_new sz) = []"
  using slot_def_loop_ge [of 2 sz] by (simp_all add: arry_wf_def binary_arry_new_def items_def)

lemma copy_items_take:
  assumes "n \<le> length old" "n \<le> length new"
  shows "copy_items new old n = ret (take n old @ drop n new)"
  using assms
proof (induction n)
  case (Suc n)
  have "(take n old @ drop n new)[n := old ! n] = take (Suc n) old @ drop (Suc n) new"
    using Suc.prems by (simp add: list_update_append take_Suc_conv_app_nth Cons_nth_drop_Suc [symmetric])
  then show ?case using Suc by simp
qed simp

lemma grown_wf:
  assumes "arry_wf null a"
  shows "\<exists>a'. grown null a = ret a' \<and> arry_wf null a' \<and> items a' = items a \<and> slot_sz a' = slot_sz a \<and> slot_sz a < slot_max a'"
proof -
  let ?m = "if slot_max a \<noteq> 0 then 2 * slot_max a else slot_def a"
  have m: "slot_sz a < ?m" "slot_sz a \<le> length (slot a)" "length (slot a) = slot_max a" "slot_def a \<ge> 2" "slot_sz a \<le> ?m"
    using assms by (auto simp: arry_wf_def)
  then have "copy_items (replicate ?m (0, null)) (slot a) (slot_sz a) = ret (items a @ replicate (?m - slot_sz a) (0, null))"
    by (subst copy_items_take) (auto simp: items_def)
  then have "grown null a = ret (a\<lparr>slot := items a @ replicate (?m - slot_sz a) (0, null), slot_max := ?m\<rparr>)"
    by (simp add: grown_def Let_def)
  moreover have "length (items a) = slot_sz a" using m by (simp add: items_def)
  ultimately show ?thesis using assms m by (auto simp: arry_wf_def items_def)
qed

lemma find_pos_takeWhile:
  assumes "sz \<le> length s" "p \<le> sz"
  shows "find_pos s sz k p = ret (p + length (takeWhile (\<lambda>x. fst x < k) (drop p (take sz s))))"
  using assms
proof (induction s sz k p rule: find_pos.induct)
  case (1 s sz k p)
  show ?case
  proof (cases "p < sz")
    case True
    then have "drop p (take sz s) = s ! p # drop (Suc p) (take sz s)" using 1(2) by (metis Cons_nth_drop_Suc length_take min.absorb2 nth_take)
    then show ?thesis using 1 True by (subst find_pos.simps) simp
  next
    case False
    then show ?thesis using 1(3) by (subst find_pos.simps) simp
  qed
qed

lemma shift_items_drop:
  assumes "p \<le> n" "n < length s"
  shows "\<exists>x. shift_items s p n = ret (take p s @ x # take (n - p) (drop p s) @ drop (Suc n) s)"
  using assms
proof (induction n arbitrary: s)
  case 0
  then show ?case by (cases s) (auto simp: exI [of _ "hd s"])
next
  case (Suc n)
  show ?case
  proof (cases "p \<le> n")
    case True
    let ?s = "s[Suc n := s ! n]"
    from Suc.IH [of ?s] True Suc.prems obtain x where
      x: "shift_items ?s p n = ret (take p ?s @ x # take (n - p) (drop p ?s) @ drop (Suc n) ?s)" by auto
    have "drop (Suc n) ?s = s ! n # drop (Suc (Suc n)) s"
      using Suc.prems by (simp add: drop_update_swap Cons_nth_drop_Suc [symmetric])
    moreover have "take (n - p) (drop p ?s) = take (n - p) (drop p s)" using True by (simp add: drop_update_swap take_update_cancel)
    moreover have "take (Suc n - p) (drop p s) = take (n - p) (drop p s) @ [s ! n]"
      using True Suc.prems by (simp add: Suc_diff_le take_Suc_conv_app_nth)
    ultimately show ?thesis using x True Suc.prems by (auto simp: take_update_cancel)
  next
    case False
    then have "p = Suc n" using Suc.prems by simp
    then have "s = take p s @ s ! p # drop (Suc p) s" using Suc.prems by (simp add: id_take_nth_drop)
    then show ?thesis using \<open>p = Suc n\<close> by (intro exI [of _ "s ! p"]) simp
  qed
qed

lemma insort_takeWhile:
  "insort_key fst (k, v) xs = takeWhile (\<lambda>x. fst x < k) xs @ (k, v) # dropWhile (\<lambda>x. fst x < k) xs"
  by (induction xs) auto

lemma insert_item_ok:
  assumes "arry_wf null a"
  shows "\<exists>a'. insert_item null a k v = ret (True, a') \<and> arry_wf null a' \<and> items a' = insort_key fst (k, v) (items a)"
proof -
  from grown_wf [OF assms] obtain g where g: "grown null a = ret g" "arry_wf null g" "items g = items a" "slot_sz g < slot_max g"
    by auto
  define b where "b = (if slot_sz a + 1 > slot_max a then g else a)"
  have b: "(if slot_sz a + 1 > slot_max a then grown null a else ret a) = ret b" "arry_wf null b" "items b = items a" "slot_sz b < slot_max b"
    using assms g by (auto simp: b_def)
  let ?n = "slot_sz b" and ?it = "items b" and ?z = "replicate (slot_max b - slot_sz b - 1) (0 :: int, null)"
  have len: "length ?it = ?n" "?n < length (slot b)" using b by (auto simp: arry_wf_def items_def)
  have s: "slot b = ?it @ (0, null) # ?z"
    using b(2,4) by (simp add: arry_wf_def) (metis Suc_diff_Suc replicate_Suc diff_Suc_1 diff_Suc_eq_diff_pred One_nat_def)
  define p where "p = length (takeWhile (\<lambda>x. fst x < k) ?it)"
  have p: "p \<le> ?n" using length_takeWhile_le [of "\<lambda>x. fst x < k" ?it] len by (simp add: p_def)
  have "find_pos (slot b) ?n k 0 = ret p"
    using find_pos_takeWhile [of ?n "slot b" 0 k] len by (simp add: p_def items_def)
  moreover from shift_items_drop [OF p len(2)] obtain x where
    "shift_items (slot b) p ?n = ret (take p (slot b) @ x # take (?n - p) (drop p (slot b)) @ drop (Suc ?n) (slot b))" by auto
  moreover have "take p (slot b) = takeWhile (\<lambda>x. fst x < k) ?it"
    using p len by (simp add: s p_def takeWhile_eq_take [symmetric])
  moreover have "take (?n - p) (drop p (slot b)) = dropWhile (\<lambda>x. fst x < k) ?it"
    using p len by (simp add: s p_def dropWhile_eq_drop)
  moreover have "drop (Suc ?n) (slot b) = ?z" using len by (simp add: s)
  ultimately have i: "insert_item null a k v = ret (True, b\<lparr>slot := insort_key fst (k, v) ?it @ ?z, slot_sz := ?n + 1\<rparr>)"
    using b(1) by (simp add: insert_item_def insort_takeWhile list_update_append p_def)
  have "arry_wf null (b\<lparr>slot := insort_key fst (k, v) ?it @ ?z, slot_sz := ?n + 1\<rparr>)"
    using b(2,4) len by (auto simp: arry_wf_def items_def sorted_insort_key)
  then show ?thesis using i b(3) len by (intro exI conjI) (auto simp: items_def)
qed

text \<open>
  C24. Inserting into a well-formed array always succeeds, growing it when it is full, and puts the item where insertion into a
  sorted list puts it; the array stays sorted and well-formed.
\<close>

theorem binary_arry_insert:
  assumes "arry_wf null a"
  shows "\<exists>a'. insert_item null a k v = ret (True, a') \<and> arry_wf null a' \<and> items a' = insort_key fst (k, v) (items a)"
  using assms by (rule insert_item_ok)

theorem binary_arry_insert_witness:
  "\<exists>a'. insert_item 0 (binary_arry_new 4) 7 (9 :: nat) = ret (True, a') \<and> items a' = [(7, 9)]"
  using binary_arry_insert [OF binary_arry_new_wf(1) [of "0 :: nat" 4], of 7 9] by (auto simp: binary_arry_new_wf(2))

section \<open>Searching\<close>

text \<open>What a search answers: a full array is read behind its end when every key is smaller.\<close>

definition find_result :: "'v \<Rightarrow> 'v binary_arry \<Rightarrow> int \<Rightarrow> 'v prog" where
  "find_result null a k = (case map_of (items a) k of Some v \<Rightarrow> ret v
     | None \<Rightarrow> if slot_sz a = slot_max a \<and> (\<forall>x\<in>set (items a). fst x < k) then abort OutOfBounds else ret null)"

text \<open>What holds between the two positions of a search.\<close>

definition search_inv :: "'v binary_arry \<Rightarrow> int \<Rightarrow> int \<Rightarrow> int \<Rightarrow> bool" where
  "search_inv a low high k \<longleftrightarrow> 0 \<le> low \<and> low \<le> high + 1 \<and> high \<le> int (slot_sz a)
     \<and> (\<forall>i < slot_sz a. (int i < low \<longrightarrow> fst (items a ! i) < k) \<and> (high < int i \<longrightarrow> k < fst (items a ! i)))
     \<and> (high < int (slot_sz a) \<longrightarrow> slot_sz a < slot_max a \<or> (\<exists>x\<in>set (items a). k < fst x))
     \<and> (low \<le> int (slot_sz a) \<or> slot_sz a < slot_max a)"

lemma arry_wf_nth:
  assumes "arry_wf null a"
  shows "length (items a) = slot_sz a" "i < slot_sz a \<Longrightarrow> slot a ! i = items a ! i"
    "slot_sz a < slot_max a \<Longrightarrow> slot a ! slot_sz a = (0, null)"
    "i \<le> j \<Longrightarrow> j < slot_sz a \<Longrightarrow> fst (items a ! i) \<le> fst (items a ! j)"
proof -
  show l: "length (items a) = slot_sz a" using assms by (auto simp: arry_wf_def items_def)
  have s: "slot a = items a @ replicate (slot_max a - slot_sz a) (0, null)" using assms unfolding arry_wf_def by blast
  show "i < slot_sz a \<Longrightarrow> slot a ! i = items a ! i" by (simp add: items_def)
  show "slot_sz a < slot_max a \<Longrightarrow> slot a ! slot_sz a = (0, null)" by (subst s) (simp add: nth_append l)
  show "i \<le> j \<Longrightarrow> j < slot_sz a \<Longrightarrow> fst (items a ! i) \<le> fst (items a ! j)"
    using sorted_nth_mono [of "map fst (items a)" i j] assms l by (simp add: arry_wf_def)
qed

lemma search_inv_None:
  assumes "arry_wf null a" "search_inv a low high k" "\<And>i. i < slot_sz a \<Longrightarrow> low \<le> int i \<Longrightarrow> int i \<le> high \<Longrightarrow> fst (items a ! i) \<noteq> k"
  shows "map_of (items a) k = None"
proof -
  have "fst (items a ! i) \<noteq> k" if "i < slot_sz a" for i
    using assms(2) assms(3) [OF that] that unfolding search_inv_def by (metis less_irrefl linorder_not_le)
  then have "\<forall>x\<in>set (items a). fst x \<noteq> k" using arry_wf_nth(1) [OF assms(1)] by (metis in_set_conv_nth)
  then show ?thesis unfolding map_of_eq_None_iff by auto
qed

lemma binary_search_result:
  assumes "arry_wf null a" "distinct (map fst (items a))" "slot_sz a > 0" "search_inv a low high k"
  shows "binary_search null (slot a) low high k = find_result null a k"
  using assms(4)
proof (induction "nat (high - low + 1)" arbitrary: low high rule: less_induct)
  case less
  let ?m = "low + (high - low) div 2"
  note inv = less.prems [unfolded search_inv_def]
  note wf = arry_wf_nth [OF assms(1)]
  have max: "length (slot a) = slot_max a" "slot_sz a \<le> slot_max a" using assms(1) by (auto simp: arry_wf_def)
  have last: "items a ! (slot_sz a - 1) \<in> set (items a)" using wf(1) assms(3) by simp
  consider (stop) "low > high" | (past) "low \<le> high" "?m = int (slot_sz a)" | (mid) "low \<le> high" "?m < int (slot_sz a)"
    using inv by linarith
  then show ?case
  proof cases
    case stop
    have "map_of (items a) k = None" using search_inv_None [OF assms(1) less.prems] stop by force
    moreover have "\<not> (slot_sz a = slot_max a \<and> (\<forall>x\<in>set (items a). fst x < k))" using inv stop by force
    ultimately show ?thesis using stop by (simp add: binary_search.simps [of _ _ low] find_result_def)
  next
    case past
    then have lh: "low = int (slot_sz a)" "high = int (slot_sz a)" using inv by linarith+
    have less: "\<forall>x\<in>set (items a). fst x < k" using inv lh wf(1) by (metis in_set_conv_nth of_nat_less_iff)
    have none: "map_of (items a) k = None" using less by (auto simp: map_of_eq_None_iff)
    show ?thesis
    proof (cases "slot_sz a < slot_max a")
      case True
      have "binary_search null (slot a) (low + 1) high k = ret null" "binary_search null (slot a) low (low - 1) k = ret null"
        using lh by (simp_all add: binary_search.simps)
      then show ?thesis using True lh max wf(3) none by (subst binary_search.simps) (simp add: find_result_def Let_def)
    next
      case False
      then show ?thesis using lh max less none by (subst binary_search.simps) (simp add: find_result_def)
    qed
  next
    case mid
    have m: "0 \<le> ?m" "low \<le> ?m" "?m \<le> high" "nat ?m < slot_sz a" "?m < int (length (slot a))" using inv mid max by linarith+
    let ?x = "items a ! nat ?m"
    have x: "slot a ! nat ?m = ?x" "?x \<in> set (items a)" using wf(1,2) m(4) by simp_all
    consider "fst ?x = k" | "fst ?x > k" | "fst ?x < k" by linarith
    then show ?thesis
    proof cases
      case 1
      then have "map_of (items a) k = Some (snd ?x)" using x(2) assms(2) by (metis map_of_eq_Some_iff prod.collapse)
      then show ?thesis using 1 mid m x by (subst binary_search.simps) (simp add: find_result_def Let_def)
    next
      case 2
      have "k < fst (items a ! i)" if "i < slot_sz a" "?m \<le> int i" for i
        using wf(4) [of "nat ?m" i] that 2 m(1) by (meson less_le_trans nat_le_iff)
      then have "search_inv a low (?m - 1) k" using inv m(2,3) x(2) 2 unfolding search_inv_def by auto
      then have "binary_search null (slot a) low (?m - 1) k = find_result null a k" using m by (intro less.hyps) auto
      then show ?thesis using 2 mid m x by (subst binary_search.simps) (simp add: Let_def)
    next
      case 3
      have "fst (items a ! i) < k" if "int i \<le> ?m" for i
        using wf(4) [of i "nat ?m"] that 3 m(1,4) by (meson le_less_trans le_nat_iff)
      then have "search_inv a (?m + 1) high k" using inv m(2-4) unfolding search_inv_def by auto
      then have "binary_search null (slot a) (?m + 1) high k = find_result null a k" using m by (intro less.hyps) auto
      then show ?thesis using 3 mid m x by (subst binary_search.simps) (simp add: Let_def)
    qed
  qed
qed

lemma find_item_ok:
  assumes "arry_wf null a" "distinct (map fst (items a))" "slot_sz a > 0"
  shows "find_item null a k = (case map_of (items a) k of Some v \<Rightarrow> ret v
     | None \<Rightarrow> if slot_sz a = slot_max a \<and> (\<forall>x\<in>set (items a). fst x < k) then abort OutOfBounds else ret null)"
proof -
  have "search_inv a 0 (int (slot_sz a)) k" by (simp add: search_inv_def)
  from binary_search_result [OF assms this] show ?thesis using assms(3) by (simp add: find_item_def find_result_def)
qed

text \<open>
  C25. A search in a non-empty well-formed array with distinct keys finds the value of its key, or the null value when the key is
  not there; but when the array is full and every key in it is smaller, the search, which starts one position too high, reads
  behind the array's end.
\<close>

theorem binary_arry_find:
  assumes "arry_wf null a" "distinct (map fst (items a))" "slot_sz a > 0"
  shows "find_item null a k = (case map_of (items a) k of Some v \<Rightarrow> ret v
     | None \<Rightarrow> if slot_sz a = slot_max a \<and> (\<forall>x\<in>set (items a). fst x < k) then abort OutOfBounds else ret null)"
  using assms by (rule find_item_ok)

theorem binary_arry_find_witness:
  "find_item 0 \<lparr>slot = [(1, 5 :: nat), (4, 6)], slot_sz = 2, slot_max = 2, slot_def = 2\<rparr> 4 = ret 6
    \<and> find_item 0 \<lparr>slot = [(1, 5 :: nat), (4, 6)], slot_sz = 2, slot_max = 2, slot_def = 2\<rparr> 9 = abort OutOfBounds"
proof -
  let ?a = "\<lparr>slot = [(1, 5 :: nat), (4, 6)], slot_sz = 2, slot_max = 2, slot_def = 2\<rparr>"
  have a: "arry_wf 0 ?a" "distinct (map fst (items ?a))" "slot_sz ?a > 0" by (simp_all add: arry_wf_def items_def)
  show ?thesis using binary_arry_find [OF a, of 4] binary_arry_find [OF a, of 9] by (simp add: items_def)
qed

end
