(* ===== verification/LogicObjects.thy ===== *)
theory LogicObjects
  imports CoreLogic BinaryArry
begin

text \<open>
  The logic objects of the C++ library: the identifier table of \<^verbatim>\<open>net/logic_store.cpp\<close>, and objects with their message
  handlers in \<^verbatim>\<open>net/logic.cpp\<close>. The table differs from that of \<^verbatim>\<open>net/corelogic.c\<close> in its first size and in when an object learns its
  identifier; a simulation carries the C table's theorems over. The critical sections are taken as atomic.
\<close>

section \<open>State\<close>

text \<open>A handler is a number that the environment interprets, or null.\<close>

record cpp_logic =
  cl_id :: u32
  cl_array :: "nat option binary_arry"

record lstore =
  ls_slot :: "nat option list"
  ls_size :: u32
  ls_index :: u32
  ls_objs :: "nat \<rightharpoonup> cpp_logic"

definition cl_load :: "(nat \<rightharpoonup> cpp_logic) \<Rightarrow> nat option \<Rightarrow> cpp_logic prog" where
  "cl_load m p = (case p of None \<Rightarrow> abort NullDeref
     | Some a \<Rightarrow> (case m a of None \<Rightarrow> abort WildPointer | Some l \<Rightarrow> ret l))"

section \<open>logic\_store\<close>

fun ls_resize_loop :: "(nat \<rightharpoonup> cpp_logic) \<Rightarrow> u32 \<Rightarrow> nat option list \<Rightarrow> nat option list \<Rightarrow> nat option list prog" where
  "ls_resize_loop m sz [] newlist = ret newlist"
| "ls_resize_loop m sz (p # ps) newlist =
     bnd (cl_load m p) (\<lambda>l.
     bnd (slot_write newlist (slot_hash (cl_id l) (sz * 2)) p) (\<lambda>newlist.
     ls_resize_loop m sz ps newlist))"

definition ls_resize :: "lstore \<Rightarrow> lstore prog" where
  "ls_resize s =
     (let new_size = (if ls_size s \<noteq> 0 then ls_size s else 128);
          new_size = new_size * 2;
          newlist = replicate (unat new_size) None in
     bnd (ls_resize_loop (ls_objs s) (ls_size s) (take (unat (ls_size s)) (ls_slot s)) newlist) (\<lambda>newlist.
     ret (s\<lparr>ls_slot := newlist, ls_size := new_size\<rparr>)))"

definition logic_store_new :: "(nat \<rightharpoonup> cpp_logic) \<Rightarrow> lstore prog" where
  "logic_store_new objs = ls_resize \<lparr>ls_slot = [], ls_size = 0, ls_index = 0, ls_objs = objs\<rparr>"

function ls_scan :: "lstore \<Rightarrow> nat \<Rightarrow> nat \<Rightarrow> (u32 \<times> lstore) option prog" where
  "ls_scan s lgc i =
     (if i < unat (ls_size s) then
        let handle = of_nat i + ls_index s; hash = slot_hash handle (ls_size s) in
        bnd (slot_read (ls_slot s) hash) (\<lambda>p.
        if p = None then
          bnd (slot_write (ls_slot s) hash (Some lgc)) (\<lambda>slots.
          ret (Some (handle, s\<lparr>ls_slot := slots, ls_index := handle + 1\<rparr>)))
        else ls_scan s lgc (i + 1))
      else ret None)"
  by pat_completeness auto

termination
  by (relation "measure (\<lambda>(s, _, i). unat (ls_size s) - i)") auto

declare ls_scan.simps [simp del]

partial_function (option) ls_reg :: "lstore \<Rightarrow> nat \<Rightarrow> (u32 \<times> lstore) prog" where
  "ls_reg s lgc =
     bnd (ls_scan s lgc 0) (\<lambda>r.
     case r of Some x \<Rightarrow> ret x | None \<Rightarrow> bnd (ls_resize s) (\<lambda>s. ls_reg s lgc))"

definition ls_grub :: "lstore \<Rightarrow> u32 \<Rightarrow> nat option prog" where
  "ls_grub s ident =
     bnd (slot_read (ls_slot s) (slot_hash ident (ls_size s))) (\<lambda>p.
     case p of None \<Rightarrow> ret None
     | Some a \<Rightarrow> bnd (cl_load (ls_objs s) (Some a)) (\<lambda>l. ret (if cl_id l \<noteq> ident then None else Some a)))"

section \<open>logic\<close>

text \<open>
  The constructor of the object at \<open>p\<close>; its identifier is unset (\<open>junk\<close>) while \<^verbatim>\<open>reg\<close> runs.
\<close>

definition logic_new :: "u32 \<Rightarrow> lstore \<Rightarrow> nat \<Rightarrow> (u32 \<times> lstore) prog" where
  "logic_new junk s p =
     (let l = \<lparr>cl_id = junk, cl_array = binary_arry_new 0\<rparr> in
     bnd (ls_reg (s\<lparr>ls_objs := (ls_objs s)(p \<mapsto> l)\<rparr>) p) (\<lambda>(handle, s).
     ret (handle, s\<lparr>ls_objs := (ls_objs s)(p \<mapsto> l\<lparr>cl_id := handle\<rparr>)\<rparr>)))"

definition addhandler :: "lstore \<Rightarrow> nat \<Rightarrow> int \<Rightarrow> nat option \<Rightarrow> lstore prog" where
  "addhandler s p msg_id h =
     bnd (cl_load (ls_objs s) (Some p)) (\<lambda>l.
     bnd (insert_item None (cl_array l) msg_id h) (\<lambda>(_, a).
     ret (s\<lparr>ls_objs := (ls_objs s)(p \<mapsto> l\<lparr>cl_array := a\<rparr>)\<rparr>)))"

record cpp_msg =
  msg_id :: int
  msg_body :: nat

text \<open>\<open>hcall\<close> interprets a handler, on the object and the message.\<close>

definition on_logic :: "(nat \<Rightarrow> nat \<Rightarrow> cpp_msg \<Rightarrow> 'w \<Rightarrow> 'w prog) \<Rightarrow> lstore \<Rightarrow> nat \<Rightarrow> cpp_msg \<Rightarrow> 'w \<Rightarrow> 'w prog" where
  "on_logic hcall s p msg w =
     bnd (cl_load (ls_objs s) (Some p)) (\<lambda>l.
     bnd (find_item None (cl_array l) (msg_id msg)) (\<lambda>h.
     case h of Some f \<Rightarrow> hcall f p msg w | None \<Rightarrow> abort AssertionFailed))"

text \<open>
  Posting: \<open>io_post\<close> is the completion port's post of an event for the receiver. The boolean tells whether the event and its
  message were deleted again.
\<close>

definition logic_post ::
  "(nat \<Rightarrow> cpp_msg \<Rightarrow> 'w \<Rightarrow> u32 \<times> 'w) \<Rightarrow> lstore \<Rightarrow> nat \<Rightarrow> u32 \<Rightarrow> cpp_msg \<Rightarrow> 'w \<Rightarrow> (u32 \<times> bool \<times> 'w) prog" where
  "logic_post io_post s self destination msg w =
     bnd (cl_load (ls_objs s) (Some self)) (\<lambda>l.
     bnd (assert_c (destination \<noteq> cl_id l)) (\<lambda>_.
     bnd (ls_grub s destination) (\<lambda>recv.
     case recv of None \<Rightarrow> abort AssertionFailed
     | Some a \<Rightarrow> (case io_post a msg w of (err, w) \<Rightarrow> ret (err, err \<noteq> 0 \<and> err \<noteq> 997, w)))))"

text \<open>
  The handler of the event: the receiver's \<^verbatim>\<open>on_logic\<close>. The deletion of the event and its message that follows is part of
  \<open>sv_logic_call\<close>, in the theory of the endpoints, where the messages are in the state.
\<close>

definition logic_call :: "(nat \<Rightarrow> nat \<Rightarrow> cpp_msg \<Rightarrow> 'w \<Rightarrow> 'w prog) \<Rightarrow> lstore \<Rightarrow> nat \<Rightarrow> cpp_msg \<Rightarrow> 'w \<Rightarrow> 'w prog" where
  "logic_call hcall s data msg w = on_logic hcall s data msg w"

section \<open>Simulation by the C table\<close>

definition as_core :: "cpp_logic \<Rightarrow> core_logic" where
  "as_core l = \<lparr>lg_ref = 1, logic_id = cl_id l, lg_mod = None, lg_inst = 0, lg_call = None, lg_cmd = None, lg_io = 0\<rparr>"

definition as_cores :: "(nat \<rightharpoonup> cpp_logic) \<Rightarrow> nat \<rightharpoonup> core_logic" where
  "as_cores m p = map_option as_core (m p)"

definition as_store :: "lstore \<Rightarrow> unit logic_state" where
  "as_store s = \<lparr>st_slot = ls_slot s, allocid = ls_index s, slot_size = ls_size s, lgcs = as_cores (ls_objs s),
     lg_brk = 0, rest = ()\<rparr>"

definition set_id :: "lstore \<Rightarrow> nat \<Rightarrow> u32 \<Rightarrow> lstore" where
  "set_id s p h = s\<lparr>ls_objs := (ls_objs s)(p \<mapsto> (the (ls_objs s p))\<lparr>cl_id := h\<rparr>)\<rparr>"

lemma as_store_fields [simp]:
  "st_slot (as_store s) = ls_slot s" "allocid (as_store s) = ls_index s" "slot_size (as_store s) = ls_size s"
  "lgcs (as_store s) = as_cores (ls_objs s)"
  by (simp_all add: as_store_def)

lemma cl_load_core: "lg_load (as_cores m) p = bnd (cl_load m p) (\<lambda>l. ret (as_core l))"
  by (simp add: lg_load_def cl_load_def as_cores_def split: option.splits)

lemma dom_as_cores [simp]: "dom (as_cores m) = dom m"
  by (auto simp: as_cores_def)

lemma as_core_id [simp]: "logic_id (as_core l) = cl_id l"
  by (simp add: as_core_def)

lemma resize_loop_sim: "resize_loop (as_cores m) sz ps nl = ls_resize_loop m sz ps nl"
proof (induction ps arbitrary: nl)
  case (Cons p ps)
  then have "resize_loop (as_cores m) sz ps = ls_resize_loop m sz ps" by (intro ext)
  then show ?case by (simp add: cl_load_core bnd_assoc)
qed simp

lemma resize_sim:
  assumes "ls_size s \<noteq> 0"
  shows "corelogic_store_resize (as_store s) = bnd (ls_resize s) (\<lambda>s. ret (as_store s))"
  using assms by (simp add: corelogic_store_resize_def ls_resize_def Let_def resize_loop_sim bnd_assoc word_greater_zero_iff as_store_def)

lemma as_store_set_id:
  assumes "ls_objs s p = Some l"
  shows "as_store (set_id s p h) = (as_store s)\<lparr>lgcs := (lgcs (as_store s))(p \<mapsto> (as_core l)\<lparr>logic_id := h\<rparr>)\<rparr>"
  using assms by (auto simp: as_store_def set_id_def as_core_def as_cores_def fun_eq_iff)

lemma scan_sim:
  assumes "ls_objs s p = Some l"
  shows "reg_scan (as_store s) p i = bnd (ls_scan s p i) (\<lambda>r. ret (map_option (\<lambda>(h, s). (h, as_store (set_id s p h))) r))"
  using assms
proof (induction s p i rule: ls_scan.induct)
  case (1 s p i)
  show ?case
  proof (cases "i < unat (ls_size s)")
    case True
    let ?h = "of_nat i + ls_index s"
    show ?thesis
    proof (cases "slot_read (ls_slot s) (slot_hash ?h (ls_size s)) = ret None")
      case free: True
      have l: "lg_load (as_cores (ls_objs s)) (Some p) = ret (as_core l)" using 1(2) by (simp add: lg_load_def as_cores_def)
      have "as_store (set_id (s\<lparr>ls_slot := sl, ls_index := ?h + 1\<rparr>) p ?h)
          = (as_store s)\<lparr>lgcs := (as_cores (ls_objs s))(p \<mapsto> (as_core l)\<lparr>logic_id := ?h\<rparr>), st_slot := sl, allocid := ?h + 1\<rparr>" for sl
        using 1(2) by (subst as_store_set_id [of _ _ l]) (simp_all add: as_store_def)
      then show ?thesis using True free l
        by (simp add: reg_scan.simps [of "as_store s" p i] ls_scan.simps [of s p i] Let_def bnd_assoc)
    next
      case False
      have IH: "reg_scan (as_store s) p (i + 1) = bnd (ls_scan s p (i + 1)) (\<lambda>r. ret (map_option (\<lambda>(h, s). (h, as_store (set_id s p h))) r))"
        if "slot_read (ls_slot s) (slot_hash ?h (ls_size s)) = ret q" "q \<noteq> None" for q
        using 1(1) [OF True refl refl] that 1(2) by blast
      show ?thesis
      proof (cases "\<exists>q. slot_read (ls_slot s) (slot_hash ?h (ls_size s)) = ret q")
        case q: True
        then obtain a where a: "slot_read (ls_slot s) (slot_hash ?h (ls_size s)) = ret (Some a)" using False by auto
        then show ?thesis using IH [OF a] True by (simp add: reg_scan.simps [of "as_store s" p i] ls_scan.simps [of s p i] Let_def)
      next
        case False
        then obtain e where "slot_read (ls_slot s) (slot_hash ?h (ls_size s)) = abort e" by (auto simp: slot_read_def split: if_splits)
        then show ?thesis using True by (simp add: reg_scan.simps [of "as_store s" p i] ls_scan.simps [of s p i] Let_def)
      qed
    qed
  next
    case False
    then show ?thesis by (simp add: reg_scan.simps [of "as_store s"] ls_scan.simps [of s])
  qed
qed

lemma ls_scan_objs: "ls_scan s q i = ret (Some (h, s')) \<Longrightarrow> ls_objs s' = ls_objs s"
proof (induction s q i rule: ls_scan.induct)
  case (1 s q i)
  from 1(2) show ?case
    by (subst (asm) ls_scan.simps) (auto simp: Let_def bnd_eq_ret split: if_splits dest: 1(1) [OF _ refl refl])
qed

text \<open>Registration in C++ is registration in the C table, followed by the assignment of the identifier.\<close>

lemma reg_sim:
  assumes ok: "store_ok (as_store s)" and p: "ls_objs s p = Some l" "Some p \<notin> set (ls_slot s)"
    and size: "ls_size s \<noteq> 0" "unat (ls_size s) \<le> 2 ^ 29"
  shows "\<exists>h s'. ls_reg s p = ret (h, s') \<and> corelogic_store_reg (as_store s) (Some p) = ret (h, as_store (set_id s' p h))
    \<and> ls_objs s' = ls_objs s"
proof -
  have dom: "p \<in> dom (lgcs (as_store s))" using p(1) by (auto simp: as_cores_def)
  note objs = ls_scan_objs
  have hit: "\<exists>s'. ls_scan t p 0 = ret (Some (h, s')) \<and> t'' = as_store (set_id s' p h)"
    if "reg_scan (as_store t) p 0 = ret (Some (h, t''))" "ls_objs t p = Some l" for t h t''
    using that scan_sim [OF that(2), of 0] by (auto simp: bnd_eq_ret)
  show ?thesis
  proof (cases "None \<in> set (ls_slot s)")
    case True
    then obtain h t where r: "reg_scan (as_store s) p 0 = ret (Some (h, t))" using reg_scan_free [OF ok dom] p(2) by auto
    from hit [OF r p(1)] obtain s' where s': "ls_scan s p 0 = ret (Some (h, s'))" "t = as_store (set_id s' p h)" by auto
    then show ?thesis using r objs [OF s'(1)]
      by (simp add: ls_reg.simps [of s] corelogic_store_reg_def reg_loop.simps [of "as_store s"])
  next
    case False
    have full: "reg_scan (as_store s) p 0 = ret None" using reg_scan_full [OF ok dom] False by simp
    then have f: "ls_scan s p 0 = ret None" using scan_sim [OF p(1), of 0] by (auto simp: bnd_eq_ret)
    from resize_ok [OF ok] False size(2) obtain st1 where
      st1: "corelogic_store_resize (as_store s) = ret st1" "store_ok st1" "lgcs st1 = lgcs (as_store s)"
        "None \<in> set (st_slot st1)" "set (st_slot st1) \<subseteq> insert None (set (ls_slot s))" by auto
    then obtain s1 where s1: "ls_resize s = ret s1" "st1 = as_store s1" using resize_sim [OF size(1)] by (auto simp: bnd_eq_ret)
    have o1: "ls_objs s1 = ls_objs s" using s1(1) by (auto simp: ls_resize_def Let_def bnd_eq_ret)
    have "p \<in> dom (lgcs st1)" "Some p \<notin> set (st_slot st1)" using st1 dom p(2) by auto
    from reg_scan_free [OF st1(2) this st1(4)] obtain h t where r: "reg_scan (as_store s1) p 0 = ret (Some (h, t))" using s1(2) by auto
    have "ls_objs s1 p = Some l" using o1 p(1) by simp
    from hit [OF r this] obtain s' where s': "ls_scan s1 p 0 = ret (Some (h, s'))" "t = as_store (set_id s' p h)" by auto
    then show ?thesis using r f full st1(1) s1 o1 objs [OF s'(1)]
      by (simp add: ls_reg.simps [of s] ls_reg.simps [of s1] corelogic_store_reg_def reg_loop.simps [of "as_store s"] reg_loop.simps [of "as_store s1"])
  qed
qed

definition lregistry :: "lstore \<Rightarrow> u32 \<rightharpoonup> nat" where
  "lregistry s = registry (as_store s)"

text \<open>
  A new object is registered under an identifier no other object has, exactly that entry is added to the map from
  identifiers to objects, whether or not the table had to grow, and looking the identifier up finds the object.
\<close>

lemma logic_new_ok:
  assumes ok: "store_ok (as_store s)" and p: "ls_objs s p = None" and size: "ls_size s \<noteq> 0" "unat (ls_size s) \<le> 2 ^ 29"
  shows "\<exists>h s'. logic_new junk s p = ret (h, s') \<and> store_ok (as_store s') \<and> lregistry s h = None
    \<and> lregistry s' = (lregistry s)(h \<mapsto> p) \<and> ls_objs s' = (ls_objs s)(p \<mapsto> \<lparr>cl_id = h, cl_array = binary_arry_new 0\<rparr>)"
proof -
  let ?l = "\<lparr>cl_id = junk, cl_array = binary_arry_new 0\<rparr>" and ?s = "s\<lparr>ls_objs := (ls_objs s)(p \<mapsto> \<lparr>cl_id = junk, cl_array = binary_arry_new 0\<rparr>)\<rparr>"
  have fresh: "Some p \<notin> set (ls_slot s)"
    using store_ok_at [OF ok] p by (fastforce simp: in_set_conv_nth)
  have at: "q \<noteq> p" if "ls_slot s ! j = Some q" "j < length (ls_slot s)" for q j using fresh that nth_mem by metis
  have ids: "ident_of (as_cores (ls_objs ?s)) q = ident_of (as_cores (ls_objs s)) q" if "q \<noteq> p" for q
    using that by (simp add: ident_of_def as_cores_def)
  have ok': "store_ok (as_store ?s)"
    using ok at ids unfolding store_ok_def by (auto simp: as_cores_def)
  have "lregistry ?s i = lregistry s i" for i
  proof (cases "ls_slot s = []")
    case False
    then have "slot_hash i (ls_size s) < length (ls_slot s)" using slot_hash_length [OF ok, of i] by simp
    then show ?thesis using at ids by (auto simp: lregistry_def registry_def split: option.splits)
  qed (simp add: lregistry_def registry_def)
  then have reg: "lregistry ?s = lregistry s" by (rule ext)
  obtain h s' where r: "ls_reg ?s p = ret (h, s')" "corelogic_store_reg (as_store ?s) (Some p) = ret (h, as_store (set_id s' p h))"
    "ls_objs s' = ls_objs ?s"
    using reg_sim [OF ok', of p ?l] fresh size by auto
  have "p \<in> dom (lgcs (as_store ?s))" by (auto simp: as_cores_def)
  from register_ok [OF ok' this] fresh size r(2) have
    "store_ok (as_store (set_id s' p h))" "registry (as_store ?s) h = None" "registry (as_store (set_id s' p h)) = (registry (as_store ?s))(h \<mapsto> p)"
    by auto
  moreover have "set_id s' p h = s'\<lparr>ls_objs := (ls_objs s')(p \<mapsto> ?l\<lparr>cl_id := h\<rparr>)\<rparr>" using r(3) by (simp add: set_id_def)
  ultimately show ?thesis using r reg unfolding lregistry_def by (auto simp: logic_new_def)
qed

lemma ls_grub_registry:
  assumes "store_ok (as_store s)" "ls_size s \<noteq> 0"
  shows "ls_grub s ident = ret (lregistry s ident)"
proof -
  have ne: "ls_slot s \<noteq> []" using store_ok_empty [OF assms(1)] assms(2) by simp
  then have lt: "slot_hash ident (ls_size s) < length (ls_slot s)" using slot_hash_length [OF assms(1), of ident] by simp
  show ?thesis
  proof (cases "ls_slot s ! slot_hash ident (ls_size s)")
    case None
    then show ?thesis using ne lt by (simp add: ls_grub_def slot_read_def lregistry_def registry_def)
  next
    case (Some a)
    then obtain l where "ls_objs s a = Some l" using store_ok_at [OF assms(1), of _ a] lt by auto
    then show ?thesis using ne lt Some
      by (simp add: ls_grub_def slot_read_def lregistry_def registry_def cl_load_def ident_of_def as_cores_def)
  qed
qed

section \<open>Messages\<close>

text \<open>An object whose handlers are stored under distinct message numbers in a well-formed array.\<close>

definition handlers_ok :: "cpp_logic \<Rightarrow> bool" where
  "handlers_ok l \<longleftrightarrow> arry_wf None (cl_array l) \<and> distinct (map fst (items (cl_array l)))"

definition handler :: "cpp_logic \<Rightarrow> int \<rightharpoonup> nat" where
  "handler l k = (case map_of (items (cl_array l)) k of Some h \<Rightarrow> h | None \<Rightarrow> None)"

lemma map_of_insort:
  "k \<notin> fst ` set xs \<Longrightarrow> map_of (insort_key fst (k, v) xs) = (map_of xs)(k \<mapsto> v)"
  by (induction xs) auto

lemma distinct_insort_fst:
  "distinct (map fst xs) \<Longrightarrow> k \<notin> fst ` set xs \<Longrightarrow> distinct (map fst (insort_key fst (k, v) xs))"
  by (induction xs) (auto simp: set_insort_key)

lemma addhandler_ok:
  assumes "ls_objs s p = Some l" "handlers_ok l" "k \<notin> fst ` set (items (cl_array l))"
  shows "\<exists>l'. addhandler s p k h = ret (s\<lparr>ls_objs := (ls_objs s)(p \<mapsto> l')\<rparr>) \<and> cl_id l' = cl_id l \<and> handlers_ok l'
    \<and> handler l' = (handler l)(k := h) \<and> slot_sz (cl_array l') > 0 \<and> fst ` set (items (cl_array l')) = insert k (fst ` set (items (cl_array l)))"
proof -
  from insert_item_ok [of None "cl_array l" k h] assms(2) obtain a where
    a: "insert_item None (cl_array l) k h = ret (True, a)" "arry_wf None a" "items a = insort_key fst (k, h) (items (cl_array l))"
    by (auto simp: handlers_ok_def)
  have "distinct (map fst (items a))"
    using assms(2,3) unfolding a(3) handlers_ok_def by (simp add: distinct_insort_fst)
  moreover have "handler (l\<lparr>cl_array := a\<rparr>) = (handler l)(k := h)"
    using map_of_insort [OF assms(3), of h] a(3) by (auto simp: handler_def)
  moreover have "slot_sz a > 0" using arry_wf_nth(1) [OF a(2)] a(3) by simp
  moreover have "fst ` set (items a) = insert k (fst ` set (items (cl_array l)))" using a(3) by (simp add: set_insort_key)
  ultimately show ?thesis using a assms(1)
    by (intro exI [of _ "l\<lparr>cl_array := a\<rparr>"]) (simp add: addhandler_def cl_load_def handlers_ok_def)
qed

lemma on_logic_handler:
  assumes "ls_objs s p = Some l" "handlers_ok l" "handler l (msg_id msg) = Some f"
  shows "on_logic hcall s p msg w = hcall f p msg w"
proof -
  have m: "map_of (items (cl_array l)) (msg_id msg) = Some (Some f)" using assms(3) by (auto simp: handler_def split: option.splits)
  then have "slot_sz (cl_array l) > 0" using arry_wf_nth(1) [of None "cl_array l"] assms(2)
    by (cases "items (cl_array l)") (auto simp: handlers_ok_def)
  then have "find_item None (cl_array l) (msg_id msg) = ret (Some f)"
    using find_item_ok [of None "cl_array l" "msg_id msg"] assms(2) m by (simp add: handlers_ok_def)
  then show ?thesis using assms(1) by (simp add: on_logic_def cl_load_def)
qed

lemma as_store_handlers:
  assumes "ls_objs s p = Some l" "cl_id l' = cl_id l"
  shows "as_store (s\<lparr>ls_objs := (ls_objs s)(p \<mapsto> l')\<rparr>) = as_store s"
  using assms by (auto simp: as_store_def as_cores_def as_core_def fun_eq_iff)

text \<open>
  C19. From construction to delivery: a new object is registered under an identifier nobody had, whether or not the table has to
  grow; once a handler is added for a message number, a message that any other registered object posts to the identifier is
  queued for the new object, and its delivery runs exactly that handler on it.
\<close>

theorem logic_new_delivers:
  assumes ok: "store_ok (as_store s)" and p: "ls_objs s p = None" and size: "ls_size s \<noteq> 0" "unat (ls_size s) \<le> 2 ^ 29"
    and self: "ls_objs s self = Some l" "lregistry s (cl_id l) = Some self"
  shows "\<exists>h s1 s2. logic_new junk s p = ret (h, s1) \<and> lregistry s h = None \<and> lregistry s1 = (lregistry s)(h \<mapsto> p)
    \<and> addhandler s1 p (msg_id msg) (Some f) = ret s2
    \<and> logic_post io_post s2 self h msg w =
        ret (fst (io_post p msg w), fst (io_post p msg w) \<noteq> 0 \<and> fst (io_post p msg w) \<noteq> 997, snd (io_post p msg w))
    \<and> logic_call hcall s2 p msg w' = hcall f p msg w'"
proof -
  obtain h s1 where n: "logic_new junk s p = ret (h, s1)" "store_ok (as_store s1)" "lregistry s h = None"
    "lregistry s1 = (lregistry s)(h \<mapsto> p)" "ls_objs s1 = (ls_objs s)(p \<mapsto> \<lparr>cl_id = h, cl_array = binary_arry_new 0\<rparr>)" (is "_ = (ls_objs s)(p \<mapsto> ?o)")
    using logic_new_ok [OF ok p size] by blast
  have o: "ls_objs s1 p = Some ?o" "handlers_ok ?o" "msg_id msg \<notin> fst ` set (items (cl_array ?o))"
    using n(5) by (simp_all add: handlers_ok_def binary_arry_new_wf)
  from addhandler_ok [OF o, of "Some f"] obtain l' where
    l': "addhandler s1 p (msg_id msg) (Some f) = ret (s1\<lparr>ls_objs := (ls_objs s1)(p \<mapsto> l')\<rparr>)" (is "_ = ret ?s2")
    "cl_id l' = cl_id ?o" "handlers_ok l'" "handler l' = (handler ?o)(msg_id msg := Some f)" by auto
  have as2: "as_store ?s2 = as_store s1" using as_store_handlers [OF o(1) l'(2)] .
  have ne: "ls_size ?s2 \<noteq> 0" using store_ok_empty [OF n(2)] registry_Some(1) [OF n(2), of h p] n(4) by (simp add: lregistry_def)
  have grub: "ls_grub ?s2 h = ret (Some p)"
    using ls_grub_registry [of ?s2 h] n(2,4) ne as2 by (simp add: lregistry_def)
  have "self \<noteq> p" "h \<noteq> cl_id l" using self p n(3) by auto
  then have "cl_load (ls_objs ?s2) (Some self) = ret l" using self(1) n(5) by (simp add: cl_load_def)
  then have post: "logic_post io_post ?s2 self h msg w =
      ret (fst (io_post p msg w), fst (io_post p msg w) \<noteq> 0 \<and> fst (io_post p msg w) \<noteq> 997, snd (io_post p msg w))"
    using grub \<open>h \<noteq> cl_id l\<close> by (simp add: logic_post_def split_beta)
  have "logic_call hcall ?s2 p msg w' = hcall f p msg w'"
    unfolding logic_call_def by (rule on_logic_handler [of _ _ l']) (simp_all add: l'(3,4))
  then show ?thesis using n(1,3,4) l'(1) post by blast
qed

text \<open>A store with one object, as the constructor leaves it.\<close>

definition one_object :: lstore where
  "one_object = \<lparr>ls_slot = (replicate 64 None)[0 := Some 0], ls_size = 64, ls_index = 1,
     ls_objs = [0 \<mapsto> \<lparr>cl_id = 0, cl_array = binary_arry_new 0\<rparr>]\<rparr>"

lemma one_object_ok: "store_ok (as_store one_object)" "lregistry one_object 0 = Some 0"
proof -
  have "size_ok 64 ((replicate 64 None)[0 := Some (0 :: nat)])"
    unfolding size_ok_def by (intro disjI2 exI [of _ 6]) simp
  moreover have "(replicate 64 None)[0 := Some (0 :: nat)] ! h = (if h = 0 then Some 0 else None)" if "h < 64" for h
    using that by (simp add: nth_list_update)
  ultimately show "store_ok (as_store one_object)"
    by (auto simp: store_ok_def one_object_def ident_of_def as_cores_def slot_hash_def split: if_splits)
  show "lregistry one_object 0 = Some 0"
    by (simp add: lregistry_def registry_def one_object_def slot_hash_def ident_of_def as_cores_def)
qed

theorem logic_new_delivers_witness:
  "\<exists>h s1 s2. logic_new 0 one_object 7 = ret (h, s1) \<and> addhandler s1 7 5 (Some 3) = ret s2
    \<and> logic_post (\<lambda>a m w. (0, m # w)) s2 0 h \<lparr>msg_id = 5, msg_body = 9\<rparr> [] = ret (0, False, [\<lparr>msg_id = 5, msg_body = 9\<rparr>])
    \<and> logic_call (\<lambda>f a m w. ret (f # w)) s2 7 \<lparr>msg_id = 5, msg_body = 9\<rparr> [] = ret [3]"
proof -
  have "ls_objs one_object 7 = None" "ls_size one_object \<noteq> 0" "unat (ls_size one_object) \<le> 2 ^ 29"
    "ls_objs one_object 0 = Some \<lparr>cl_id = 0, cl_array = binary_arry_new 0\<rparr>"
    by (simp_all add: one_object_def)
  from logic_new_delivers [OF one_object_ok(1) this, where msg = "\<lparr>msg_id = 5, msg_body = 9\<rparr>" and f = 3 and junk = 0
      and io_post = "\<lambda>a m w. (0, m # w)" and hcall = "\<lambda>f a m w. ret (f # w)" and w = "[]" and w' = "[]"] one_object_ok(2)
  show ?thesis by auto
qed

end
