(* ===== verification/RingBuffer.thy ===== *)
theory RingBuffer
  imports BufferChain
begin

text \<open>
  The ring of bytes and the list of rings of the C++ library, \<^verbatim>\<open>net/ring_buffer.cpp\<close> and \<^verbatim>\<open>net/buffer.cpp\<close>. The ring has
  the layout of the C library's buffer node, so its operations are compared with those of that node: writing is the same
  function, and reading is what the node's own read should be. The list has no count, so its emptiness is its
  null head.
\<close>

section \<open>The ring\<close>

record ring_buffer =
  rb_next :: "nat option"
  rb_buffer :: bytes
  rb_size :: u32
  rb_out :: u32
  rb_in :: u32

definition MIN_sz :: "u32 \<Rightarrow> u32 \<Rightarrow> u32" where
  "MIN_sz a b = (if a < b then a else b)"

text \<open>\<^verbatim>\<open>init\<close>; a null buffer is the empty list, \<open>junk\<close> the content of fresh memory.\<close>

definition rb_init :: "(nat \<Rightarrow> u8) \<Rightarrow> u32 \<Rightarrow> ring_buffer \<Rightarrow> ring_buffer" where
  "rb_init junk sz r =
     (let sz = (if sz \<noteq> 0 \<and> sz AND (sz - 1) \<noteq> 0 then push_bit 1 (drop_bit 1 sz + 1) else sz);
          r = r\<lparr>rb_buffer := [], rb_size := 0, rb_out := 0, rb_in := 0\<rparr> in
      if sz > 0 then r\<lparr>rb_buffer := map junk [0..<unat sz], rb_size := sz\<rparr> else r)"

definition rb_empty :: "ring_buffer \<Rightarrow> bool" where
  "rb_empty r \<longleftrightarrow> rb_in r = rb_out r"

definition rb_write :: "ring_buffer \<Rightarrow> bytes \<Rightarrow> u32 \<Rightarrow> (bool \<times> ring_buffer) prog" where
  "rb_write r data sz =
     (let all = rb_size r - (rb_in r - rb_out r) in
      if all < sz then ret (False, r)
      else
        let pos = rb_in r AND (rb_size r - 1);
            l = MIN_sz sz (rb_size r - pos)
        in bnd (memcpy (rb_buffer r) (unat pos) data 0 (unat l)) (\<lambda>b.
           bnd (memcpy b 0 data (unat l) (unat (sz - l))) (\<lambda>b.
           ret (True, r\<lparr>rb_buffer := b, rb_in := rb_in r + sz\<rparr>))))"

text \<open>The region offered for a write: its position and length.\<close>

definition rb_writebuffer :: "ring_buffer \<Rightarrow> (u32 \<times> u32) option" where
  "rb_writebuffer r =
     (let all = rb_size r - (rb_in r - rb_out r) in
      if all = 0 then None
      else
        let wp = rb_in r AND (rb_size r - 1);
            rp = rb_out r AND (rb_size r - 1)
        in Some (wp, if wp \<ge> rp then rb_size r - wp - 1 else rp - wp))"

definition rb_write_ok :: "ring_buffer \<Rightarrow> u32 \<Rightarrow> (bool \<times> ring_buffer) prog" where
  "rb_write_ok r sz =
     bnd (assert_c (sz \<le> rb_size r - (rb_in r - rb_out r))) (\<lambda>_. ret (True, r\<lparr>rb_in := rb_in r + sz\<rparr>))"

definition rb_read :: "ring_buffer \<Rightarrow> bytes \<Rightarrow> u32 \<Rightarrow> (bool \<times> ring_buffer \<times> bytes) prog" where
  "rb_read r data sz =
     (let all = rb_in r - rb_out r in
      if all < sz then ret (False, r, data)
      else
        let pos = rb_out r AND (rb_size r - 1);
            l = MIN_sz sz (rb_size r - pos)
        in bnd (memcpy data 0 (rb_buffer r) (unat pos) (unat l)) (\<lambda>d.
           bnd (memcpy d (unat l) (rb_buffer r) 0 (unat (sz - l))) (\<lambda>d.
           ret (True, r\<lparr>rb_out := rb_out r + sz\<rparr>, d))))"

definition rb_readbuffer :: "ring_buffer \<Rightarrow> (u32 \<times> u32) option" where
  "rb_readbuffer r =
     (let all = rb_in r - rb_out r in
      if all = 0 then None
      else
        let wp = rb_in r mod rb_size r;
            rp = rb_out r mod rb_size r
        in Some (rp, if wp > rp then wp - rp else rb_size r - rp))"

text \<open>The comparison of the assertion is unsigned: \<^verbatim>\<open>in - out\<close> is.\<close>

definition rb_read_ok :: "ring_buffer \<Rightarrow> u32 \<Rightarrow> (bool \<times> ring_buffer) prog" where
  "rb_read_ok r sz =
     bnd (assert_c (sz \<le> rb_in r - rb_out r)) (\<lambda>_. ret (True, r\<lparr>rb_out := rb_out r + sz\<rparr>))"

definition rb_clean :: "ring_buffer \<Rightarrow> ring_buffer" where
  "rb_clean r = r\<lparr>rb_out := 0, rb_in := 0\<rparr>"

definition rb_blank :: ring_buffer where
  "rb_blank = \<lparr>rb_next = None, rb_buffer = [], rb_size = 0, rb_out = 0, rb_in = 0\<rparr>"

definition rb_default :: "(nat \<Rightarrow> u8) \<Rightarrow> ring_buffer" where
  "rb_default junk = rb_init junk 128 rb_blank"

definition rb_sized :: "(nat \<Rightarrow> u8) \<Rightarrow> u32 \<Rightarrow> ring_buffer" where
  "rb_sized junk len = rb_init junk len rb_blank"

definition rb_from :: "(nat \<Rightarrow> u8) \<Rightarrow> bytes \<Rightarrow> u32 \<Rightarrow> ring_buffer prog" where
  "rb_from junk data len =
     (let r = rb_init junk len rb_blank in
      if len > 0 then bnd (rb_write r data len) (\<lambda>(ok, r). ret r) else ret r)"

section \<open>The ring and the buffer node\<close>

definition node_of :: "ring_buffer \<Rightarrow> buffer_node" where
  "node_of r = \<lparr>bn_next = rb_next r, bn_size = rb_size r, bn_in = rb_in r, bn_out = rb_out r, bn_buf = rb_buffer r\<rparr>"

lemma node_of_simps [simp]: "bn_next (node_of r) = rb_next r" "bn_size (node_of r) = rb_size r" "bn_in (node_of r) = rb_in r"
  "bn_out (node_of r) = rb_out r" "bn_buf (node_of r) = rb_buffer r"
  by (simp_all add: node_of_def)

text \<open>A request that wraps continues at the start of the array.\<close>

lemma wrapped_part:
  assumes inv: "node_inv n" and sz: "sz \<le> buffernode_canread n"
  shows "take (unat sz - flat_part n sz) (bn_buf n) = take (unat sz - flat_part n sz) (drop (flat_part n sz) (buffered n))"
proof (rule nth_equalityI)
  let ?N = "unat (bn_size n)" and ?l = "flat_part n sz"
  have N: "0 < ?N" "length (bn_buf n) = ?N" using node_inv_size [OF inv] by simp_all
  have used: "unat sz \<le> unat (bn_in n - bn_out n)" "unat (bn_in n - bn_out n) \<le> ?N"
    using sz node_inv_size(4) [OF inv] by (simp_all add: word_le_nat_alt buffernode_canread_def)
  show "length (take (unat sz - ?l) (bn_buf n)) = length (take (unat sz - ?l) (drop ?l (buffered n)))"
    using used N by simp
  fix i assume "i < length (take (unat sz - ?l) (bn_buf n))"
  then have i: "i < unat sz - ?l" "i < ?N" using N(2) by simp_all
  have l: "?l = ?N - unat (bn_out n) mod ?N" using i(1) by (simp add: flat_part_def min_def split: if_splits)
  have "unat (bn_out n) mod ?N \<le> ?N" using N(1) by (simp add: less_imp_le)
  then have "unat (bn_out n) mod ?N + (?l + i) = ?N + i" using l by linarith
  then have "(unat (bn_out n) mod ?N + (?l + i)) mod ?N = i" using i(2) by (simp only: mod_add_self1 mod_less)
  then have "(unat (bn_out n) + (?l + i)) mod ?N = i" by (simp add: mod_add_left_eq)
  moreover have "?l + i < unat (bn_in n - bn_out n)" using i(1) used(1) by simp
  ultimately show "take (unat sz - ?l) (bn_buf n) ! i = take (unat sz - ?l) (drop ?l (buffered n)) ! i"
    using i(1) by (simp add: buffered_def)
qed

lemma MIN_sz_CORE_MIN: "MIN_sz = CORE_MIN"
  by (simp add: fun_eq_iff MIN_sz_def CORE_MIN_def)

lemma rb_write_node:
  "rb_write r data sz = bnd (buffernode_write (node_of r) data sz) (\<lambda>(e, n).
     ret (e = 0, r\<lparr>rb_buffer := bn_buf n, rb_in := bn_in n\<rparr>))"
  by (simp add: rb_write_def buffernode_write_def Let_def MIN_sz_CORE_MIN bnd_assoc)

lemma rb_read_front:
  assumes inv: "node_inv (node_of r)" and sz: "sz \<le> rb_in r - rb_out r" "unat sz \<le> length data"
  shows "rb_read r data sz = ret (True, r\<lparr>rb_out := rb_out r + sz\<rparr>, take (unat sz) (buffered (node_of r)) @ drop (unat sz) data)"
proof -
  have s: "sz \<le> buffernode_canread (node_of r)" using sz(1) by (simp add: buffernode_canread_def)
  define l where "l = flat_part (node_of r) sz"
  define pos where "pos = rb_out r AND (rb_size r - 1)"
  define k where "k = CORE_MIN sz (rb_size r - pos)"
  note split = read_split [OF inv s, unfolded node_of_simps, folded pos_def, folded k_def, folded l_def]
  have len: "l \<le> unat sz" "unat sz \<le> length (buffered (node_of r))" "unat sz \<le> length (rb_buffer r)"
    using split(1,4) sz node_inv_size(3,4) [OF inv] by (simp_all add: word_le_nat_alt)
  have two: "take l (buffered (node_of r)) @ take (unat sz - l) (drop l (buffered (node_of r))) = take (unat sz) (buffered (node_of r))"
    using len(1) by (metis le_add_diff_inverse take_add)
  have d1: "memcpy data 0 (rb_buffer r) (unat pos) (unat k) = ret (take l (buffered (node_of r)) @ drop l data)"
    using split len sz by (simp add: memcpy_ok)
  have "memcpy (take l (buffered (node_of r)) @ drop l data) l (rb_buffer r) 0 (unat sz - l)
      = ret (take (unat sz) (buffered (node_of r)) @ drop (unat sz) data)"
    using len sz wrapped_part [OF inv s, folded l_def] by (simp add: memcpy_ok two [symmetric])
  then show ?thesis
    using sz d1 split(1,3)
    by (simp add: rb_read_def Let_def MIN_sz_CORE_MIN pos_def [symmetric] k_def [symmetric] not_less [symmetric])
qed

lemma rb_write_appends:
  assumes inv: "node_inv (node_of r)" and sz: "sz \<le> rb_size r - (rb_in r - rb_out r)" and data: "length data = unat sz"
  shows "\<exists>r'. rb_write r data sz = ret (True, r') \<and> node_inv (node_of r') \<and> buffered (node_of r') = buffered (node_of r) @ data \<and>
    rb_size r' = rb_size r"
proof -
  have c: "sz \<le> buffernode_canwrite (node_of r)" using sz by (simp add: buffernode_canwrite_def)
  let ?n = "written (node_of r) data sz"
  let ?r = "r\<lparr>rb_buffer := bn_buf ?n, rb_in := rb_in r + sz\<rparr>"
  have "rb_write r data sz = ret (True, ?r)"
    using buffernode_write_eq [OF inv c] data by (simp add: rb_write_node)
  moreover have e: "node_of ?r = ?n" by (simp add: node_of_def written_def Let_def)
  have "node_inv (node_of ?r)" "buffered (node_of ?r) = buffered (node_of r) @ data"
    unfolding e using node_inv_written [OF inv c] buffered_written [OF inv c] data by simp_all
  ultimately show ?thesis by (intro exI [of _ ?r]) simp
qed

lemma rb_read_drops:
  assumes inv: "node_inv (node_of r)" and sz: "sz \<le> rb_in r - rb_out r"
  shows "node_inv (node_of (r\<lparr>rb_out := rb_out r + sz\<rparr>))" "buffered (node_of (r\<lparr>rb_out := rb_out r + sz\<rparr>)) = drop (unat sz) (buffered (node_of r))"
proof -
  have c: "sz \<le> buffernode_canread (node_of r)" using sz by (simp add: buffernode_canread_def)
  have "buffernode_readok (node_of r) sz = (0, node_of (r\<lparr>rb_out := rb_out r + sz\<rparr>))"
    using sz by (simp add: buffernode_readok_def node_of_def not_less [symmetric])
  with buffernode_readok_drops [OF inv c] show "node_inv (node_of (r\<lparr>rb_out := rb_out r + sz\<rparr>))"
    "buffered (node_of (r\<lparr>rb_out := rb_out r + sz\<rparr>)) = drop (unat sz) (buffered (node_of r))" by auto
qed

section \<open>What the ring does\<close>

text \<open>
  C14. The ring is a queue of bytes: on a ring whose size is a power of two, a write of no more than there is room for appends its
  bytes and one for more changes nothing; a read of no more than is buffered delivers the front in order and drops
  it, also across the end of the array, and one for more delivers nothing.
\<close>

theorem ring_buffer_queue:
  assumes inv: "node_inv (node_of r)" and data: "length data = unat sz"
  shows "(if sz \<le> rb_size r - (rb_in r - rb_out r)
     then \<exists>r'. rb_write r data sz = ret (True, r') \<and> node_inv (node_of r') \<and> buffered (node_of r') = buffered (node_of r) @ data
     else rb_write r data sz = ret (False, r)) \<and>
    (if sz \<le> rb_in r - rb_out r
     then \<exists>r'. rb_read r data sz = ret (True, r', take (unat sz) (buffered (node_of r))) \<and> node_inv (node_of r') \<and>
       buffered (node_of r') = drop (unat sz) (buffered (node_of r))
     else rb_read r data sz = ret (False, r, data))"
  using rb_write_appends [OF inv _ data] rb_read_front [OF inv, of sz data] rb_read_drops [OF inv, of sz] data
  by (auto simp: not_le rb_write_def rb_read_def Let_def)

definition sample_ring :: ring_buffer where
  "sample_ring = \<lparr>rb_next = None, rb_buffer = [9] @ replicate 61 0 @ [7, 8], rb_size = 64, rb_out = - 2, rb_in = 1\<rparr>"

lemma sample_ring_node: "node_of sample_ring = sample_node"
  by (simp add: node_of_def sample_ring_def sample_node_def)

theorem ring_buffer_queue_witness:
  "\<exists>r'. rb_read sample_ring [0, 0, 0] 3 = ret (True, r', take 3 (buffered sample_node)) \<and> buffered (node_of r') = drop 3 (buffered sample_node)"
proof -
  have "3 \<le> rb_in sample_ring - rb_out sample_ring" by (simp add: sample_ring_def)
  then show ?thesis using ring_buffer_queue [of sample_ring "[0, 0, 0]" 3] sample_node_inv by (auto simp: sample_ring_node)
qed

text \<open>
  The region offered for a receive lies inside the array and holds no buffered byte; it is empty, although there is room, exactly when
  the write position is the last of the array and the read position is not beyond it.
\<close>

theorem rb_writebuffer_bounds:
  assumes inv: "node_inv (node_of r)" and w: "rb_writebuffer r = Some (p, l)"
  shows "unat p + unat l \<le> length (rb_buffer r) \<and> unat l \<le> unat (rb_size r) - length (buffered (node_of r)) \<and>
    (l = 0 \<longleftrightarrow> unat p = unat (rb_size r) - 1)"
proof -
  define N where "N = unat (rb_size r)"
  define used where "used = unat (rb_in r - rb_out r)"
  define wp rp where "wp = rb_in r AND (rb_size r - 1)" and "rp = rb_out r AND (rb_size r - 1)"
  have N: "0 < N" "length (rb_buffer r) = N" "used \<le> N" using node_inv_size [OF inv] by (simp_all add: N_def used_def)
  have pos: "unat wp = unat (rb_in r) mod N" "unat rp = unat (rb_out r) mod N" "(unat rp + used) mod N = unat wp"
    using write_region [OF inv] by (simp_all add: wp_def rp_def N_def used_def mod_add_left_eq)
  have lt: "unat wp < N" "unat rp < N" using pos N(1) by simp_all
  have some: "rb_size r - (rb_in r - rb_out r) \<noteq> 0" "p = wp" "l = (if wp \<ge> rp then rb_size r - wp - 1 else rp - wp)"
    using w by (auto simp: rb_writebuffer_def Let_def wp_def rp_def split: if_splits)
  have "rb_in r - rb_out r \<noteq> rb_size r" using some(1) by simp
  then have "used \<noteq> N" unfolding used_def N_def using unsigned_word_eqI by blast
  then have full: "used < N" using N(3) by simp
  have eq: "unat wp = (if unat rp + used < N then unat rp + used else unat rp + used - N)"
    using pos(3) lt(2) full by (simp add: mod_wrap)
  have "unat l = (if unat rp \<le> unat wp then N - unat wp - 1 else unat rp - unat wp)"
  proof (cases "rp \<le> wp")
    case True
    have "unat (rb_size r - wp) = N - unat wp" using lt(1) by (simp add: unat_sub word_le_nat_alt N_def)
    then have "unat (rb_size r - wp - 1) = N - unat wp - 1" using lt(1) by (subst unat_sub) (simp_all add: word_le_nat_alt)
    then show ?thesis using True some(3) by (simp add: word_le_nat_alt)
  next
    case False
    then have "unat (rp - wp) = unat rp - unat wp" by (simp add: unat_sub)
    then show ?thesis using False some(3) by (simp add: word_le_nat_alt)
  qed
  moreover have "l = 0 \<longleftrightarrow> unat l = 0" by (simp add: unat_eq_zero)
  ultimately show ?thesis
    using some(2) eq lt full N by (auto simp: N_def [symmetric] used_def [symmetric] split: if_splits)
qed

theorem rb_writebuffer_bounds_witness: "unat (1 :: u32) + unat (61 :: u32) \<le> length (rb_buffer sample_ring)"
proof -
  have "rb_writebuffer sample_ring = Some (1, 61)" by (simp add: rb_writebuffer_def sample_ring_def Let_def word_le_nat_alt)
  then show ?thesis using rb_writebuffer_bounds [of sample_ring 1 61] sample_node_inv by (simp add: sample_ring_node)
qed

text \<open>
  A size that is no power of two is rounded to the next even number only; the masks then skip positions, and bytes that are still
  unread are overwritten.
\<close>

lemma odd_size_overwrites:
  "rb_size (rb_sized (\<lambda>_. 0) 5) = 6"
  "bnd (rb_write (rb_sized (\<lambda>_. 0) 5) [1, 2] 2) (\<lambda>(ok, r). bnd (rb_write r [3] 1) (\<lambda>(ok, r). rb_read r [0, 0, 0] 3))
     = ret (True, \<lparr>rb_next = None, rb_buffer = [3, 2, 0, 0, 0, 0], rb_size = 6, rb_out = 3, rb_in = 3\<rparr>, [3, 2, 0])"
proof -
  have "[0..<6] = [0, 1, 2, 3, 4, 5 :: nat]" by (simp add: upt_rec)
  then have r: "rb_sized (\<lambda>_. 0) 5 = \<lparr>rb_next = None, rb_buffer = [0, 0, 0, 0, 0, 0], rb_size = 6, rb_out = 0, rb_in = 0\<rparr>"
    by (simp add: rb_sized_def rb_init_def rb_blank_def Let_def)
  show "rb_size (rb_sized (\<lambda>_. 0) 5) = 6" by (simp add: r)
  show "bnd (rb_write (rb_sized (\<lambda>_. 0) 5) [1, 2] 2) (\<lambda>(ok, r). bnd (rb_write r [3] 1) (\<lambda>(ok, r). rb_read r [0, 0, 0] 3))
     = ret (True, \<lparr>rb_next = None, rb_buffer = [3, 2, 0, 0, 0, 0], rb_size = 6, rb_out = 3, rb_in = 3\<rparr>, [3, 2, 0])"
    by (simp add: r rb_write_def rb_read_def MIN_sz_def memcpy_def Let_def)
qed

section \<open>The list of rings\<close>

text \<open>The spin lock around each operation is taken and given back; the operations run between.\<close>

type_synonym rheap = "nat \<rightharpoonup> ring_buffer"

record buffer_head =
  bh_head :: "nat option"
  bh_tail :: "nat option"

definition rb_at :: "rheap \<Rightarrow> nat option \<Rightarrow> ring_buffer prog" where
  "rb_at h p = (case p of None \<Rightarrow> abort NullDeref
     | Some a \<Rightarrow> (case h a of None \<Rightarrow> abort WildPointer | Some n \<Rightarrow> ret n))"

definition set_rb_next :: "rheap \<Rightarrow> nat option \<Rightarrow> nat option \<Rightarrow> rheap prog" where
  "set_rb_next h p v = bnd (rb_at h p) (\<lambda>n. ret (h(the p \<mapsto> n\<lparr>rb_next := v\<rparr>)))"

definition bh_new :: buffer_head where
  "bh_new = \<lparr>bh_head = None, bh_tail = None\<rparr>"

partial_function (option) bh_clean_loop :: "rheap \<Rightarrow> nat option \<Rightarrow> rheap prog" where
  "bh_clean_loop h b =
     (if b = None then ret h
      else bnd (rb_at h b) (\<lambda>n. bh_clean_loop (h(the b := None)) (rb_next n)))"

definition bh_clean :: "rheap \<Rightarrow> buffer_head \<Rightarrow> (rheap \<times> buffer_head) prog" where
  "bh_clean h b = bnd (bh_clean_loop h (bh_head b)) (\<lambda>h. ret (h, \<lparr>bh_head = None, bh_tail = None\<rparr>))"

definition push_front :: "rheap \<Rightarrow> buffer_head \<Rightarrow> nat \<Rightarrow> (rheap \<times> buffer_head) prog" where
  "push_front h b p = bnd (set_rb_next h (Some p) (bh_head b)) (\<lambda>h.
     ret (h, if bh_head b = None then \<lparr>bh_head = Some p, bh_tail = Some p\<rparr> else b\<lparr>bh_head := Some p\<rparr>))"

definition push_back :: "rheap \<Rightarrow> buffer_head \<Rightarrow> nat \<Rightarrow> (rheap \<times> buffer_head) prog" where
  "push_back h b p =
     (if bh_head b = None then ret (h, \<lparr>bh_head = Some p, bh_tail = Some p\<rparr>)
      else bnd (set_rb_next h (bh_tail b) (Some p)) (\<lambda>h. ret (h, b\<lparr>bh_tail := Some p\<rparr>)))"

definition pop_front :: "rheap \<Rightarrow> buffer_head \<Rightarrow> (nat option \<times> buffer_head) prog" where
  "pop_front h b =
     bnd (if bh_head b = None then ret b else bnd (rb_at h (bh_head b)) (\<lambda>n. ret (b\<lparr>bh_head := rb_next n\<rparr>))) (\<lambda>b'.
     ret (bh_head b, if bh_head b' = None then b'\<lparr>bh_tail := None\<rparr> else b'))"

text \<open>The test is the negation of its name.\<close>

definition bh_empty :: "buffer_head \<Rightarrow> bool" where
  "bh_empty b \<longleftrightarrow> bh_head b \<noteq> None"

section \<open>The list as a queue\<close>

text \<open>Seen through the renaming of the fields, the heap of rings is a heap of buffer nodes.\<close>

definition nodes :: "rheap \<Rightarrow> bheap" where
  "nodes h = (\<lambda>a. map_option node_of (h a))"

definition rqueue :: "rheap \<Rightarrow> buffer_head \<Rightarrow> nat list \<Rightarrow> bool" where
  "rqueue h b xs \<longleftrightarrow> chain (nodes h) (bh_head b) xs \<and> bh_tail b = (if xs = [] then None else Some (last xs))"

lemma nodes_upd [simp]: "nodes (h(a \<mapsto> n)) = (nodes h)(a \<mapsto> node_of n)" "nodes (h(a := None)) = (nodes h)(a := None)"
  by (auto simp: nodes_def)

lemma node_of_next [simp]: "node_of (n\<lparr>rb_next := v\<rparr>) = (node_of n)\<lparr>bn_next := v\<rparr>"
  by (simp add: node_of_def)

lemma nodes_Some: "nodes h a = Some m \<longleftrightarrow> (\<exists>n. h a = Some n \<and> m = node_of n)"
  by (auto simp: nodes_def)

lemma rb_at_Some [simp]: "h a = Some n \<Longrightarrow> rb_at h (Some a) = ret n"
  by (simp add: rb_at_def)

lemma push_back_rqueue:
  assumes q: "rqueue h b xs" and p: "h p = Some n" "rb_next n = None" "p \<notin> set xs"
  shows "\<exists>h' b'. push_back h b p = ret (h', b') \<and> rqueue h' b' (xs @ [p])"
proof (cases "xs = []")
  case True
  with q p show ?thesis by (simp add: push_back_def rqueue_def nodes_Some)
next
  case False
  with q have c: "chain (nodes h) (bh_head b) xs" "bh_tail b = Some (last xs)" "bh_head b \<noteq> None"
    by (auto simp: rqueue_def neq_Nil_conv)
  obtain m where m: "h (last xs) = Some m" using chain_alloc [OF c(1) last_in_set [OF False]] by (auto simp: nodes_Some)
  have node: "chain (nodes h) (Some p) [p]" using p(1,2) by (simp add: nodes_Some)
  have "chain ((nodes h)(last xs \<mapsto> (node_of m)\<lparr>bn_next := Some p\<rparr>)) (bh_head b) (xs @ [p])"
    by (rule chain_link [OF c(1) False node]) (use p(3) m in \<open>auto simp: nodes_Some\<close>)
  with c m show ?thesis by (auto simp: push_back_def set_rb_next_def rqueue_def)
qed

lemma push_front_rqueue:
  assumes q: "rqueue h b xs" and p: "h p = Some n" "p \<notin> set xs"
  shows "\<exists>h' b'. push_front h b p = ret (h', b') \<and> rqueue h' b' (p # xs)"
proof -
  have "bh_head b = None \<longleftrightarrow> xs = []" using q by (cases xs) (auto simp: rqueue_def)
  then show ?thesis using q p by (auto simp: push_front_def set_rb_next_def rqueue_def)
qed

lemma pop_front_rqueue:
  assumes q: "rqueue h b xs"
  shows "\<exists>b'. pop_front h b = ret (if xs = [] then None else Some (hd xs), b') \<and> rqueue h b' (tl xs)"
proof (cases xs)
  case Nil
  with q show ?thesis by (simp add: pop_front_def rqueue_def)
next
  case (Cons x ys)
  with q obtain n where n: "bh_head b = Some x" "h x = Some n" "chain (nodes h) (rb_next n) ys"
    by (auto simp: rqueue_def nodes_Some)
  have "rb_next n = None \<longleftrightarrow> ys = []" using n(3) by (cases ys) auto
  with Cons n q show ?thesis by (auto simp: pop_front_def rqueue_def)
qed

lemma bh_clean_frees: "chain (nodes h) p xs \<Longrightarrow> bh_clean_loop h p = ret (\<lambda>a. if a \<in> set xs then None else h a)"
proof (induction xs arbitrary: h p)
  case Nil
  then show ?case by (subst bh_clean_loop.simps) simp
next
  case (Cons x xs)
  then obtain n where n: "p = Some x" "h x = Some n" "chain (nodes h) (rb_next n) xs" by (auto simp: nodes_Some)
  have "chain (nodes (h(x := None))) (rb_next n) xs"
    using chain_head_notin [OF Cons.prems] n(3) by simp
  from Cons.IH [OF this] have "bh_clean_loop (h(x := None)) (rb_next n) = ret (\<lambda>a. if a \<in> set xs then None else (h(x := None)) a)" .
  moreover have "(\<lambda>a. if a \<in> set xs then None else (h(x := None)) a) = (\<lambda>a. if a \<in> set (x # xs) then None else h a)"
    by (simp add: fun_eq_iff)
  ultimately show ?case using n by (subst bh_clean_loop.simps) simp
qed

text \<open>
  The list of rings is a queue: a ring pushed at the back comes out last and one pushed at the front first, popping an empty list gives
  null, and cleaning frees exactly the rings of the list; the function named \<^verbatim>\<open>empty\<close> answers that it is not.
\<close>

theorem buffer_head_queue:
  assumes q: "rqueue h b xs" and p: "h p = Some n" "rb_next n = None" "p \<notin> set xs"
  shows "(\<exists>h' b'. push_back h b p = ret (h', b') \<and> rqueue h' b' (xs @ [p])) \<and>
    (\<exists>h' b'. push_front h b p = ret (h', b') \<and> rqueue h' b' (p # xs)) \<and>
    (\<exists>b'. pop_front h b = ret (if xs = [] then None else Some (hd xs), b') \<and> rqueue h b' (tl xs)) \<and>
    bh_clean h b = ret (\<lambda>a. if a \<in> set xs then None else h a, bh_new) \<and>
    (bh_empty b \<longleftrightarrow> xs \<noteq> [])"
proof -
  have "chain (nodes h) (bh_head b) xs" using q by (simp add: rqueue_def)
  then have "bh_clean h b = ret (\<lambda>a. if a \<in> set xs then None else h a, bh_new)" "bh_empty b \<longleftrightarrow> xs \<noteq> []"
    using bh_clean_frees by (auto simp: bh_clean_def bh_new_def bh_empty_def neq_Nil_conv split: list.splits) (cases xs; simp)+
  then show ?thesis using push_back_rqueue [OF assms] push_front_rqueue [OF q p(1,3)] pop_front_rqueue [OF q] by blast
qed

theorem buffer_head_queue_witness:
  "(\<exists>h' b'. push_back [1 \<mapsto> rb_blank] bh_new 1 = ret (h', b') \<and> rqueue h' b' [1])"
  using buffer_head_queue [of "[1 \<mapsto> rb_blank]" bh_new "[]" 1 rb_blank] by (simp add: rqueue_def bh_new_def rb_blank_def)

section \<open>The ring as a byte queue\<close>

definition rb_chunk :: "ring_buffer \<Rightarrow> bytes" where
  "rb_chunk r = (case rb_readbuffer r of None \<Rightarrow> [] | Some (p, l) \<Rightarrow> take (unat l) (drop (unat p) (rb_buffer r)))"

definition rb_consume :: "ring_buffer \<Rightarrow> nat \<Rightarrow> ring_buffer" where
  "rb_consume r k = r\<lparr>rb_out := rb_out r + of_nat k\<rparr>"

lemma rb_chunk_node: "rb_chunk r = chunk (node_of r)"
  by (simp add: rb_chunk_def chunk_def rb_readbuffer_def buffernode_startread_def Let_def)

text \<open>The contract of the senders holds for the ring too, so a sequence of partial sends drains it in order.\<close>

interpretation ring_queue: byte_queue "\<lambda>r. node_inv (node_of r)" "\<lambda>r. buffered (node_of r)" rb_chunk rb_consume
proof unfold_locales
  fix q k
  assume inv: "node_inv (node_of q)"
  show "rb_chunk q = take (length (rb_chunk q)) (buffered (node_of q))"
    unfolding rb_chunk_node by (rule node_queue.peek_prefix [OF inv])
  show "buffered (node_of q) \<noteq> [] \<Longrightarrow> rb_chunk q \<noteq> []"
    unfolding rb_chunk_node by (rule node_queue.peek_progress [OF inv])
  assume k: "k \<le> length (buffered (node_of q))"
  then have "k < 2 ^ 32" using node_inv_size(2,4) [OF inv] by simp
  then have u: "unat (of_nat k :: u32) = k" by (simp add: unat_of_nat)
  with k have "of_nat k \<le> rb_in q - rb_out q" by (simp add: word_le_nat_alt)
  from rb_read_drops [OF inv this] u show "node_inv (node_of (rb_consume q k))" "buffered (node_of (rb_consume q k)) = drop k (buffered (node_of q))"
    by (simp_all add: rb_consume_def)
qed

end
