(* ===== verification/SocketServer.thy ===== *)
theory SocketServer
  imports CoreSocket LogicObjects RingBuffer Iocp
begin

text \<open>
  The socket server of the C++ library, \<^verbatim>\<open>net/socketserver.cpp\<close> and \<^verbatim>\<open>net/socket.h\<close>: a table of \<open>2 ^ 16\<close>
  sockets with reference counts, two operation contexts per socket, queues of rings for sending and receiving, and
  reports that are posted to logic objects. The parts it stands on are the models of the poller class, the
  logic objects and the rings. Winsock is the parameter \<open>E\<close>, as for the C server; each function runs without
  interference of other threads.
\<close>

section \<open>State\<close>

text \<open>
  A context: its handler, the socket \<^verbatim>\<open>u\<close> an accept is to fill, the two addresses the system stored in \<^verbatim>\<open>buf\<close>, the ring of the
  operation and the flag.
\<close>

record io_event =
  ie_call :: "sock_call option"
  ie_u :: "nat option"
  ie_buf :: "nat \<times> nat"
  ie_b :: "nat option"
  ie_ready :: u32

record csock =
  cs_id :: u32
  cs_logic :: u32
  cs_fd :: u32
  cs_type :: socket_type
  cs_read :: io_event
  cs_write :: io_event
  cs_pending :: u32
  cs_closing :: u32
  cs_wb :: buffer_head
  cs_rb :: buffer_head
  cs_w_byte :: u32
  cs_r_byte :: u32
  cs_opt :: nat
  cs_local :: nat
  cs_remote :: nat

text \<open>The four messages of \<^verbatim>\<open>net/event.h\<close> that the server sends.\<close>

datatype logic_body =
    LAccept u32 u32 u32
  | LConnect u32 u32
  | LRecv u32 "nat option"
  | LSocketerr u32 u32

fun kind_of :: "logic_body \<Rightarrow> nat" where
  "kind_of (LAccept i l e) = 0"
| "kind_of (LConnect i e) = 1"
| "kind_of (LRecv i b) = 2"
| "kind_of (LSocketerr i e) = 3"

text \<open>What the listener and connector objects add to a logic object, of \<^verbatim>\<open>net/listener.h\<close> and \<^verbatim>\<open>net/connector.h\<close>.\<close>

record endpoint =
  ep_ip :: string
  ep_port :: u32
  ep_socket :: u32
  ep_proto :: nat

record 'o srv =
  sv_alloc_id :: u32
  sv_slot :: "nat \<Rightarrow> csock"
  sv_rings :: rheap
  sv_bodies :: "nat \<rightharpoonup> logic_body"
  sv_brk :: nat
  sv_store :: lstore
  sv_self :: nat
  sv_io :: core_poller
  sv_eps :: "nat \<rightharpoonup> endpoint"
  s_server :: "nat option"
  sv_os :: 'o

text \<open>
  The numbers that the program's start gives the four kinds of message, and what the protocol functions do with the rings
  received; the number 0 is \<^verbatim>\<open>default_protocol\<close>.
\<close>

record 'o cpp_env = "'o winsock" +
  msg_ids :: "nat \<Rightarrow> int"
  protocols :: "nat \<Rightarrow> u32 \<Rightarrow> rheap \<Rightarrow> buffer_head \<Rightarrow> (bool \<times> rheap \<times> buffer_head \<times> logic_body option) prog"

definition upd_sock :: "nat \<Rightarrow> (csock \<Rightarrow> csock) \<Rightarrow> 'o srv \<Rightarrow> 'o srv" where
  "upd_sock i f st = st\<lparr>sv_slot := (sv_slot st)(i := f (sv_slot st i))\<rparr>"

definition svos :: "('o \<Rightarrow> 'o) \<Rightarrow> 'o srv \<Rightarrow> 'o srv" where
  "svos f st = st\<lparr>sv_os := f (sv_os st)\<rparr>"

definition svcall :: "('o \<Rightarrow> 'a \<times> 'o) \<Rightarrow> 'o srv \<Rightarrow> 'a \<times> 'o srv" where
  "svcall f st = (case f (sv_os st) of (x, s) \<Rightarrow> (x, st\<lparr>sv_os := s\<rparr>))"

definition sv_error :: "('o, 'e) winsock_scheme \<Rightarrow> 'o srv \<Rightarrow> u32" where
  "sv_error E st = WSAGetLastError E (sv_os st)"

fun get_ev :: "ctx_sel \<Rightarrow> csock \<Rightarrow> io_event" where
  "get_ev RD s = cs_read s"
| "get_ev WR s = cs_write s"

fun map_ev :: "ctx_sel \<Rightarrow> (io_event \<Rightarrow> io_event) \<Rightarrow> csock \<Rightarrow> csock" where
  "map_ev RD f s = s\<lparr>cs_read := f (cs_read s)\<rparr>"
| "map_ev WR f s = s\<lparr>cs_write := f (cs_write s)\<rparr>"

definition ie_zero :: io_event where
  "ie_zero = \<lparr>ie_call = None, ie_u = None, ie_buf = (0, 0), ie_b = None, ie_ready = 0\<rparr>"

definition FRAME_BUFF_EMPTY :: u32 where
  "FRAME_BUFF_EMPTY = 2000000004"

definition FRAME_IO_PENDING :: u32 where
  "FRAME_IO_PENDING = 2000000005"

definition FRAME_IO_PARSEERR :: u32 where
  "FRAME_IO_PARSEERR = 2000000006"

definition FRAME_INVALID_SOCKET :: u32 where
  "FRAME_INVALID_SOCKET = 2000000007"

definition FRAME_INVALID_SOCKET_TYPE :: u32 where
  "FRAME_INVALID_SOCKET_TYPE = 2000000002"

section \<open>Sockets and reference counts\<close>

definition csock_new :: "u32 \<Rightarrow> csock" where
  "csock_new junk = \<lparr>cs_id = 0, cs_logic = junk, cs_fd = INVALID_SOCKET, cs_type = SOCKET_TYPE_RESERVE, cs_read = ie_zero,
     cs_write = ie_zero, cs_pending = 0, cs_closing = 0, cs_wb = bh_new, cs_rb = bh_new, cs_w_byte = 0, cs_r_byte = 0,
     cs_opt = 0, cs_local = 0, cs_remote = 0\<rparr>"

text \<open>The rings that the contexts point to are forgotten by the \<^verbatim>\<open>memset\<close>, not freed.\<close>

definition sock_reset :: "('o, 'e) winsock_scheme \<Rightarrow> nat \<Rightarrow> 'o srv \<Rightarrow> 'o srv prog" where
  "sock_reset E i st =
     (let st = (if cs_fd (sv_slot st i) \<noteq> INVALID_SOCKET then svos (closesocket E (cs_fd (sv_slot st i))) st else st);
          st = upd_sock i (\<lambda>s. s\<lparr>cs_id := 0, cs_fd := INVALID_SOCKET, cs_type := SOCKET_TYPE_RESERVE, cs_read := ie_zero,
            cs_write := ie_zero, cs_local := 0, cs_remote := 0, cs_pending := 0, cs_closing := 0, cs_w_byte := 0, cs_r_byte := 0\<rparr>) st in
     bnd (bh_clean (sv_rings st) (cs_wb (sv_slot st i))) (\<lambda>(h, b).
     let st = upd_sock i (cs_wb_update (\<lambda>_. b)) (st\<lparr>sv_rings := h\<rparr>) in
     bnd (bh_clean (sv_rings st) (cs_rb (sv_slot st i))) (\<lambda>(h, b).
     ret (upd_sock i (cs_rb_update (\<lambda>_. b)) (st\<lparr>sv_rings := h\<rparr>)))))"

definition sv_cancel :: "('o, 'e) winsock_scheme \<Rightarrow> nat \<Rightarrow> ctx_sel \<Rightarrow> 'o srv \<Rightarrow> 'o srv" where
  "sv_cancel E i c st =
     (let old = ie_ready (get_ev c (sv_slot st i));
          st = (if old = 1 then upd_sock i (map_ev c (ie_ready_update (\<lambda>_. 0))) st else st) in
      if old \<noteq> 0 then svos (sys_cancel E (cs_fd (sv_slot st i))) st else st)"

definition sv_force_close :: "('o, 'e) winsock_scheme \<Rightarrow> nat \<Rightarrow> 'o srv \<Rightarrow> 'o srv prog" where
  "sv_force_close E i st =
     (let st = svos (sys_shutdown E (cs_fd (sv_slot st i))) st;
          st = sv_cancel E i RD st;
          st = sv_cancel E i WR st in
      sock_reset E i st)"

text \<open>The comparison of the old count is signed; the socket may be null.\<close>

definition inner_close :: "('o, 'e) winsock_scheme \<Rightarrow> nat option \<Rightarrow> u32 \<Rightarrow> 'o srv \<Rightarrow> 'o srv prog" where
  "inner_close E s r st =
     (case s of None \<Rightarrow> abort NullDeref
      | Some i \<Rightarrow>
        let old = cs_pending (sv_slot st i);
            st = upd_sock i (cs_pending_update (\<lambda>p. p + (0 - r))) st in
        if sint old \<le> sint r then sv_force_close E i st else ret st)"

definition dec_socket :: "('o, 'e) winsock_scheme \<Rightarrow> u32 \<Rightarrow> 'o srv \<Rightarrow> 'o srv prog" where
  "dec_socket E ident st =
     (let i = HASH_ID ident in
      if cs_type (sv_slot st i) \<noteq> SOCKET_TYPE_INVALID \<and> cs_id (sv_slot st i) = ident then
        let st = upd_sock i (cs_pending_update (\<lambda>p. p - 1)) st in
        if cs_pending (sv_slot st i) = 0 then sv_force_close E i st else ret st
      else ret st)"

definition sv_grub :: "('o, 'e) winsock_scheme \<Rightarrow> u32 \<Rightarrow> 'o srv \<Rightarrow> (nat option \<times> 'o srv) prog" where
  "sv_grub E ident st =
     (let i = HASH_ID ident;
          st = upd_sock i (cs_pending_update (\<lambda>p. p + 1)) st in
      if cs_type (sv_slot st i) \<noteq> SOCKET_TYPE_INVALID \<and> cs_id (sv_slot st i) = ident then ret (Some i, st)
      else bnd (inner_close E (Some i) 1 st) (\<lambda>st. ret (None, st)))"

section \<open>Construction and destruction\<close>

definition socket_server_new :: "('o, 'e) winsock_scheme \<Rightarrow> u32 \<Rightarrow> nat \<Rightarrow> 'o srv \<Rightarrow> 'o srv prog" where
  "socket_server_new E junk p st =
     bnd (logic_new junk (sv_store st) p) (\<lambda>(handle, s).
     let st = st\<lparr>sv_store := s, sv_self := p, sv_alloc_id := 0\<rparr>;
         (fd, st) = svcall (WSASocket E) st;
         st = svos (fold (WSAIoctl E fd) [TransmitFile, AcceptEx, GetAcceptExSockaddrs, TransmitPackets, TransmitFile,
           ConnectEx, DisconnectEx, WSARecvMsg]) st;
         st = svos (closesocket E fd) st in
     ret (st\<lparr>sv_slot := (\<lambda>_. csock_new junk)\<rparr>))"

function delete_slots :: "('o, 'e) winsock_scheme \<Rightarrow> nat \<Rightarrow> 'o srv \<Rightarrow> 'o srv prog" where
  "delete_slots E i st =
     (if i < MAX_SOCKET then
        bnd (if cs_type (sv_slot st i) \<noteq> SOCKET_TYPE_RESERVE then sv_force_close E i st else ret st) (\<lambda>st.
        bnd (sock_reset E i st) (\<lambda>st.
        delete_slots E (i + 1) st))
      else ret st)"
  by pat_completeness auto
termination by (relation "measure (\<lambda>(_, i, _). MAX_SOCKET - i)") auto

declare delete_slots.simps [simp del]

section \<open>Reports\<close>

text \<open>
  A message is allocated and posted to the logic object; the event that carries it is known by the same number. When the post fails
  the event, the message and a ring in it are deleted.
\<close>

definition sv_delete_msg :: "nat \<Rightarrow> 'o srv \<Rightarrow> 'o srv" where
  "sv_delete_msg m st =
     (let st' = st\<lparr>sv_bodies := (sv_bodies st)(m := None)\<rparr> in
      case sv_bodies st m of Some (LRecv i (Some a)) \<Rightarrow> st'\<lparr>sv_rings := (sv_rings st')(a := None)\<rparr> | _ \<Rightarrow> st')"

definition sv_io_post :: "('o, 'e) winsock_scheme \<Rightarrow> nat \<Rightarrow> cpp_msg \<Rightarrow> 'o srv \<Rightarrow> u32 \<times> 'o srv" where
  "sv_io_post E recv msg st =
     (let (e, st) = svcall (sys_post E) st;
          (r, io) = iocp_post e (sv_io st) recv (msg_body msg) 0 0 in
      (r, st\<lparr>sv_io := io\<rparr>))"

definition post2logic :: "('o, 'e) cpp_env_scheme \<Rightarrow> u32 \<Rightarrow> logic_body option \<Rightarrow> 'o srv \<Rightarrow> (bool \<times> 'o srv) prog" where
  "post2logic E logic ev st =
     (let m = sv_brk st;
          st = st\<lparr>sv_brk := m + 1, sv_bodies := (sv_bodies st)(m := ev)\<rparr>;
          msg = \<lparr>msg_id = (case ev of None \<Rightarrow> 0 | Some b \<Rightarrow> msg_ids E (kind_of b)), msg_body = m\<rparr> in
     bnd (logic_post (sv_io_post E) (sv_store st) (sv_self st) logic msg st) (\<lambda>(err, deleted, st).
     ret (err = 0, if deleted then sv_delete_msg m st else st)))"

definition sv_report_accept :: "('o, 'e) cpp_env_scheme \<Rightarrow> u32 \<Rightarrow> u32 \<Rightarrow> u32 \<Rightarrow> u32 \<Rightarrow> 'o srv \<Rightarrow> (bool \<times> 'o srv) prog" where
  "sv_report_accept E logic ident listenid err st =
     post2logic E logic (Some (LAccept (if err = 0 then ident else 0) listenid err)) st"

definition sv_report_connect :: "('o, 'e) cpp_env_scheme \<Rightarrow> u32 \<Rightarrow> u32 \<Rightarrow> u32 \<Rightarrow> 'o srv \<Rightarrow> (bool \<times> 'o srv) prog" where
  "sv_report_connect E logic ident err st = post2logic E logic (Some (LConnect ident err)) st"

definition sv_report_socketerr :: "('o, 'e) cpp_env_scheme \<Rightarrow> u32 \<Rightarrow> u32 \<Rightarrow> u32 \<Rightarrow> 'o srv \<Rightarrow> (bool \<times> 'o srv) prog" where
  "sv_report_socketerr E logic ident err st = post2logic E logic (Some (LSocketerr ident err)) st"

definition sv_report_recv :: "('o, 'e) cpp_env_scheme \<Rightarrow> u32 \<Rightarrow> logic_body option \<Rightarrow> 'o srv \<Rightarrow> (bool \<times> 'o srv) prog" where
  "sv_report_recv E logic ev st = post2logic E logic ev st"

section \<open>Identifiers\<close>

text \<open>Without interference the exchange succeeds when the type was read as free, so the turn is never repeated.\<close>

fun sv_reserve_loop :: "nat \<Rightarrow> 'o srv \<Rightarrow> u32 \<times> 'o srv" where
  "sv_reserve_loop 0 st = (- 1, st)"
| "sv_reserve_loop (Suc k) st =
     (let st = st\<lparr>sv_alloc_id := sv_alloc_id st + 1\<rparr>;
          (ident, st) = (if sint (sv_alloc_id st) < 0 then
             let st = st\<lparr>sv_alloc_id := sv_alloc_id st + 0x7FFFFFFF\<rparr> in (sv_alloc_id st, st)
           else (sv_alloc_id st, st));
          i = HASH_ID ident in
      if cs_type (sv_slot st i) = SOCKET_TYPE_RESERVE then
        (ident, upd_sock i (\<lambda>s. s\<lparr>cs_type := SOCKET_TYPE_INVALID, cs_id := ident, cs_fd := INVALID_SOCKET, cs_pending := 1\<rparr>) st)
      else sv_reserve_loop k st)"

definition sv_reserve_id :: "'o srv \<Rightarrow> u32 \<times> 'o srv" where
  "sv_reserve_id st = sv_reserve_loop MAX_SOCKET st"

definition sv_new_fd ::
  "('o, 'e) winsock_scheme \<Rightarrow> u32 \<Rightarrow> u32 \<Rightarrow> u32 \<Rightarrow> nat \<Rightarrow> bool \<Rightarrow> 'o srv \<Rightarrow> (nat option \<times> 'o srv) prog" where
  "sv_new_fd E ident lgc_id fd opt add st =
     (let i = HASH_ID ident in
     bnd (assert_c (cs_type (sv_slot st i) = SOCKET_TYPE_INVALID)) (\<lambda>_.
     let (err, st) =
       (if add then
          let st = svos (WSASetLastError E 0) st;
              (h, st) = svcall (sys_join_port E fd 0 i) st;
              r = iocp_append_socket h in
          (sv_error E st, st)
        else (0, st)) in
     if err \<noteq> 0 then ret (None, upd_sock i (cs_type_update (\<lambda>_. SOCKET_TYPE_RESERVE)) st)
     else ret (Some i, upd_sock i (\<lambda>s. s\<lparr>cs_id := ident, cs_fd := fd, cs_opt := opt, cs_logic := lgc_id, cs_pending := 1\<rparr>) st)))"

section \<open>Listening\<close>

definition sv_do_listen :: "('o, 'e) winsock_scheme \<Rightarrow> string \<Rightarrow> u32 \<Rightarrow> u32 \<Rightarrow> 'o srv \<Rightarrow> u32 \<times> 'o srv" where
  "sv_do_listen E host pt backlog st =
     (let addr = (if host \<noteq> [] then inet_addr E host else 0);
          st = svos (WSASetLastError E 0) st;
          (listen_fd, st) = svcall (WSASocket E) st in
      if listen_fd = INVALID_SOCKET then (INVALID_SOCKET, st)
      else
        let (r, st) = svcall (sys_reuse E listen_fd) st in
        if r = - 1 then (INVALID_SOCKET, svos (closesocket E listen_fd) st)
        else
          let (r, st) = svcall (sys_bind E listen_fd addr (ucast pt)) st in
          if r = - 1 then (INVALID_SOCKET, svos (closesocket E listen_fd) st)
          else
            let (r, st) = svcall (sys_listen E listen_fd backlog) st in
            if r = - 1 then (INVALID_SOCKET, svos (closesocket E listen_fd) st)
            else (listen_fd, st))"

definition sv_listen_start :: "('o, 'e) cpp_env_scheme \<Rightarrow> nat \<Rightarrow> ctx_sel \<Rightarrow> 'o srv \<Rightarrow> (u32 \<times> 'o srv) prog" where
  "sv_listen_start E i c st =
     (let st = upd_sock i (map_ev c (ie_ready_update (\<lambda>_. 1))) st;
          st = svos (WSASetLastError E 0) st;
          (fd, st) = svcall (WSASocket E) st;
          err = sv_error E st in
      if fd = INVALID_SOCKET then
        let st = svos (closesocket E fd) st;
            st = upd_sock i (map_ev c (ie_ready_update (\<lambda>_. 0))) st in
        bnd (sv_report_socketerr E (cs_logic (sv_slot st i)) (cs_id (sv_slot st i)) err st) (\<lambda>(_, st). ret (err, st))
      else
        let (ident, st) = sv_reserve_id st in
        bnd (sv_new_fd E ident (cs_logic (sv_slot st i)) fd (cs_opt (sv_slot st i)) True st) (\<lambda>(news, st).
        case news of None \<Rightarrow> abort NullDeref
        | Some j \<Rightarrow>
          let st = upd_sock j (cs_type_update (\<lambda>_. SOCKET_TYPE_PLISTEN)) st;
              st = upd_sock i (map_ev c (\<lambda>x. x\<lparr>ie_call := Some Call_ev_listen, ie_u := Some j\<rparr>)) st;
              st = svos (WSASetLastError E 0) st;
              st = svos (sys_accept_context E (cs_fd (sv_slot st j)) (cs_fd (sv_slot st i))) st;
              st = svos (sys_acceptex E (cs_fd (sv_slot st i)) (cs_fd (sv_slot st j)) (op_of i c)) st;
              err = sv_error E st in
          if err \<noteq> 0 \<and> err \<noteq> WSA_IO_PENDING then
            let st = upd_sock i (map_ev c (ie_u_update (\<lambda>_. None))) st in
            bnd (sock_reset E j st) (\<lambda>st.
            let st = upd_sock i (map_ev c (ie_ready_update (\<lambda>_. 0))) st in
            bnd (sv_report_socketerr E (cs_logic (sv_slot st i)) (cs_id (sv_slot st i)) err st) (\<lambda>(_, st). ret (err, st)))
          else ret (0, st)))"

text \<open>The identifier is an argument by reference: \<open>None\<close> where it is left as it was.\<close>

definition sv_start_listen ::
  "('o, 'e) cpp_env_scheme \<Rightarrow> u32 \<Rightarrow> string \<Rightarrow> u32 \<Rightarrow> u32 \<Rightarrow> nat \<Rightarrow> 'o srv \<Rightarrow> (u32 \<times> u32 option \<times> 'o srv) prog" where
  "sv_start_listen E logic addr pt backlog opt st =
     (let st = svos (WSASetLastError E 0) st;
          (fd, st) = sv_do_listen E addr pt backlog st in
      if fd = INVALID_SOCKET then ret (sv_error E st, None, st)
      else
        let (ident, st) = sv_reserve_id st in
        bnd (sv_new_fd E ident logic fd opt True st) (\<lambda>(s, st).
        case s of None \<Rightarrow> bnd (inner_close E None 1 st) (\<lambda>st. ret (sv_error E st, Some 0, st))
        | Some i \<Rightarrow>
          let st = upd_sock i (cs_type_update (\<lambda>_. SOCKET_TYPE_LISTEN)) st;
              st = upd_sock i (cs_pending_update (\<lambda>p. p + 1)) st in
          bnd (sv_listen_start E i RD st) (\<lambda>(e, st).
          bnd (assert_c (e = 0)) (\<lambda>_.
          let st = upd_sock i (cs_pending_update (\<lambda>p. p + 1)) st in
          bnd (sv_listen_start E i WR st) (\<lambda>(e, st).
          bnd (assert_c (e = 0)) (\<lambda>_.
          ret (0, Some ident, st)))))))"

section \<open>Receiving\<close>

definition default_protocol :: "u32 \<Rightarrow> rheap \<Rightarrow> buffer_head \<Rightarrow> (bool \<times> rheap \<times> buffer_head \<times> logic_body option) prog" where
  "default_protocol ident h bufferlist =
     bnd (pop_front h bufferlist) (\<lambda>(buffer, bufferlist). ret (True, h, bufferlist, Some (LRecv ident buffer)))"

definition sv_recv_start :: "('o, 'e) cpp_env_scheme \<Rightarrow> nat \<Rightarrow> 'o srv \<Rightarrow> (u32 \<times> 'o srv) prog" where
  "sv_recv_start E i st =
     (let st = upd_sock i (map_ev RD (ie_call_update (\<lambda>_. Some Call_ev_recv))) st in
     bnd (assert_c (ie_ready (cs_read (sv_slot st i)) = 0)) (\<lambda>_.
     let st = upd_sock i (map_ev RD (ie_ready_update (\<lambda>_. 1))) st in
     bnd (assert_c (ie_b (cs_read (sv_slot st i)) = None)) (\<lambda>_.
     let a = sv_brk st;
         b = rb_default (junk_bytes E (sv_os st));
         st = st\<lparr>sv_brk := a + 1, sv_rings := (sv_rings st)(a \<mapsto> b)\<rparr>;
         st = upd_sock i (map_ev RD (ie_b_update (\<lambda>_. Some a))) st in
     case rb_writebuffer b of None \<Rightarrow> abort AssertionFailed
     | Some (off, len) \<Rightarrow>
       let st = svos (WSASetLastError E 0) st;
           st = svos (sys_recv E (cs_fd (sv_slot st i)) len (op_of i RD)) st;
           err = sv_error E st in
       if err \<noteq> 0 \<and> err \<noteq> WSA_IO_PENDING then
         bnd (sv_report_socketerr E (cs_logic (sv_slot st i)) (cs_id (sv_slot st i)) err st) (\<lambda>(_, st).
         ret (err, upd_sock i (map_ev RD (ie_ready_update (\<lambda>_. 0))) st))
       else ret (0, st))))"

definition sv_on_recv :: "('o, 'e) cpp_env_scheme \<Rightarrow> nat \<Rightarrow> ctx_sel \<Rightarrow> u32 \<Rightarrow> u32 \<Rightarrow> 'o srv \<Rightarrow> 'o srv prog" where
  "sv_on_recv E i c sz err st =
     (if err = 0 \<and> sz > 0 then
        bnd (rb_at (sv_rings st) (ie_b (get_ev c (sv_slot st i)))) (\<lambda>b.
        bnd (rb_write_ok b sz) (\<lambda>(_, b).
        let a = the (ie_b (get_ev c (sv_slot st i)));
            st = st\<lparr>sv_rings := (sv_rings st)(a \<mapsto> b)\<rparr> in
        bnd (push_back (sv_rings st) (cs_rb (sv_slot st i)) a) (\<lambda>(h, rb).
        let st = upd_sock i (\<lambda>s. s\<lparr>cs_rb := rb, cs_r_byte := cs_r_byte s + sz\<rparr>) (st\<lparr>sv_rings := h\<rparr>);
            st = upd_sock i (map_ev c (ie_b_update (\<lambda>_. None))) st in
        bnd (protocols E (cs_opt (sv_slot st i)) (cs_id (sv_slot st i)) (sv_rings st) (cs_rb (sv_slot st i))) (\<lambda>(ok, h, rb, ev_logic).
        let st = upd_sock i (cs_rb_update (\<lambda>_. rb)) (st\<lparr>sv_rings := h\<rparr>) in
        if \<not> ok then
          let st = upd_sock i (map_ev c (ie_ready_update (\<lambda>_. 0))) st in
          bnd (sv_report_socketerr E (cs_logic (sv_slot st i)) (cs_id (sv_slot st i)) FRAME_IO_PARSEERR st) (\<lambda>(_, st).
          inner_close E (Some i) 1 st)
        else
          bnd (sv_report_recv E (cs_logic (sv_slot st i)) ev_logic st) (\<lambda>(_, st).
          let st = upd_sock i (map_ev c (ie_ready_update (\<lambda>_. 0))) st;
              st = upd_sock i (cs_pending_update (\<lambda>p. p + 1)) st in
          if cs_pending (sv_slot st i) = 2 then inner_close E (Some i) 2 st
          else
            bnd (sv_recv_start E i st) (\<lambda>(e, st).
            let st = upd_sock i (cs_pending_update (\<lambda>p. p - 1)) st in
            if e \<noteq> 0 then inner_close E (Some i) 1 st else ret st))))))
      else
        bnd (sv_report_socketerr E (cs_logic (sv_slot st i)) (cs_id (sv_slot st i)) err st) (\<lambda>(_, st).
        inner_close E (Some i) 1 st))"

section \<open>Accepting and connecting\<close>

definition sv_on_listen :: "('o, 'e) cpp_env_scheme \<Rightarrow> nat \<Rightarrow> ctx_sel \<Rightarrow> u32 \<Rightarrow> u32 \<Rightarrow> 'o srv \<Rightarrow> 'o srv prog" where
  "sv_on_listen E i c sz err st =
     (let ident = cs_id (sv_slot st i) in
     bnd (assert_c (sint (cs_pending (sv_slot st i)) \<ge> 1)) (\<lambda>_.
     case ie_u (get_ev c (sv_slot st i)) of None \<Rightarrow> abort NullDeref
     | Some j \<Rightarrow>
       bnd (if err \<noteq> 0 then
              bnd (sv_report_accept E (cs_logic (sv_slot st i)) (cs_id (sv_slot st j)) ident err st) (\<lambda>(ok, st).
              if ok then dec_socket E (cs_id (sv_slot st j)) st else ret st)
            else
              let (l, r) = ie_buf (get_ev c (sv_slot st i));
                  st = upd_sock i (\<lambda>s. s\<lparr>cs_local := l, cs_remote := r\<rparr>) st;
                  st = upd_sock j (cs_type_update (\<lambda>_. SOCKET_TYPE_PACCEPT)) st in
              bnd (sv_report_accept E (cs_logic (sv_slot st i)) (cs_id (sv_slot st j)) (cs_id (sv_slot st i)) 0 st) (\<lambda>(ok, st).
              if \<not> ok then dec_socket E (cs_id (sv_slot st j)) st
              else
                let newid = cs_id (sv_slot st j);
                    st = upd_sock j (cs_pending_update (\<lambda>p. p + 1)) st in
                bnd (sv_recv_start E j st) (\<lambda>(e, st).
                if e \<noteq> 0 then
                  bnd (sv_report_socketerr E (cs_logic (sv_slot st j)) newid e st) (\<lambda>(_, st). dec_socket E newid st)
                else ret st))) (\<lambda>st.
       let st = upd_sock i (map_ev c (ie_ready_update (\<lambda>_. 0))) st;
           st = upd_sock i (cs_pending_update (\<lambda>p. p + 1)) st in
       if cs_pending (sv_slot st i) = 2 then inner_close E (Some i) 2 st
       else
         bnd (sv_listen_start E i c st) (\<lambda>(e, st).
         let st = upd_sock i (cs_pending_update (\<lambda>p. p - 1)) st in
         if e \<noteq> 0 then inner_close E (Some i) 2 st else ret st))))"

definition sv_on_connect :: "('o, 'e) cpp_env_scheme \<Rightarrow> nat \<Rightarrow> ctx_sel \<Rightarrow> u32 \<Rightarrow> u32 \<Rightarrow> 'o srv \<Rightarrow> 'o srv prog" where
  "sv_on_connect E i c sz err st =
     bnd (sv_report_connect E (cs_logic (sv_slot st i)) (cs_id (sv_slot st i)) err st) (\<lambda>(_, st).
     if err = 0 then
       let st = upd_sock i (cs_type_update (\<lambda>_. SOCKET_TYPE_CONNECTED)) st;
           st = upd_sock i (map_ev c (ie_ready_update (\<lambda>_. 0))) st;
           st = upd_sock i (cs_pending_update (\<lambda>p. p + 1)) st in
       if cs_pending (sv_slot st i) = 2 then inner_close E (Some i) 2 st
       else
         bnd (sv_recv_start E i st) (\<lambda>(e, st).
         if e \<noteq> 0 then inner_close E (Some i) 2 st else ret st)
     else inner_close E (Some i) 1 st)"

definition sv_start_connet ::
  "('o, 'e) winsock_scheme \<Rightarrow> u32 \<Rightarrow> string \<Rightarrow> u32 \<Rightarrow> nat \<Rightarrow> 'o srv \<Rightarrow> (u32 \<times> u32 option \<times> 'o srv) prog" where
  "sv_start_connet E logic host pt opt st =
     (let st = svos (WSASetLastError E 0) st;
          (fd, st) = svcall (WSASocket E) st;
          err = sv_error E st in
      if fd = INVALID_SOCKET then ret (err, None, st)
      else
        let st = svos (WSASetLastError E 0) st;
            (r, st) = svcall (sys_bind E fd 0 0) st in
        if r = - 1 then
          let st = svos (closesocket E fd) st in ret (sv_error E st, None, st)
        else
          let (ident, st) = sv_reserve_id st in
          bnd (sv_new_fd E ident logic fd opt True st) (\<lambda>(s, st).
          case s of None \<Rightarrow> bnd (inner_close E None 1 st) (\<lambda>st. ret (sv_error E st, Some 0, st))
          | Some i \<Rightarrow>
            let st = upd_sock i (cs_type_update (\<lambda>_. SOCKET_TYPE_CONNECTING)) st;
                st = upd_sock i (map_ev RD (\<lambda>x. x\<lparr>ie_call := Some Call_connect, ie_ready := 1\<rparr>)) st;
                st = upd_sock i (cs_pending_update (\<lambda>p. p + 1)) st;
                st = svos (WSASetLastError E 0) st;
                st = svos (sys_connectex E fd (inet_addr E host) (ucast pt) (op_of i RD)) st;
                err = sv_error E st in
            if err \<noteq> 0 \<and> err \<noteq> WSA_IO_PENDING then
              bnd (inner_close E (Some i) 1 st) (\<lambda>st. ret (err, Some 0, st))
            else bnd (assert_c (sint ident > 0)) (\<lambda>_. ret (0, Some ident, st))))"

section \<open>Sending and closing\<close>

text \<open>The loop that takes the next ring to send; \<open>False\<close> when there is none.\<close>

partial_function (option) send_take :: "nat \<Rightarrow> 'o srv \<Rightarrow> (bool \<times> 'o srv) prog" where
  "send_take i st =
     (if ie_b (cs_write (sv_slot st i)) = None then
        bnd (pop_front (sv_rings st) (cs_wb (sv_slot st i))) (\<lambda>(b, wb).
        let st = upd_sock i (cs_wb_update (\<lambda>_. wb)) st in
        if b = None then
          let st = upd_sock i (map_ev WR (ie_ready_update (\<lambda>r. r - 1))) st in
          if sint (ie_ready (cs_write (sv_slot st i))) > 0 then send_take i st else ret (False, st)
        else ret (True, upd_sock i (map_ev WR (ie_b_update (\<lambda>_. b))) st))
      else ret (True, st))"

definition sv_send_start :: "('o, 'e) cpp_env_scheme \<Rightarrow> nat \<Rightarrow> 'o srv \<Rightarrow> (u32 \<times> 'o srv) prog" where
  "sv_send_start E i st =
     (let st = upd_sock i (map_ev WR (ie_call_update (\<lambda>_. Some Call_ev_send))) st;
          old = ie_ready (cs_write (sv_slot st i));
          st = upd_sock i (map_ev WR (ie_ready_update (\<lambda>r. if old = 0 then 1 else r + 1))) st in
      if old \<noteq> 0 \<and> ie_ready (cs_write (sv_slot st i)) \<noteq> 1 then ret (FRAME_IO_PENDING, st)
      else
        bnd (send_take i st) (\<lambda>(ok, st).
        if \<not> ok then ret (FRAME_BUFF_EMPTY, st)
        else
          bnd (rb_at (sv_rings st) (ie_b (cs_write (sv_slot st i)))) (\<lambda>b.
          case rb_readbuffer b of None \<Rightarrow> abort AssertionFailed
          | Some (off, len) \<Rightarrow>
            let st = svos (WSASetLastError E 0) st;
                st = svos (sys_send E (cs_fd (sv_slot st i)) (take (unat len) (drop (unat off) (rb_buffer b))) (op_of i WR)) st;
                err = sv_error E st in
            if err \<noteq> 0 \<and> err \<noteq> WSA_IO_PENDING then
              bnd (sv_report_socketerr E (cs_logic (sv_slot st i)) (cs_id (sv_slot st i)) err st) (\<lambda>(_, st). ret (err, st))
            else ret (0, st))))"

definition sv_on_send :: "('o, 'e) cpp_env_scheme \<Rightarrow> nat \<Rightarrow> ctx_sel \<Rightarrow> u32 \<Rightarrow> u32 \<Rightarrow> 'o srv \<Rightarrow> 'o srv prog" where
  "sv_on_send E i c sz err st =
     (if err \<noteq> 0 then
        let st = upd_sock i (map_ev c (ie_ready_update (\<lambda>_. 0))) st in
        bnd (sv_report_socketerr E (cs_logic (sv_slot st i)) (cs_id (sv_slot st i)) err st) (\<lambda>(_, st).
        inner_close E (Some i) 1 st)
      else
        bnd (rb_at (sv_rings st) (ie_b (get_ev c (sv_slot st i)))) (\<lambda>b.
        bnd (rb_read_ok b sz) (\<lambda>(_, b).
        let a = the (ie_b (get_ev c (sv_slot st i)));
            st = st\<lparr>sv_rings := (sv_rings st)(a \<mapsto> b)\<rparr>;
            st = upd_sock i (cs_w_byte_update (\<lambda>w. w + sz)) st;
            st = (if rb_empty b then
                    upd_sock i (map_ev c (ie_b_update (\<lambda>_. None))) (st\<lparr>sv_rings := (sv_rings st)(a := None)\<rparr>)
                  else st);
            st = upd_sock i (map_ev c (ie_ready_update (\<lambda>_. 0))) st;
            st = upd_sock i (cs_pending_update (\<lambda>p. p + 1)) st in
        if cs_pending (sv_slot st i) = 2 then inner_close E (Some i) 2 st
        else
          bnd (sv_send_start E i st) (\<lambda>(e, st).
          let st = upd_sock i (cs_pending_update (\<lambda>p. p - 1)) st in
          if e \<noteq> 0 \<and> e \<noteq> FRAME_IO_PENDING \<and> e \<noteq> FRAME_BUFF_EMPTY then inner_close E (Some i) 1 st else ret st))))"

definition sv_start_send :: "('o, 'e) cpp_env_scheme \<Rightarrow> u32 \<Rightarrow> bytes \<Rightarrow> u32 \<Rightarrow> 'o srv \<Rightarrow> (u32 \<times> 'o srv) prog" where
  "sv_start_send E ident data sz st =
     bnd (sv_grub E ident st) (\<lambda>(s, st).
     case s of None \<Rightarrow> ret (FRAME_INVALID_SOCKET, st)
     | Some i \<Rightarrow>
       bnd (rb_from (junk_bytes E (sv_os st)) data sz) (\<lambda>b.
       let a = sv_brk st;
           st = st\<lparr>sv_brk := a + 1, sv_rings := (sv_rings st)(a \<mapsto> b)\<rparr> in
       bnd (push_back (sv_rings st) (cs_wb (sv_slot st i)) a) (\<lambda>(h, wb).
       let st = upd_sock i (cs_wb_update (\<lambda>_. wb)) (st\<lparr>sv_rings := h\<rparr>) in
       bnd (sv_send_start E i st) (\<lambda>(e, st).
       bnd (if e \<noteq> 0 \<and> e \<noteq> FRAME_IO_PENDING \<and> e \<noteq> FRAME_BUFF_EMPTY then dec_socket E ident st else ret st) (\<lambda>st.
       ret (e, st))))))"

definition sv_start_close :: "('o, 'e) winsock_scheme \<Rightarrow> u32 \<Rightarrow> 'o srv \<Rightarrow> (u32 \<times> 'o srv) prog" where
  "sv_start_close E ident st =
     bnd (sv_grub E ident st) (\<lambda>(s, st).
     case s of None \<Rightarrow> ret (FRAME_INVALID_SOCKET, st)
     | Some i \<Rightarrow>
       if cs_type (sv_slot st i) \<noteq> SOCKET_TYPE_PLISTEN \<and> cs_type (sv_slot st i) \<noteq> SOCKET_TYPE_LISTEN
         \<and> cs_type (sv_slot st i) \<noteq> SOCKET_TYPE_CONNECTING \<and> cs_type (sv_slot st i) \<noteq> SOCKET_TYPE_CONNECTED
         \<and> cs_type (sv_slot st i) \<noteq> SOCKET_TYPE_PACCEPT then ret (FRAME_INVALID_SOCKET_TYPE, st)
       else
         bnd (if cs_closing (sv_slot st i) = 0 then
                inner_close E (Some i) 2 (upd_sock i (cs_closing_update (\<lambda>_. 1)) st)
              else inner_close E (Some i) 1 st) (\<lambda>st.
         ret (0, st)))"

text \<open>The call a worker makes for a context that comes back from the port.\<close>

definition sv_dispatch :: "('o, 'e) cpp_env_scheme \<Rightarrow> nat \<Rightarrow> ctx_sel \<Rightarrow> u32 \<Rightarrow> u32 \<Rightarrow> 'o srv \<Rightarrow> 'o srv prog" where
  "sv_dispatch E i c sz err st =
     (case ie_call (get_ev c (sv_slot st i)) of None \<Rightarrow> abort NullDeref
      | Some Call_ev_listen \<Rightarrow> sv_on_listen E i c sz err st
      | Some Call_connect \<Rightarrow> sv_on_connect E i c sz err st
      | Some Call_ev_send \<Rightarrow> sv_on_send E i c sz err st
      | Some Call_ev_recv \<Rightarrow> sv_on_recv E i c sz err st)"

end
