(* ===== verification/SocketProps.thy ===== *)
theory SocketProps
  imports CoreSocket
begin

text \<open>
  What the socket server does: which identifier a new socket gets, what a connection attempt, an accepted
  connection, a send and a close do to the table, and how a report reaches the logic object that owns the
  socket. Several paths of the file end in an assertion or a wild pointer on every run; the theorems say
  which.
\<close>

section \<open>Identifiers\<close>

lemma HASH_ID_mod: "HASH_ID w = unat w mod 65536"
  using and_pow2_minus_1 [where 'a = 32, of 16 w] by (simp add: HASH_ID_def MAX_SOCKET_def)

lemma sint_small: "unat (w :: u32) < 2 ^ 31 \<Longrightarrow> sint w = int (unat w)"
proof -
  assume "unat w < 2 ^ 31"
  then have "int (unat w) < int (2 ^ 31)" by (simp only: of_nat_less_iff)
  then have "uint w < 2 ^ 31" by simp
  then have "signed_take_bit 31 (uint w) = uint w" by (intro signed_take_bit_int_eq_self) (simp_all add: order_trans [OF _ uint_ge_0])
  then show ?thesis by (simp add: sint_uint)
qed

definition advance :: "nat \<Rightarrow> ('o, 'z) nst \<Rightarrow> ('o, 'z) nst" where
  "advance k = onnet (\<lambda>n. n\<lparr>ss_alloc_id := ss_alloc_id n + of_nat k\<rparr>)"

lemma advance_simps [simp]: "sock (advance k st) i = sock st i" "ss_alloc_id (rest (advance k st)) = ss_alloc_id (rest st) + of_nat k"
  "advance 0 st = st" "get_ss (advance k st) = get_ss st" "os (rest (advance k st)) = os (rest st)"
  "IO (rest (advance k st)) = IO (rest st)"
  by (simp_all add: advance_def onnet_def sock_def get_ss_def)

lemma advance_add: "advance k (advance j st) = advance (j + k) st"
  by (simp add: advance_def onnet_def add.assoc)

definition reserved :: "u32 \<Rightarrow> ('o, 'z) nst \<Rightarrow> ('o, 'z) nst" where
  "reserved ident = mod_sock (HASH_ID ident)
     (\<lambda>s. s\<lparr>so_type := SOCKET_TYPE_RESERVE, so_id := ident, so_fd := INVALID_SOCKET, so_pending := 1\<rparr>)"

lemma sock_reserved [simp]: "k \<noteq> HASH_ID ident \<Longrightarrow> sock (reserved ident st) k = sock st k"
  by (simp add: reserved_def)

definition free_at :: "('o, 'z) nst \<Rightarrow> nat \<Rightarrow> bool" where
  "free_at st j \<longleftrightarrow> so_type (sock st ((unat (ss_alloc_id (rest st)) + j) mod MAX_SOCKET)) = SOCKET_TYPE_INVALID"

lemma reserve_loop_step:
  assumes "unat (ss_alloc_id (rest st)) + 1 < 2 ^ 31"
  shows "reserve_loop (Suc k) st =
    (if free_at st 1 then (ss_alloc_id (rest st) + 1, reserved (ss_alloc_id (rest st) + 1) (advance 1 st))
     else reserve_loop k (advance 1 st))"
proof -
  have u: "unat (ss_alloc_id (rest st) + 1) = unat (ss_alloc_id (rest st)) + 1"
    using assms by (simp add: unat_word_ariths)
  then have "\<not> sint (ss_alloc_id (rest st) + 1) < 0" 
    using assms sint_small [of "ss_alloc_id (rest st) + 1"] by (simp only: not_less of_nat_0_le_iff)
  moreover have "HASH_ID (ss_alloc_id (rest st) + 1) = (unat (ss_alloc_id (rest st)) + 1) mod MAX_SOCKET"
    by (simp add: HASH_ID_mod u MAX_SOCKET_def)
  moreover have "onnet (\<lambda>n. n\<lparr>ss_alloc_id := ss_alloc_id n + 1\<rparr>) st = advance 1 st" by (simp add: advance_def)
  ultimately show ?thesis by (simp add: Let_def free_at_def reserved_def)
qed

lemma reserve_loop_ok:
  assumes "unat (ss_alloc_id (rest st)) + k < 2 ^ 31"
  shows "(\<forall>j. 1 \<le> j \<longrightarrow> j \<le> k \<longrightarrow> \<not> free_at st j) \<and> reserve_loop k st = (- 1, advance k st) \<or>
    (\<exists>j. 1 \<le> j \<and> j \<le> k \<and> free_at st j \<and> (\<forall>m. 1 \<le> m \<longrightarrow> m < j \<longrightarrow> \<not> free_at st m) \<and>
      reserve_loop k st = (ss_alloc_id (rest st) + of_nat j, reserved (ss_alloc_id (rest st) + of_nat j) (advance j st)))"
  using assms
proof (induction k arbitrary: st)
  case (Suc k)
  let ?a = "ss_alloc_id (rest st)"
  have u: "unat (?a + 1) = unat ?a + 1" using Suc.prems by (simp add: unat_word_ariths)
  have free: "free_at (advance 1 st) j \<longleftrightarrow> free_at st (Suc j)" for j by (simp add: free_at_def u)
  note step = reserve_loop_step [of st k]
  show ?case
  proof (cases "free_at st 1")
    case True
    then show ?thesis using step Suc.prems by (intro disjI2 exI [of _ 1]) simp
  next
    case False
    then have e: "reserve_loop (Suc k) st = reserve_loop k (advance 1 st)" using step Suc.prems by simp
    have "unat (ss_alloc_id (rest (advance 1 st))) + k < 2 ^ 31" using Suc.prems u by simp
    from Suc.IH [OF this] show ?thesis
    proof (elim disjE conjE exE)
      assume "\<forall>j\<ge>1. j \<le> k \<longrightarrow> \<not> free_at (advance 1 st) j" "reserve_loop k (advance 1 st) = (- 1, advance k (advance 1 st))"
      then have "\<forall>j\<ge>1. j \<le> Suc k \<longrightarrow> \<not> free_at st j" using False free
        by (metis One_nat_def Suc_le_mono Suc_n_not_le_n not0_implies_Suc le_Suc_eq not_less_eq_eq)
      then show ?thesis using e \<open>reserve_loop k _ = _\<close> by (simp add: advance_add)
    next
      fix j assume j: "1 \<le> j" "j \<le> k" "free_at (advance 1 st) j" "\<forall>m\<ge>1. m < j \<longrightarrow> \<not> free_at (advance 1 st) m"
        "reserve_loop k (advance 1 st) = (ss_alloc_id (rest (advance 1 st)) + of_nat j,
           reserved (ss_alloc_id (rest (advance 1 st)) + of_nat j) (advance j (advance 1 st)))"
      have "\<not> free_at st m" if "1 \<le> m" "m < Suc j" for m
        using that j(4) False free by (cases "m = 1") (auto simp: gr0_conv_Suc Suc_le_eq less_Suc_eq_0_disj elim!: less_SucE)
      then show ?thesis using e j free by (intro disjI2 exI [of _ "Suc j"]) (simp add: advance_add ac_simps)
    qed
  qed
qed simp

lemma position_reached: "i < MAX_SOCKET \<Longrightarrow> \<exists>j. 1 \<le> j \<and> j \<le> MAX_SOCKET \<and> (a + j) mod MAX_SOCKET = i"
proof -
  assume i: "i < MAX_SOCKET"
  define r where "r = a mod MAX_SOCKET"
  have r: "r < MAX_SOCKET" by (simp add: r_def MAX_SOCKET_def)
  have "(r + (if r < i then i - r else i + MAX_SOCKET - r)) mod MAX_SOCKET = i" using i r by auto
  then have "(a + (if r < i then i - r else i + MAX_SOCKET - r)) mod MAX_SOCKET = i" by (simp add: r_def mod_add_left_eq)
  then show ?thesis using i r by (intro exI [of _ "if r < i then i - r else i + MAX_SOCKET - r"]) auto
qed

lemma ident_positive:
  assumes "unat a + MAX_SOCKET < 2 ^ 31" "1 \<le> j" "j \<le> MAX_SOCKET"
  shows "unat (a + of_nat j :: u32) = unat a + j" "sint (a + of_nat j) > 0"
proof -
  have "unat (of_nat j :: u32) = j" using assms by (simp add: unat_of_nat MAX_SOCKET_def)
  then show u: "unat (a + of_nat j :: u32) = unat a + j" using assms by (simp add: unat_word_ariths MAX_SOCKET_def)
  then have "sint (a + of_nat j) = int (unat a + j)"
    using sint_small [of "a + of_nat j"] assms(1,3) by (simp only:)
  also have "0 < \<dots>" using assms(2) by (simp only: of_nat_0_less_iff)
  finally show "sint (a + of_nat j) > 0" .
qed

lemma reserve_id_loop: "IO (rest st) \<noteq> None \<Longrightarrow> reserve_id st = ret (reserve_loop MAX_SOCKET st)"
  by (auto simp: reserve_id_def get_ss_def)

lemma reserve_id_free:
  assumes io: "IO (rest st) \<noteq> None" and small: "unat (ss_alloc_id (rest st)) + MAX_SOCKET < 2 ^ 31"
    and f: "i < MAX_SOCKET" "so_type (sock st i) = SOCKET_TYPE_INVALID"
  shows "\<exists>j ident. 1 \<le> j \<and> j \<le> MAX_SOCKET \<and> unat ident = unat (ss_alloc_id (rest st)) + j \<and> sint ident > 0 \<and>
    so_type (sock st (HASH_ID ident)) = SOCKET_TYPE_INVALID \<and> (\<forall>m. 1 \<le> m \<longrightarrow> m < j \<longrightarrow> \<not> free_at st m) \<and>
    reserve_id st = ret (ident, reserved ident (advance j st))"
proof -
  let ?a = "ss_alloc_id (rest st)"
  obtain k where "1 \<le> k" "k \<le> MAX_SOCKET" "free_at st k"
    using position_reached [OF f(1), of "unat ?a"] f(2) by (auto simp: free_at_def)
  then obtain j where j: "1 \<le> j" "j \<le> MAX_SOCKET" "free_at st j" "\<forall>m\<ge>1. m < j \<longrightarrow> \<not> free_at st m"
      "reserve_loop MAX_SOCKET st = (?a + of_nat j, reserved (?a + of_nat j) (advance j st))"
    using reserve_loop_ok [OF small] by blast
  note p = ident_positive [OF small j(1,2)]
  have "HASH_ID (?a + of_nat j) = (unat ?a + j) mod MAX_SOCKET" by (simp add: HASH_ID_mod p(1) MAX_SOCKET_def)
  then have "so_type (sock st (HASH_ID (?a + of_nat j))) = SOCKET_TYPE_INVALID" using j(3) by (simp add: free_at_def)
  then show ?thesis using reserve_id_loop [OF io] j p by auto
qed

text \<open>
  C35. A new socket gets the next identifier whose slot is free, counting up from the last one given out,
  and the slot is reserved for it with one reference; the identifier is positive and no socket has it.
  Only when all \<open>2 ^ 16\<close> slots are taken is there none, and then nothing but the counter changes.
\<close>

theorem reserve_id_spec:
  assumes io: "IO (rest st) \<noteq> None" and small: "unat (ss_alloc_id (rest st)) + MAX_SOCKET < 2 ^ 31"
  shows "if \<exists>i<MAX_SOCKET. so_type (sock st i) = SOCKET_TYPE_INVALID then
      \<exists>j ident. 1 \<le> j \<and> j \<le> MAX_SOCKET \<and> unat ident = unat (ss_alloc_id (rest st)) + j \<and> sint ident > 0 \<and>
        so_type (sock st (HASH_ID ident)) = SOCKET_TYPE_INVALID \<and> (\<forall>m. 1 \<le> m \<longrightarrow> m < j \<longrightarrow> \<not> free_at st m) \<and>
        reserve_id st = ret (ident, reserved ident (advance j st))
    else reserve_id st = ret (- 1, advance MAX_SOCKET st)"
proof (cases "\<exists>i<MAX_SOCKET. so_type (sock st i) = SOCKET_TYPE_INVALID")
  case True
  then show ?thesis using reserve_id_free [OF assms] by auto
next
  case False
  then have "\<not> free_at st j" for j by (simp add: free_at_def MAX_SOCKET_def)
  then show ?thesis using reserve_loop_ok [OF small] reserve_id_loop [OF io] False by auto
qed

text \<open>
  The counter does not wrap to the small numbers: after \<open>2 ^ 31 - 1\<close> the addition that should clear the
  sign gives \<open>-1\<close>, the value that means there is no free slot, although a slot was reserved for it; the
  identifier after it is 0.
\<close>

theorem reserve_id_wraps:
  assumes "IO (rest st) \<noteq> None" "ss_alloc_id (rest st) = 0x7FFFFFFF"
    "so_type (sock st 65535) = SOCKET_TYPE_INVALID" "so_type (sock st 0) = SOCKET_TYPE_INVALID"
  shows "\<exists>st' st''. reserve_id st = ret (- 1, st') \<and> so_type (sock st' 65535) = SOCKET_TYPE_RESERVE \<and>
    so_id (sock st' 65535) = - 1 \<and> reserve_id st' = ret (0, st'') \<and> so_type (sock st'' 0) = SOCKET_TYPE_RESERVE"
proof -
  obtain k where k: "MAX_SOCKET = Suc k" by (simp add: MAX_SOCKET_def)
  obtain io where io: "get_ss st = ret io" using assms(1) by (auto simp: get_ss_def)
  have m: "(- 1 :: u32) = 4294967295" by simp
  let ?st = "reserved 4294967295 (advance (2 ^ 31) st)"
  have "reserve_loop (Suc k) st = (4294967295, ?st)"
    using assms(2,3) by (simp add: Let_def HASH_ID_def reserved_def advance_def onnet_def sock_def)
  moreover have "\<exists>st''. reserve_loop (Suc k) ?st = (0, st'') \<and> so_type (sock st'' 0) = SOCKET_TYPE_RESERVE"
    using assms(2,4) by (simp add: Let_def HASH_ID_def reserved_def advance_def onnet_def sock_def mod_sock_def)
  moreover have "so_type (sock ?st 65535) = SOCKET_TYPE_RESERVE" "so_id (sock ?st 65535) = 4294967295" "get_ss ?st = ret io"
    using io by (simp_all add: reserved_def HASH_ID_def)
  ultimately show ?thesis unfolding reserve_id_def k m using io by auto
qed

section \<open>Reports\<close>

text \<open>
  \<open>owned st lgc p l io\<close>: the identifier \<open>lgc\<close> is registered for the object at \<open>p\<close>, somebody holds a reference to it,
  and its poller runs.
\<close>

definition owned :: "('o, 'z) nst \<Rightarrow> u32 \<Rightarrow> nat \<Rightarrow> core_logic \<Rightarrow> core_poller \<Rightarrow> bool" where
  "owned st lgc p l io \<longleftrightarrow> store_ok st \<and> registry st lgc = Some p \<and> lgcs st p = Some l \<and> lg_ref l \<noteq> 0 \<and>
     pollers (rest st) (lg_io l) = Some io \<and> cp_thr io \<noteq> 0"

text \<open>The state after a message with the given data was allocated, addressed and queued.\<close>

definition queued :: "('o, 'e) winsock_scheme \<Rightarrow> u32 \<Rightarrow> core_logic \<Rightarrow> core_poller \<Rightarrow> socket_msg \<Rightarrow> ('o, 'z) nst \<Rightarrow> ('o, 'z) nst" where
  "queued E lgc l io d st = onnet (\<lambda>n.
     n\<lparr>pollers := (pollers n)(lg_io l \<mapsto> io\<lparr>port := port io @ [Msg 0 (brk n) 0 0]\<rparr>),
       msgs := (msgs n)(brk n \<mapsto> \<lparr>lm_sender = 0, lm_recver = lgc, lm_session = 0, lm_sz = 20, lm_data = brk n + 1\<rparr>),
       sdata := (sdata n)(brk n + 1 \<mapsto> d), brk := brk n + 2, os := snd (sys_post E (os n))\<rparr>) st"

lemma store_onnet [simp]: "lgcs (onnet f st) = lgcs st" "store_ok (onnet f st) = store_ok st" "registry (onnet f st) = registry st"
  "rest (onnet f st) = f (rest st)" "onnet f (onnet g st) = onnet (f \<circ> g) st"
  by (simp_all add: onnet_def store_ok_def registry_def fun_eq_iff cong: option.case_cong)

lemma queued_simps [simp]: "sock (queued E lgc l io d st) i = sock st i" "lgcs (queued E lgc l io d st) = lgcs st"
  "IO (rest (queued E lgc l io d st)) = IO (rest st)" "get_ss (queued E lgc l io d st) = get_ss st"
  "store_ok (queued E lgc l io d st) = store_ok st" "registry (queued E lgc l io d st) = registry st"
  by (simp_all add: queued_def sock_def get_ss_def)

lemma queued_msg [simp]:
  "msgs (rest (queued E lgc l io d st)) (brk (rest st)) =
     Some \<lparr>lm_sender = 0, lm_recver = lgc, lm_session = 0, lm_sz = 20, lm_data = brk (rest st) + 1\<rparr>"
  "sdata (rest (queued E lgc l io d st)) (Suc (brk (rest st))) = Some d"
  by (simp_all add: queued_def)

lemma warp_post_ok:
  assumes o: "owned st lgc p l io"
  shows "warp_post E mods lgc m st = ret (onnet (\<lambda>n.
    n\<lparr>pollers := (pollers n)(lg_io l \<mapsto> io\<lparr>port := port io @ [Msg 0 m 0 0]\<rparr>),
      msgs := (msgs n)(m := map_option (lm_recver_update (\<lambda>_. lgc)) (msgs n m)), os := snd (sys_post E (os n))\<rparr>) st)"
proof -
  have g: "corelogic_grub lgc st = ret (Some p, add_ref st p)" using o by (intro grub_registered) (simp_all add: owned_def)
  have l: "lgcs st p = Some l" "pollers (rest st) (lg_io l) = Some io" "cp_thr io \<noteq> 0" "lg_ref l \<noteq> 0"
    using o by (simp_all add: owned_def)
  have "fun_upd (lgcs st) p (Some l) = lgcs st" using l(1) by (simp add: fun_upd_idem)
  then show ?thesis using l
    by (simp add: warp_post_def g add_ref_def lg_load_def poller_at_def callos_def corepoller_post_def corelogic_release_def
        set_poller_def onos_def onnet_def Let_def split: prod.splits)
qed

lemma report_queued:
  assumes o: "owned st lgc p l io"
  shows "(let (m, st) = msg_alloc d st in warp_post E mods lgc m st) = ret (queued E lgc l io d st)"
proof -
  let ?a = "brk (rest st)"
  define st1 where "st1 = snd (msg_alloc d st)"
  have m: "msg_alloc d st = (?a, st1)" by (simp add: st1_def msg_alloc_def Let_def)
  have o1: "owned st1 lgc p l io" using o by (simp add: owned_def st1_def msg_alloc_def Let_def)
  show ?thesis
    by (simp only: m Let_def prod.case warp_post_ok [OF o1])
      (simp add: st1_def msg_alloc_def Let_def queued_def onnet_def logicmsg_new_def)
qed

text \<open>
  A report on a connection attempt reaches the logic object that owns the socket: the message is queued at
  the object's poller, the reference taken for it is given back, and the handler the worker then runs calls
  the object's callback on the data of the report.
\<close>

theorem report_connect_delivered:
  assumes "owned st lgc p l io" "lg_call l = Some f"
  shows "report_connect E mods lgc ident err st = ret (queued E lgc l io \<lparr>sm_type = socketmsg_connect, sm_id = ident, sm_err = err, sm_listenid = None\<rparr> st) \<and>
    (let st' = queued E lgc l io \<lparr>sm_type = socketmsg_connect, sm_id = ident, sm_err = err, sm_listenid = None\<rparr> st;
         m = the (msgs (rest st') (brk (rest st))) in
     default_logicmsg_handler call_back io' m st' = call_back f io' p 0 0 (lm_data m) 20 (add_ref st' p) \<and>
     sdata (rest st') (lm_data m) = Some \<lparr>sm_type = socketmsg_connect, sm_id = ident, sm_err = err, sm_listenid = None\<rparr>)"
proof -
  let ?st = "queued E lgc l io \<lparr>sm_type = socketmsg_connect, sm_id = ident, sm_err = err, sm_listenid = None\<rparr> st"
  have g: "corelogic_grub lgc ?st = ret (Some p, add_ref ?st p)"
    using assms(1) by (intro grub_registered) (simp_all add: owned_def)
  have "lgcs st p = Some l" using assms(1) by (simp add: owned_def)
  with report_queued [OF assms(1)] assms(2) show ?thesis
    by (simp add: report_connect_def default_logicmsg_handler_def Let_def g lg_load_def add_ref_def)
qed

section \<open>Receiving never starts\<close>

lemma buffernode_new_total: "\<exists>n. buffernode_new junk len = ret n \<and> bn_in n = 0 \<and> bn_out n = 0"
proof (cases "len < LONG_MAX")
  case True
  then show ?thesis using buffernode_new_spec [of len junk] by blast
next
  case False
  then have "next_power len = ret LONG_MAX" by (simp add: next_power_def not_less)
  then show ?thesis unfolding buffernode_new_def by (simp only: bnd_ret prog_inject) simp
qed

lemma fresh_startwrite: "bn_in n = 0 \<Longrightarrow> bn_out n = 0 \<Longrightarrow> fst (buffernode_startwrite n) = 0"
  by (simp add: buffernode_startwrite_def Let_def)

lemma ev_recv_start_faults: "ev_recv_start E i c st = abort AssertionFailed"
proof (cases "sc_ready (get_ctx c (sock st i)) = 0")
  case True
  obtain n where "buffernode_new (junk_bytes E (os (rest st))) (read_size (sock st i)) = ret n" "fst (buffernode_startwrite n) = 0"
    using buffernode_new_total fresh_startwrite by metis
  then show ?thesis using True by (simp add: ev_recv_start_def reset_socket_ctx_def Let_def)
qed (simp add: ev_recv_start_def)

lemma owned_mod_sock [simp]: "owned (mod_sock i f st) = owned st"
  by (simp add: fun_eq_iff owned_def mod_sock_def)

text \<open>
  C37. What becomes of a connection attempt: its outcome is reported to the owner; a failure gives back one
  reference, and a success marks the socket connected and then stops the process, because the first receive
  is offered no room in its fresh buffer and asserts on it.
\<close>

theorem event_connect_spec:
  assumes o: "owned st (so_logic (sock st i)) p l io"
  shows "event_connect E mods i c sz e st =
    (if e = 0 \<or> sint (so_pending (sock st i)) \<le> 1 then abort AssertionFailed
     else ret (mod_sock i (so_pending_update (\<lambda>r. r - 1)) (queued E (so_logic (sock st i)) l io
       \<lparr>sm_type = socketmsg_connect, sm_id = so_id (sock st i), sm_err = e, sm_listenid = None\<rparr>
       (mod_sock i (map_ctx c (sc_ready_update (\<lambda>_. 0))) st))))"
proof -
  let ?st = "mod_sock i (map_ctx c (sc_ready_update (\<lambda>_. 0))) st"
  have "report_connect E mods (so_logic (sock st i)) (so_id (sock st i)) e ?st = ret (queued E (so_logic (sock st i)) l io
       \<lparr>sm_type = socketmsg_connect, sm_id = so_id (sock st i), sm_err = e, sm_listenid = None\<rparr> ?st)"
    unfolding report_connect_def by (rule report_queued [of _ _ p]) (simp add: o)
  then show ?thesis
    by (simp add: event_connect_def check_warpcall_def socketcheck_addref_def ev_recv_start_faults
        socketcheck_delref_def force_close_faults Let_def)
qed

section \<open>Sending\<close>

lemma sock_onnet [simp]: "(\<And>n. ss_slot (f n) = ss_slot n) \<Longrightarrow> sock (onnet f st) i = sock st i"
  by (simp add: sock_def)

lemma ev_send_start_idle:
  assumes "sc_ready (get_ctx c (sock st i)) = 0" "sc_u (get_ctx c (sock st i)) = CZero" "cb_count (write_buf (sock st i)) = 0"
  shows "ev_send_start E i c st = abort NullDeref"
  using assms by (simp add: ev_send_start_def corebuffer_popfront_safe_def corebuffer_popfront_def Let_def)

text \<open>
  Nothing is ever sent: \<^verbatim>\<open>start_send\<close> queues the bytes on the socket's read queue, the operation then looks for a
  node in the write queue, finds none and reads through the null pointer it gets.
\<close>

theorem start_send_faults:
  assumes io: "IO (rest st) \<noteq> None" and i: "i = HASH_ID ident" "s = sock st i"
    and reg: "so_type s \<noteq> SOCKET_TYPE_INVALID" "so_id s = ident"
    and idle: "sc_ready (write_op s) = 0" "sc_u (write_op s) = CZero" "cb_count (write_buf s) = 0"
    and q: "queue_of (bufs (rest st)) (read_buf s) xs" "brk (rest st) \<notin> set xs"
    and buf: "cbuf_size buf < LONG_MAX" "length (cbuf_data buf) = unat (cbuf_size buf)"
  shows "start_send E ident buf st = abort NullDeref"
proof -
  obtain n where n: "buffernode_new (junk_bytes E (os (rest st))) (cbuf_size buf) = ret n" "node_inv n"
    "cbuf_size buf \<le> bn_size n" "bn_in n = 0" "bn_out n = 0" "bn_next n = None"
    using buffernode_new_spec [OF buf(1)] by blast
  then obtain r n' where w: "buffernode_write n (cbuf_data buf) (cbuf_size buf) = ret (r, n')" "bn_next n' = None"
    using buf buffernode_write_eq [of n "cbuf_size buf" "cbuf_data buf"] by (auto simp: buffernode_canwrite_def)
  let ?h = "(bufs (rest st))(brk (rest st) \<mapsto> n')"
  have "queue_of ?h (read_buf s) xs" using q by (simp add: queue_of_def)
  moreover have "chain ?h (Some (brk (rest st))) [brk (rest st)]" using w(2) by simp
  ultimately obtain h' b' where pb: "corebuffer_pushback ?h (read_buf s) (brk (rest st)) = ret (h', b')"
    using pushback_spec [of ?h "read_buf s" xs "brk (rest st)" "[]"] q(2) by auto
  obtain io where "get_ss st = ret io" using io by (auto simp: get_ss_def)
  then have g: "grub_socket E ident st = ret (Some i, mod_sock i (so_pending_update (\<lambda>p. p + 1)) st)"
    using i reg by (simp add: grub_socket_def Let_def)
  show ?thesis using n(1) w(1) pb idle i(2)
    by (simp add: start_send_def g Let_def corebuffer_pushback_safe_def ev_send_start_idle)
qed

section \<open>Closing\<close>

definition open_types :: "socket_type set" where
  "open_types = {SOCKET_TYPE_PLISTEN, SOCKET_TYPE_LISTEN, SOCKET_TYPE_CONNECTING, SOCKET_TYPE_CONNECTED, SOCKET_TYPE_PACCEPT}"

lemma mod_sock_mod_sock: "mod_sock i f (mod_sock i g st) = mod_sock i (f \<circ> g) st"
  by (simp add: mod_sock_def onnet_def)

lemma mod_sock_cong: "f (sock st i) = g (sock st i) \<Longrightarrow> mod_sock i f st = mod_sock i g st"
  by (simp add: mod_sock_def onnet_def sock_def)

lemma mod_sock_id: "f (sock st i) = sock st i \<Longrightarrow> mod_sock i f st = st"
  by (simp add: mod_sock_def onnet_def sock_def)

lemma grub_socket_spec:
  assumes "IO (rest st) \<noteq> None"
  shows "grub_socket E ident st =
    (let i = HASH_ID ident; s = sock st i in
     if so_type s \<noteq> SOCKET_TYPE_INVALID \<and> so_id s = ident then ret (Some i, mod_sock i (so_pending_update (\<lambda>p. p + 1)) st)
     else if sint (so_pending s + 1) \<le> 1 then abort AssertionFailed
     else ret (None, st))"
proof -
  obtain io where "get_ss st = ret io" using assms by (auto simp: get_ss_def)
  then show ?thesis
    by (auto simp: grub_socket_def Let_def socketcheck_delref_def force_close_faults mod_sock_mod_sock intro!: mod_sock_id)
qed

text \<open>
  The outcome of a close, for every state of the slot. The socket's identifier gives back the reference of its
  creation, and when that was the last one besides the caller's the process stops; closing twice only counts the
  caller's own reference up and down; an identifier nobody has is refused when its slot is in use, and stops
  the process when the slot is free; a socket that is only reserved is refused but keeps the caller's
  reference.
\<close>

theorem start_close_spec:
  assumes io: "IO (rest st) \<noteq> None"
  shows "start_close E ident st =
    (let i = HASH_ID ident; s = sock st i in
     if so_type s = SOCKET_TYPE_INVALID \<or> so_id s \<noteq> ident then
       (if sint (so_pending s + 1) \<le> 1 then abort AssertionFailed else ret (- 1, st))
     else if so_type s \<notin> open_types then ret (- 1, mod_sock i (so_pending_update (\<lambda>p. p + 1)) st)
     else if closing s = 0 then
       (if sint (so_pending s + 1) \<le> 2 then abort AssertionFailed
        else ret (0, mod_sock i (\<lambda>s. s\<lparr>so_pending := so_pending s - 1, closing := 1\<rparr>) st))
     else if sint (so_pending s + 1) \<le> 1 then abort AssertionFailed
     else ret (0, st))"
proof -
  let ?i = "HASH_ID ident" and ?s = "sock st (HASH_ID ident)"
  consider "so_type ?s = SOCKET_TYPE_INVALID \<or> so_id ?s \<noteq> ident"
    | "\<not> (so_type ?s = SOCKET_TYPE_INVALID \<or> so_id ?s \<noteq> ident)" "so_type ?s \<notin> open_types"
    | "\<not> (so_type ?s = SOCKET_TYPE_INVALID \<or> so_id ?s \<noteq> ident)" "so_type ?s \<in> open_types" by blast
  then show ?thesis
  proof cases
    case 1
    then show ?thesis by (auto simp: start_close_def grub_socket_spec [OF io] Let_def)
  next
    case 2
    then show ?thesis by (simp add: start_close_def grub_socket_spec [OF io] Let_def open_types_def)
  next
    case 3
    then have "\<not> (so_type ?s \<noteq> SOCKET_TYPE_PLISTEN \<and> so_type ?s \<noteq> SOCKET_TYPE_LISTEN \<and> so_type ?s \<noteq> SOCKET_TYPE_CONNECTING
       \<and> so_type ?s \<noteq> SOCKET_TYPE_CONNECTED \<and> so_type ?s \<noteq> SOCKET_TYPE_PACCEPT)" by (auto simp: open_types_def)
    with 3 show ?thesis
      by (simp add: start_close_def grub_socket_spec [OF io] Let_def socketcheck_delref_def force_close_faults
          mod_sock_mod_sock mod_sock_id) (auto intro!: mod_sock_cong)
  qed
qed

lemma stop_loop_faults:
  assumes "i \<le> j" "j < MAX_SOCKET" "so_type (sock st j) \<noteq> SOCKET_TYPE_RESERVE"
  shows "stop_loop E i st = abort AssertionFailed"
  using assms(1)
proof (induction "j - i" arbitrary: i)
  case 0
  then show ?case using assms by (subst stop_loop.simps) (simp add: force_close_faults)
next
  case (Suc d)
  then show ?case using assms(2) by (subst stop_loop.simps) (simp add: force_close_faults)
qed

text \<open>
  Stopping the server stops the process: every slot that is not reserved is closed by force, the free ones
  too, and that always asserts.
\<close>

theorem stop_socketserver_faults:
  assumes "IO (rest st) \<noteq> None" "j < MAX_SOCKET" "so_type (sock st j) \<noteq> SOCKET_TYPE_RESERVE"
  shows "stop_socketserver E st = abort AssertionFailed"
  using assms stop_loop_faults [of 0 j st E] by (auto simp: stop_socketserver_def get_ss_def)

section \<open>Connecting and accepting\<close>

text \<open>
  \<open>sys_quiet E\<close>: the system grants every call. Only \<^verbatim>\<open>ConnectEx\<close> and \<^verbatim>\<open>AcceptEx\<close> may say that the operation is pending.
\<close>

definition sys_quiet :: "('o, 'e) winsock_scheme \<Rightarrow> bool" where
  "sys_quiet E \<longleftrightarrow>
     (\<forall>s. fst (WSASocket E s) \<noteq> INVALID_SOCKET) \<and>
     (\<forall>fd a p s. fst (sys_bind E fd a p s) \<noteq> - 1) \<and>
     (\<forall>fd io k s. WSAGetLastError E (snd (sys_join_port E fd io k (WSASetLastError E 0 s))) = 0) \<and>
     (\<forall>fd a p k s. WSAGetLastError E (sys_connectex E fd a p k (WSASetLastError E 0 s)) \<in> {0, WSA_IO_PENDING}) \<and>
     (\<forall>fd nfd k s. WSAGetLastError E (sys_acceptex E fd nfd k (sys_accept_context E nfd fd (WSASetLastError E 0 s))) \<in> {0, WSA_IO_PENDING})"

lemma onos_onos [simp]: "onos f (onos g st) = onos (f \<circ> g) st"
  by (simp add: onos_def onnet_def)

lemma new_fd_ok:
  assumes q: "sys_quiet E" and io: "IO (rest st) \<noteq> None" and t: "so_type (sock st (HASH_ID ident)) = SOCKET_TYPE_RESERVE"
  shows "\<exists>f. new_fd E ident lgc fd True st = ret (Some (HASH_ID ident),
    mod_sock (HASH_ID ident) (\<lambda>s. s\<lparr>so_id := ident, so_fd := fd, so_logic := lgc, so_pending := 1\<rparr>) (onos f st))"
proof -
  obtain io where io: "get_ss st = ret io" using io by (auto simp: get_ss_def)
  let ?f = "\<lambda>_. snd (sys_join_port E fd io (HASH_ID ident) (WSASetLastError E 0 (os (rest st))))"
  have "callos (sys_join_port E fd io (HASH_ID ident)) (onos (WSASetLastError E 0) st)
      = (fst (sys_join_port E fd io (HASH_ID ident) (WSASetLastError E 0 (os (rest st)))), onos ?f st)"
    by (simp add: callos_def comp_def split: prod.splits)
  then have "new_fd E ident lgc fd True st = ret (Some (HASH_ID ident),
    mod_sock (HASH_ID ident) (\<lambda>s. s\<lparr>so_id := ident, so_fd := fd, so_logic := lgc, so_pending := 1\<rparr>) (onos ?f st))"
    using q io t by (simp add: new_fd_def Let_def last_error_def sys_quiet_def)
  then show ?thesis by blast
qed

lemma create_ok:
  assumes q: "sys_quiet E" and io: "IO (rest st) \<noteq> None" and small: "unat (ss_alloc_id (rest st)) + MAX_SOCKET < 2 ^ 31"
    and f: "i < MAX_SOCKET" "so_type (sock st i) = SOCKET_TYPE_INVALID"
  shows "\<exists>ident j g. sint ident > 0 \<and> so_type (sock st (HASH_ID ident)) = SOCKET_TYPE_INVALID \<and>
    reserve_id st = ret (ident, reserved ident (advance j st)) \<and>
    new_fd E ident lgc fd True (reserved ident (advance j st)) = ret (Some (HASH_ID ident),
      mod_sock (HASH_ID ident) (\<lambda>s. s\<lparr>so_id := ident, so_fd := fd, so_logic := lgc, so_pending := 1\<rparr>)
        (onos g (reserved ident (advance j st))))"
proof -
  obtain j ident where r: "sint ident > 0" "so_type (sock st (HASH_ID ident)) = SOCKET_TYPE_INVALID"
    "reserve_id st = ret (ident, reserved ident (advance j st))" using reserve_id_free [OF io small f] by blast
  have "\<exists>g. new_fd E ident lgc fd True (reserved ident (advance j st)) = ret (Some (HASH_ID ident),
      mod_sock (HASH_ID ident) (\<lambda>s. s\<lparr>so_id := ident, so_fd := fd, so_logic := lgc, so_pending := 1\<rparr>)
        (onos g (reserved ident (advance j st))))"
    by (rule new_fd_ok [OF q]) (use io in \<open>simp_all add: reserved_def\<close>)
  with r show ?thesis by blast
qed

text \<open>
  C36. A connection attempt that the system grants gives the caller a fresh positive identifier; its slot was free and
  now holds a connecting socket of that logic object, with two references and the read context armed for the
  outcome, and no other socket is touched.
\<close>

theorem start_connet_spec:
  assumes q: "sys_quiet E" and io: "IO (rest st) \<noteq> None" and small: "unat (ss_alloc_id (rest st)) + MAX_SOCKET < 2 ^ 31"
    and f: "i < MAX_SOCKET" "so_type (sock st i) = SOCKET_TYPE_INVALID"
  shows "\<exists>ident st'. start_connet E lgc addr pt st = ret (0, Some ident, st') \<and> sint ident > 0 \<and>
    so_type (sock st (HASH_ID ident)) = SOCKET_TYPE_INVALID \<and>
    (let s = sock st' (HASH_ID ident) in so_id s = ident \<and> so_type s = SOCKET_TYPE_CONNECTING \<and> so_logic s = lgc \<and>
       so_pending s = 2 \<and> read_op s = \<lparr>sc_call = Some Call_connect, sc_ready = 1, sc_u = CZero\<rparr>) \<and>
    (\<forall>k. k \<noteq> HASH_ID ident \<longrightarrow> sock st' k = sock st k)"
proof -
  define fd where "fd = fst (WSASocket E (WSASetLastError E 0 (os (rest st))))"
  define st1 where "st1 = onos (\<lambda>_. snd (WSASocket E (WSASetLastError E 0 (os (rest st))))) st"
  define st2 where "st2 = onos (\<lambda>_. snd (sys_bind E fd 0 0 (WSASetLastError E 0 (os (rest st1))))) st1"
  have 1: "callos (WSASocket E) (onos (WSASetLastError E 0) st) = (fd, st1)"
    by (simp add: callos_def fd_def st1_def comp_def split: prod.splits)
  define r where "r = fst (sys_bind E fd 0 0 (WSASetLastError E 0 (os (rest st1))))"
  have r: "r \<noteq> - 1" "callos (sys_bind E fd 0 0) (onos (WSASetLastError E 0) st1) = (r, st2)"
    using q by (simp_all add: r_def callos_def st2_def comp_def sys_quiet_def split: prod.splits)
  have fd: "fd \<noteq> INVALID_SOCKET" using q by (simp add: fd_def sys_quiet_def)
  obtain ident j g where c: "sint ident > 0" "so_type (sock st2 (HASH_ID ident)) = SOCKET_TYPE_INVALID"
    "reserve_id st2 = ret (ident, reserved ident (advance j st2))"
    "new_fd E ident lgc fd True (reserved ident (advance j st2)) = ret (Some (HASH_ID ident),
      mod_sock (HASH_ID ident) (\<lambda>s. s\<lparr>so_id := ident, so_fd := fd, so_logic := lgc, so_pending := 1\<rparr>)
        (onos g (reserved ident (advance j st2))))"
    using create_ok [OF q, of st2 i lgc fd] io small f by (auto simp: st2_def st1_def)
  have k: "(WSAGetLastError E (sys_connectex E a b p k (WSASetLastError E 0 s)) \<noteq> 0 \<and>
      WSAGetLastError E (sys_connectex E a b p k (WSASetLastError E 0 s)) \<noteq> WSA_IO_PENDING) = False" for a b p k s
    using q unfolding sys_quiet_def by blast
  have "\<exists>st'. start_connet E lgc addr pt st = ret (0, Some ident, st') \<and>
    (let s = sock st' (HASH_ID ident) in so_id s = ident \<and> so_type s = SOCKET_TYPE_CONNECTING \<and> so_logic s = lgc \<and>
       so_pending s = 2 \<and> read_op s = \<lparr>sc_call = Some Call_connect, sc_ready = 1, sc_u = CZero\<rparr>) \<and>
    (\<forall>k. k \<noteq> HASH_ID ident \<longrightarrow> sock st' k = sock st2 k)"
    using c(1) by (simp add: start_connet_def 1 fd r c Let_def last_error_def reset_socket_ctx_def k ctx_zero_def)
  then show ?thesis using c(1,2) by (auto simp: st2_def st1_def)
qed

lemma ev_listen_start_ok:
  assumes q: "sys_quiet E" and io: "IO (rest st) \<noteq> None" and small: "unat (ss_alloc_id (rest st)) + MAX_SOCKET < 2 ^ 31"
    and f: "k < MAX_SOCKET" "so_type (sock st k) = SOCKET_TYPE_INVALID" and i: "so_type (sock st i) \<noteq> SOCKET_TYPE_INVALID"
  shows "\<exists>ident st'. ev_listen_start E i c st = ret (0, st') \<and> so_type (sock st (HASH_ID ident)) = SOCKET_TYPE_INVALID \<and>
    get_ctx c (sock st' i) = \<lparr>sc_call = Some Call_ev_listen, sc_ready = 1, sc_u = CSock (HASH_ID ident)\<rparr> \<and>
    so_id (sock st' (HASH_ID ident)) = ident \<and> so_type (sock st' (HASH_ID ident)) = SOCKET_TYPE_PLISTEN \<and>
    so_logic (sock st' (HASH_ID ident)) = so_logic (sock st i)"
proof -
  define fd where "fd = fst (WSASocket E (WSASetLastError E 0 (os (rest st))))"
  define st2 where "st2 = onos (\<lambda>_. snd (WSASocket E (WSASetLastError E 0 (os (rest st))))) st"
  have 1: "callos (WSASocket E) (onos (WSASetLastError E 0) st) = (fd, st2)"
    by (simp add: callos_def fd_def st2_def comp_def split: prod.splits)
  have fd: "fd \<noteq> INVALID_SOCKET" using q by (simp add: fd_def sys_quiet_def)
  obtain ident j g where c: "so_type (sock st2 (HASH_ID ident)) = SOCKET_TYPE_INVALID"
    "reserve_id st2 = ret (ident, reserved ident (advance j st2))"
    "new_fd E ident (so_logic (sock st i)) fd True (reserved ident (advance j st2)) = ret (Some (HASH_ID ident),
      mod_sock (HASH_ID ident) (\<lambda>s. s\<lparr>so_id := ident, so_fd := fd, so_logic := so_logic (sock st i), so_pending := 1\<rparr>)
        (onos g (reserved ident (advance j st2))))"
    using create_ok [OF q, of st2 k "so_logic (sock st i)" fd] io small f by (auto simp: st2_def)
  have ne: "HASH_ID ident \<noteq> i" using c(1) i by (auto simp: st2_def)
  have l: "sock st2 i = sock st i" by (simp add: st2_def)
  have k: "(WSAGetLastError E (sys_acceptex E fd nfd k (sys_accept_context E nfd fd (WSASetLastError E 0 s))) \<noteq> 0 \<and>
      WSAGetLastError E (sys_acceptex E fd nfd k (sys_accept_context E nfd fd (WSASetLastError E 0 s))) \<noteq> WSA_IO_PENDING) = False" for fd nfd k s
    using q unfolding sys_quiet_def by blast
  have "\<exists>st'. ev_listen_start E i c st = ret (0, st') \<and>
    get_ctx c (sock st' i) = \<lparr>sc_call = Some Call_ev_listen, sc_ready = 1, sc_u = CSock (HASH_ID ident)\<rparr> \<and>
    so_id (sock st' (HASH_ID ident)) = ident \<and> so_type (sock st' (HASH_ID ident)) = SOCKET_TYPE_PLISTEN \<and>
    so_logic (sock st' (HASH_ID ident)) = so_logic (sock st i)"
    using ne by (simp add: ev_listen_start_def 1 fd c l k Let_def last_error_def reset_socket_ctx_def ctx_zero_def)
  then show ?thesis using c(1) by (auto simp: st2_def)
qed

text \<open>
  C38. An accepted connection is lost: the pointer to the socket prepared for it shares its memory with the buffer into
  which \<^verbatim>\<open>AcceptEx\<close> stores the two addresses, so whenever the system completes an accept that was started
  successfully, the handler follows address bytes as a pointer.
\<close>

theorem accept_completion_faults:
  assumes "sys_quiet E" "IO (rest st) \<noteq> None" "unat (ss_alloc_id (rest st)) + MAX_SOCKET < 2 ^ 31"
    "k < MAX_SOCKET" "so_type (sock st k) = SOCKET_TYPE_INVALID" "so_type (sock st i) = SOCKET_TYPE_LISTEN"
  shows "\<exists>st'. ev_listen_start E i c st = ret (0, st') \<and>
    (\<forall>local remote sz. ctx_dispatch E mods i c sz 0 (mod_sock i (map_ctx c (sc_u_update (\<lambda>_. CAddrs local remote))) st') = abort WildPointer)"
proof -
  obtain ident st' where s: "ev_listen_start E i c st = ret (0, st')"
    "get_ctx c (sock st' i) = \<lparr>sc_call = Some Call_ev_listen, sc_ready = 1, sc_u = CSock (HASH_ID ident)\<rparr>"
    using ev_listen_start_ok [OF assms(1-5), of i c] assms(6) by auto
  then show ?thesis by (simp add: ctx_dispatch_def on_ev_listen_def Let_def)
qed

section \<open>A running server\<close>

text \<open>
  A system that grants everything at once, and a server with one logic object, registered under 0, whose poller is
  number 9. The sockets of the table are free, but for those the witnesses put there.
\<close>

definition calm :: "unit winsock" where
  "calm = \<lparr>WSASetLastError = (\<lambda>_ s. s), WSAGetLastError = (\<lambda>_. 0), WSAStartup = (\<lambda>s. s), WSACleanup = (\<lambda>s. s),
     WSAIoctl = (\<lambda>_ _ s. s), WSASocket = (\<lambda>s. (7, s)), closesocket = (\<lambda>_ s. s), inet_addr = (\<lambda>_. 1), sys_reuse = (\<lambda>_ s. (0, s)),
     sys_accept_context = (\<lambda>_ _ s. s), sys_bind = (\<lambda>_ _ _ s. (0, s)), sys_listen = (\<lambda>_ _ s. (0, s)),
     sys_acceptex = (\<lambda>_ _ _ s. s), sys_connectex = (\<lambda>_ _ _ _ s. s), sys_send = (\<lambda>_ _ _ s. s), sys_recv = (\<lambda>_ _ _ s. s),
     sys_cancel = (\<lambda>_ s. s), sys_shutdown = (\<lambda>_ s. s), sys_new_port = (\<lambda>s. (True, s)), sys_join_port = (\<lambda>_ _ _ s. (True, s)),
     sys_post = (\<lambda>s. (0, s)), sys_time = (\<lambda>_. 0), junk_word = (\<lambda>_. 0), junk_bytes = (\<lambda>_ _. 0)\<rparr>"

definition owner0 :: core_logic where
  "owner0 = \<lparr>lg_ref = 1, logic_id = 0, lg_mod = None, lg_inst = 5, lg_call = Some 3, lg_cmd = None, lg_io = 9\<rparr>"

definition server0 :: "u32 \<Rightarrow> (nat \<Rightarrow> socket) \<Rightarrow> (unit, unit) nst" where
  "server0 a slots = \<lparr>st_slot = Some 0 # replicate 63 None, allocid = 1, slot_size = 64, lgcs = [0 \<mapsto> owner0], lg_brk = 1,
     rest = \<lparr>ss_alloc_id = a, ss_slot = slots, IO = Some 8, pollers = [9 \<mapsto> poller_up 1], msgs = Map.empty, sdata = Map.empty,
       bufs = Map.empty, brk = 20, os = ()\<rparr>\<rparr>"

lemma calm_quiet: "sys_quiet calm"
  by (simp add: sys_quiet_def calm_def)

lemma server0_simps [simp]: "sock (server0 a slots) i = slots i" "IO (rest (server0 a slots)) = Some 8"
  "ss_alloc_id (rest (server0 a slots)) = a" "bufs (rest (server0 a slots)) = Map.empty" "brk (rest (server0 a slots)) = 20"
  by (simp_all add: server0_def sock_def)

lemma server0_owned: "owned (server0 a slots) 0 0 owner0 (poller_up 1)"
proof -
  have "store_ok (server0 a slots)"
    by (auto simp: server0_def store_ok_def size_ok_def slot_hash_def ident_of_def owner0_def nth_Cons' split: if_splits intro: exI [of _ 6])
  moreover have "registry (server0 a slots) 0 = Some 0"
    by (simp add: server0_def registry_def slot_hash_def ident_of_def owner0_def)
  ultimately show ?thesis by (simp add: owned_def server0_def owner0_def poller_up_running)
qed

lemma socket_zero_type [simp]: "so_type socket_zero = SOCKET_TYPE_INVALID"
  by (simp add: socket_zero_def)

definition sock0 :: socket where
  "sock0 = socket_zero\<lparr>so_type := SOCKET_TYPE_CONNECTING, so_id := 5, so_pending := 2\<rparr>"

theorem reserve_id_spec_witness:
  "\<exists>j ident. 1 \<le> j \<and> j \<le> MAX_SOCKET \<and> unat ident = j \<and> sint ident > 0 \<and>
     reserve_id (server0 0 (\<lambda>_. socket_zero)) = ret (ident, reserved ident (advance j (server0 0 (\<lambda>_. socket_zero))))"
proof -
  have "0 < MAX_SOCKET" "MAX_SOCKET < 2 ^ 31" by (simp_all add: MAX_SOCKET_def)
  then have "\<exists>i<MAX_SOCKET. so_type (sock (server0 0 (\<lambda>_. socket_zero)) i) = SOCKET_TYPE_INVALID" by auto
  then show ?thesis using reserve_id_spec [of "server0 0 (\<lambda>_. socket_zero)"] \<open>MAX_SOCKET < 2 ^ 31\<close> by (auto simp del: One_nat_def)
qed

theorem reserve_id_wraps_witness: "\<exists>st'. reserve_id (server0 0x7FFFFFFF (\<lambda>_. socket_zero)) = ret (- 1, st')"
  using reserve_id_wraps [of "server0 0x7FFFFFFF (\<lambda>_. socket_zero)"] by auto

theorem report_connect_delivered_witness:
  "report_connect calm [] 0 5 0 (server0 5 (\<lambda>_. sock0)) =
     ret (queued calm 0 owner0 (poller_up 1) \<lparr>sm_type = socketmsg_connect, sm_id = 5, sm_err = 0, sm_listenid = None\<rparr> (server0 5 (\<lambda>_. sock0)))"
  by (rule conjunct1 [OF report_connect_delivered [OF server0_owned, of 3]]) (simp add: owner0_def)

theorem event_connect_spec_witness:
  "event_connect calm [] 5 RD 0 0 (server0 5 (\<lambda>_. sock0)) = abort AssertionFailed \<and>
   (\<exists>st'. event_connect calm [] 5 RD 0 10061 (server0 5 (\<lambda>_. sock0)) = ret st' \<and> so_pending (sock st' 5) = 1)"
proof -
  have o: "owned (server0 5 (\<lambda>_. sock0)) (so_logic (sock (server0 5 (\<lambda>_. sock0)) 5)) 0 owner0 (poller_up 1)"
    using server0_owned [of 5 "\<lambda>_. sock0"] by (simp add: sock0_def socket_zero_def)
  show ?thesis
    using event_connect_spec [OF o, of calm "[]" RD 0 0] event_connect_spec [OF o, of calm "[]" RD 0 10061]
    by (simp add: sock0_def)
qed

theorem start_send_faults_witness:
  "start_send calm 5 \<lparr>cbuf_data = [1, 2], cbuf_size = 2\<rparr> (server0 5 (\<lambda>_. sock0)) = abort NullDeref"
  by (rule start_send_faults [where xs = "[]" and i = 5 and s = sock0])
    (simp_all add: sock0_def socket_zero_def ctx_zero_def corebuffer_init_def queue_of_def HASH_ID_def)

theorem start_close_spec_witness:
  "start_close calm 5 (server0 5 (\<lambda>_. sock0)) =
     ret (0, mod_sock 5 (\<lambda>s. s\<lparr>so_pending := so_pending s - 1, closing := 1\<rparr>) (server0 5 (\<lambda>_. sock0)))"
  using start_close_spec [of "server0 5 (\<lambda>_. sock0)" calm 5]
  by (simp add: sock0_def socket_zero_def HASH_ID_def open_types_def)

theorem stop_socketserver_faults_witness: "stop_socketserver calm (server0 0 (\<lambda>_. socket_zero)) = abort AssertionFailed"
  by (rule stop_socketserver_faults [of _ 0]) (simp_all add: MAX_SOCKET_def)

theorem start_connet_spec_witness:
  "\<exists>ident st'. start_connet calm 0 ''127.0.0.1'' 10000 (server0 0 (\<lambda>_. socket_zero)) = ret (0, Some ident, st') \<and> sint ident > 0"
  using start_connet_spec [OF calm_quiet, of "server0 0 (\<lambda>_. socket_zero)" 0 0 "''127.0.0.1''" 10000]
  by (auto simp: MAX_SOCKET_def)

definition listening :: "nat \<Rightarrow> socket" where
  "listening = (\<lambda>_. socket_zero)(1 := socket_zero\<lparr>so_type := SOCKET_TYPE_LISTEN, so_id := 1, so_pending := 1\<rparr>)"

theorem accept_completion_faults_witness:
  "\<exists>st'. ev_listen_start calm 1 RD (server0 1 listening) = ret (0, st') \<and>
     ctx_dispatch calm [] 1 RD 0 0 (mod_sock 1 (map_ctx RD (sc_u_update (\<lambda>_. CAddrs 1 2))) st') = abort WildPointer"
proof -
  have "so_type (sock (server0 1 listening) 2) = SOCKET_TYPE_INVALID" "so_type (sock (server0 1 listening) 1) = SOCKET_TYPE_LISTEN"
    by (simp_all add: listening_def)
  from accept_completion_faults [OF calm_quiet _ _ _ this, of RD "[]"] show ?thesis by (auto simp: MAX_SOCKET_def)
qed

end
