(* ===== verification/ServerProps.thy ===== *)
theory ServerProps
  imports SocketServer SocketProps
begin

text \<open>
  What the C++ socket server does: fresh identifiers, sends that reach Winsock in order, receives that reach the logic object,
  and which references are given back. Here the server gets further than the C one: established
  connections send and receive; but the handler of a finished connection and the handler of a finished send each keep a
  reference too many, so such a socket is never freed.
\<close>

section \<open>Access lemmas\<close>

lemma slot_upd_sock [simp]: "sv_slot (upd_sock i f st) j = (if i = j then f (sv_slot st j) else sv_slot st j)"
  by (simp add: upd_sock_def)

lemma upd_sock_fields [simp]:
  "sv_rings (upd_sock i f st) = sv_rings st" "sv_os (upd_sock i f st) = sv_os st" "sv_store (upd_sock i f st) = sv_store st"
  "sv_self (upd_sock i f st) = sv_self st" "sv_io (upd_sock i f st) = sv_io st" "sv_brk (upd_sock i f st) = sv_brk st"
  "sv_bodies (upd_sock i f st) = sv_bodies st" "sv_alloc_id (upd_sock i f st) = sv_alloc_id st" "sv_eps (upd_sock i f st) = sv_eps st" "s_server (upd_sock i f st) = s_server st"
  by (simp_all add: upd_sock_def)

lemma svos_fields [simp]:
  "sv_slot (svos f st) = sv_slot st" "sv_rings (svos f st) = sv_rings st" "sv_os (svos f st) = f (sv_os st)"
  "sv_store (svos f st) = sv_store st" "sv_self (svos f st) = sv_self st" "sv_io (svos f st) = sv_io st"
  "sv_brk (svos f st) = sv_brk st" "sv_bodies (svos f st) = sv_bodies st" "sv_alloc_id (svos f st) = sv_alloc_id st"
  "sv_eps (svos f st) = sv_eps st" "s_server (svos f st) = s_server st"
  by (simp_all add: svos_def)

lemma sv_error_simps [simp]: "sv_error E (upd_sock i f st) = sv_error E st" "sv_error E (svos f st) = WSAGetLastError E (f (sv_os st))"
  by (simp_all add: sv_error_def)

lemma get_map_ev [simp]: "get_ev c (map_ev c f s) = f (get_ev c s)"
  by (cases c) simp_all

lemma map_ev_fields [simp]: "cs_id (map_ev c f s) = cs_id s" "cs_logic (map_ev c f s) = cs_logic s" "cs_fd (map_ev c f s) = cs_fd s"
  "cs_type (map_ev c f s) = cs_type s" "cs_pending (map_ev c f s) = cs_pending s" "cs_closing (map_ev c f s) = cs_closing s"
  "cs_wb (map_ev c f s) = cs_wb s" "cs_rb (map_ev c f s) = cs_rb s" "cs_opt (map_ev c f s) = cs_opt s"
  by (cases c; simp)+

section \<open>Reports\<close>

text \<open>
  \<open>hears st lgc a\<close>: the number \<open>lgc\<close> belongs to the logic object at \<open>a\<close>, which is not the server, and the poller runs.
  \<open>posts_ok\<close>: the system accepts packets.
\<close>

definition hears :: "'o srv \<Rightarrow> u32 \<Rightarrow> nat \<Rightarrow> bool" where
  "hears st lgc a \<longleftrightarrow> (\<exists>l. ls_objs (sv_store st) (sv_self st) = Some l \<and> cl_id l \<noteq> lgc) \<and>
     ls_grub (sv_store st) lgc = ret (Some a) \<and> cp_thr (sv_io st) \<noteq> 0"

definition posts_ok :: "('o, 'e) winsock_scheme \<Rightarrow> bool" where
  "posts_ok E \<longleftrightarrow> (\<forall>s. fst (sys_post E s) = 0)"

definition posted :: "('o, 'e) winsock_scheme \<Rightarrow> nat \<Rightarrow> logic_body option \<Rightarrow> 'o srv \<Rightarrow> 'o srv" where
  "posted E a ev st = st\<lparr>sv_brk := sv_brk st + 1, sv_bodies := (sv_bodies st)(sv_brk st := ev), sv_os := snd (sys_post E (sv_os st)),
     sv_io := (sv_io st)\<lparr>port := port (sv_io st) @ [Msg a (sv_brk st) 0 0]\<rparr>\<rparr>"

lemma posted_fields [simp]:
  "sv_slot (posted E a ev st) = sv_slot st" "sv_rings (posted E a ev st) = sv_rings st" "sv_store (posted E a ev st) = sv_store st"
  "sv_self (posted E a ev st) = sv_self st" "sv_brk (posted E a ev st) = sv_brk st + 1" "sv_os (posted E a ev st) = snd (sys_post E (sv_os st))"
  "sv_bodies (posted E a ev st) = (sv_bodies st)(sv_brk st := ev)" "port (sv_io (posted E a ev st)) = port (sv_io st) @ [Msg a (sv_brk st) 0 0]"
  by (simp_all add: posted_def)

lemma hears_posted [simp]: "hears (posted E a ev st) lgc b = hears st lgc b"
  by (simp add: hears_def posted_def)

lemma hears_frame [simp]: "hears (upd_sock i f st) lgc a = hears st lgc a" "hears (svos g st) lgc a = hears st lgc a"
  "hears (st\<lparr>sv_rings := h\<rparr>) lgc a = hears st lgc a" "hears (st\<lparr>sv_brk := n\<rparr>) lgc a = hears st lgc a"
  by (simp_all add: hears_def)

lemma post2logic_ok:
  assumes h: "hears st lgc a" and p: "posts_ok E"
  shows "post2logic E lgc ev st = ret (True, posted E a ev st)"
proof -
  obtain l where l: "ls_objs (sv_store st) (sv_self st) = Some l" "cl_id l \<noteq> lgc" using h by (auto simp: hears_def)
  have g: "ls_grub (sv_store st) lgc = ret (Some a)" "cp_thr (sv_io st) \<noteq> 0" using h by (auto simp: hears_def)
  have "fst (sys_post E (sv_os st)) = 0" using p by (simp add: posts_ok_def)
  then obtain s where s: "sys_post E (sv_os st) = (0, s)" by (cases "sys_post E (sv_os st)") simp
  have "lgc \<noteq> cl_id l" using l(2) by simp
  then show ?thesis using l(1) g s
    by (simp add: post2logic_def logic_post_def cl_load_def sv_io_post_def svcall_def iocp_post_def posted_def Let_def)
qed

lemmas report_defs = sv_report_accept_def sv_report_connect_def sv_report_socketerr_def sv_report_recv_def

section \<open>Receiving\<close>

text \<open>\<open>recv_ok\<close>: Winsock takes the request for a receive. \<open>os_stores data\<close>: the system stores bytes at the start of a fresh ring.\<close>

definition recv_ok :: "('o, 'e) winsock_scheme \<Rightarrow> bool" where
  "recv_ok E \<longleftrightarrow> (\<forall>fd len op s. WSAGetLastError E (sys_recv E fd len op s) \<in> {0, WSA_IO_PENDING})"

definition os_stores :: "bytes \<Rightarrow> ring_buffer \<Rightarrow> ring_buffer" where
  "os_stores data r = r\<lparr>rb_buffer := data @ drop (length data) (rb_buffer r)\<rparr>"

definition fresh_blocks :: "'o srv \<Rightarrow> bool" where
  "fresh_blocks st \<longleftrightarrow> (\<forall>x\<ge>sv_brk st. sv_rings st x = None)"

lemma rb_default_fields [simp]: "rb_size (rb_default junk) = 128" "rb_in (rb_default junk) = 0" "rb_out (rb_default junk) = 0"
  "rb_next (rb_default junk) = None" "length (rb_buffer (rb_default junk)) = 128" "rb_writebuffer (rb_default junk) = Some (0, 127)"
  by (simp_all add: rb_default_def rb_init_def rb_blank_def rb_writebuffer_def Let_def)

text \<open>A receive under way: a fresh ring of which Winsock was given 127 bytes.\<close>

definition armed :: "('o, 'e) winsock_scheme \<Rightarrow> nat \<Rightarrow> 'o srv \<Rightarrow> 'o srv" where
  "armed E i st = svos (\<lambda>s. sys_recv E (cs_fd (sv_slot st i)) 127 (op_of i RD) (WSASetLastError E 0 s))
     (upd_sock i (map_ev RD (\<lambda>x. x\<lparr>ie_call := Some Call_ev_recv, ie_ready := 1, ie_b := Some (sv_brk st)\<rparr>))
       (st\<lparr>sv_brk := sv_brk st + 1, sv_rings := (sv_rings st)(sv_brk st \<mapsto> rb_default (junk_bytes E (sv_os st)))\<rparr>))"

lemma recv_start_ok:
  assumes "recv_ok E" "ie_ready (cs_read (sv_slot st i)) = 0" "ie_b (cs_read (sv_slot st i)) = None"
  shows "sv_recv_start E i st = ret (0, armed E i st)"
proof -
  let ?e = "WSAGetLastError E (sys_recv E (cs_fd (sv_slot st i)) 127 (2 * i) (WSASetLastError E 0 (sv_os st)))"
  have "?e = 0 \<or> ?e = 997" using assms(1) by (auto simp: recv_ok_def)
  then show ?thesis using assms(2,3)
    by (elim disjE; simp add: sv_recv_start_def Let_def armed_def sv_error_def; simp add: upd_sock_def svos_def)
qed

lemma armed_fields [simp]:
  "sv_io (armed E i st) = sv_io st" "sv_bodies (armed E i st) = sv_bodies st" "sv_brk (armed E i st) = sv_brk st + 1"
  "sv_rings (armed E i st) = (sv_rings st)(sv_brk st \<mapsto> rb_default (junk_bytes E (sv_os st)))"
  "sv_slot (armed E i st) j = (if i = j then map_ev RD (\<lambda>x. x\<lparr>ie_call := Some Call_ev_recv, ie_ready := 1, ie_b := Some (sv_brk st)\<rparr>) (sv_slot st j)
     else sv_slot st j)"
  "hears (armed E i st) lgc b = hears st lgc b"
  by (simp_all add: armed_def hears_def)

text \<open>The ring that the first \<open>sz\<close> bytes of the system make readable.\<close>

lemma os_stores_buffered:
  assumes "length data \<le> 127"
  shows "buffered (node_of ((os_stores data (rb_default junk))\<lparr>rb_in := of_nat (length data)\<rparr>)) = data"
proof -
  have u: "unat (of_nat (length data) :: u32) = length data" using assms by (simp add: unat_of_nat)
  have "(data @ drop (length data) (rb_buffer (rb_default junk))) ! (k mod 128) = data ! k" if "k < length data" for k
    using that assms by (simp add: nth_append)
  then show ?thesis using u by (intro nth_equalityI) (simp_all add: buffered_def node_of_def os_stores_def)
qed

lemma received_ok:
  assumes len: "0 < length data" "length data \<le> 127" and h: "hears st (cs_logic (sv_slot st i)) b" and E: "posts_ok E" "recv_ok E"
    and ctx: "ie_b (cs_read (sv_slot st i)) = Some a" "sv_rings st a = Some (os_stores data (rb_default junk))" "a < sv_brk st"
    and rb: "cs_rb (sv_slot st i) = bh_new" and proto: "protocols E (cs_opt (sv_slot st i)) = default_protocol"
    and refs: "cs_pending (sv_slot st i) \<noteq> 1"
  defines "r \<equiv> (os_stores data (rb_default junk))\<lparr>rb_in := of_nat (length data)\<rparr>"
  defines "st1 \<equiv> posted E b (Some (LRecv (cs_id (sv_slot st i)) (Some a)))
    (upd_sock i (\<lambda>s. map_ev RD (ie_b_update (\<lambda>_. None)) (s\<lparr>cs_r_byte := cs_r_byte s + of_nat (length data)\<rparr>))
      (st\<lparr>sv_rings := (sv_rings st)(a \<mapsto> r)\<rparr>))"
  shows "sv_on_recv E i RD (of_nat (length data)) 0 st = ret (armed E i (upd_sock i (map_ev RD (ie_ready_update (\<lambda>_. 0))) st1))"
proof -
  let ?sz = "of_nat (length data) :: u32"
  have u: "unat ?sz = length data" using len by (simp add: unat_of_nat)
  then have sz: "?sz > 0" "?sz \<le> 128" using len by (simp_all add: word_less_nat_alt word_le_nat_alt)
  have w: "rb_write_ok (os_stores data (rb_default junk)) ?sz = ret (True, r)"
    using sz by (simp add: rb_write_ok_def r_def os_stores_def)
  have "rb_next r = None" by (simp add: r_def os_stores_def)
  then have "sv_on_recv E i RD ?sz 0 st = ret (upd_sock i (cs_pending_update (\<lambda>p. p - 1)) (armed E i
      (upd_sock i (cs_pending_update (\<lambda>p. p + 1)) (upd_sock i (map_ev RD (ie_ready_update (\<lambda>_. 0)))
        (posted E b (Some (LRecv (cs_id (sv_slot st i)) (Some a))) (upd_sock i (cs_rb_update (\<lambda>_. bh_new))
          (upd_sock i (map_ev RD (ie_b_update (\<lambda>_. None))) (upd_sock i (\<lambda>s. s\<lparr>cs_rb := \<lparr>bh_head = Some a, bh_tail = Some a\<rparr>,
             cs_r_byte := cs_r_byte s + ?sz\<rparr>) (st\<lparr>sv_rings := (sv_rings st)(a \<mapsto> r)\<rparr>))\<lparr>sv_rings := (sv_rings st)(a \<mapsto> r)\<rparr>)))))))"
    using sz w ctx rb proto h refs post2logic_ok [OF _ E(1)] recv_start_ok [OF E(2)]
    by (simp add: sv_on_recv_def Let_def rb_at_def push_back_def bh_new_def default_protocol_def pop_front_def report_defs)
  also have "\<dots> = ret (armed E i (upd_sock i (map_ev RD (ie_ready_update (\<lambda>_. 0))) st1))"
    using rb by (cases "sv_slot st i") (simp add: st1_def armed_def posted_def upd_sock_def svos_def bh_new_def)
  finally show ?thesis .
qed

section \<open>Rings that are filled once\<close>

text \<open>
  A ring that was filled with one piece of data and is read from the front never wraps: \<open>block r bs\<close> says that \<open>bs\<close> is what is left in it.
  This holds for every length, also for those that are no power of two.
\<close>

definition block :: "ring_buffer \<Rightarrow> bytes \<Rightarrow> bool" where
  "block r bs \<longleftrightarrow> rb_size r > 0 \<and> rb_out r \<le> rb_in r \<and> rb_in r \<le> rb_size r \<and> length (rb_buffer r) = unat (rb_size r) \<and>
     bs = take (unat (rb_in r) - unat (rb_out r)) (drop (unat (rb_out r)) (rb_buffer r))"

lemma block_length: "block r bs \<Longrightarrow> length bs = unat (rb_in r) - unat (rb_out r)"
  by (auto simp: block_def word_le_nat_alt)

lemma block_next [simp]: "block (r\<lparr>rb_next := x\<rparr>) bs = block r bs"
  by (simp add: block_def)

lemma rb_init_size:
  assumes "0 < n" "n < 2 ^ 31" and r_def: "r = rb_init junk (of_nat n) rb_blank"
  shows "n \<le> unat (rb_size r)" "rb_in r = 0" "rb_out r = 0" "length (rb_buffer r) = unat (rb_size r)" "rb_next r = None" "rb_size r > 0"
proof -
  let ?sz = "of_nat n :: u32"
  have u: "unat ?sz = n" using assms(2) by (simp add: unat_of_nat)
  have "unat (push_bit 1 (drop_bit 1 ?sz + 1)) = 2 * (n div 2 + 1)"
  proof -
    have "unat (drop_bit 1 ?sz) = n div 2" using u by (simp add: drop_bit_eq_div unat_div)
    then have x: "unat (drop_bit 1 ?sz + 1) = n div 2 + 1" using assms(2) by (simp add: unat_word_ariths)
    have "unat (push_bit 1 y) = 2 * unat y" if "unat y \<le> 2 ^ 30" for y :: u32
      using that by (simp add: push_bit_eq_mult unat_word_ariths)
    moreover have "n div 2 + 1 \<le> 2 ^ 30" using assms(2) by simp
    ultimately show ?thesis unfolding x [symmetric] by blast
  qed
  moreover define sz where "sz = (if ?sz \<noteq> 0 \<and> ?sz AND (?sz - 1) \<noteq> 0 then push_bit 1 (drop_bit 1 ?sz + 1) else ?sz)"
  ultimately have sz: "n \<le> unat sz" using u by auto
  then have pos: "sz > 0" using assms(1) by (simp add: word_less_nat_alt)
  then have r: "r = \<lparr>rb_next = None, rb_buffer = map junk [0..<unat sz], rb_size = sz, rb_out = 0, rb_in = 0\<rparr>"
    by (simp add: r_def rb_init_def rb_blank_def sz_def [symmetric] Let_def)
  show "n \<le> unat (rb_size r)" "rb_in r = 0" "rb_out r = 0" "length (rb_buffer r) = unat (rb_size r)" "rb_next r = None" "rb_size r > 0"
    using sz pos by (simp_all add: r)
qed

lemma rb_from_block:
  assumes "data \<noteq> []" "length data < 2 ^ 31"
  shows "\<exists>r. rb_from junk data (of_nat (length data)) = ret r \<and> block r data \<and> rb_next r = None"
proof -
  let ?n = "length data" and ?sz = "of_nat (length data) :: u32"
  define r where "r = rb_init junk ?sz rb_blank"
  have n: "0 < ?n" using assms(1) by simp
  note i = rb_init_size [OF n assms(2) r_def]
  have u: "unat ?sz = ?n" using assms(2) by (simp add: unat_of_nat)
  have le: "?sz \<le> rb_size r" "?sz > 0" using i(1) u n by (simp_all add: word_le_nat_alt word_less_nat_alt)
  have "rb_write r data ?sz = ret (True, r\<lparr>rb_buffer := data @ drop ?n (rb_buffer r), rb_in := ?sz\<rparr>)"
    using i le u by (auto simp: rb_write_def Let_def MIN_sz_def memcpy_def not_less)
  then show ?thesis
    using i le u by (simp add: rb_from_def r_def [symmetric] Let_def block_def)
qed

lemma word_mod_small: "x < y \<Longrightarrow> x mod y = x" for x y :: u32
proof -
  assume "x < y"
  then have "unat (x mod y) = unat x" by (simp add: unat_mod word_less_nat_alt)
  then show ?thesis by (simp only: word_unat_eq_iff)
qed

lemma block_readbuffer:
  assumes b: "block r bs" and ne: "bs \<noteq> []"
  shows "\<exists>len. rb_readbuffer r = Some (rb_out r, len) \<and> take (unat len) (drop (unat (rb_out r)) (rb_buffer r)) = bs \<and> unat len = length bs"
proof -
  have B: "rb_size r > 0" "unat (rb_out r) \<le> unat (rb_in r)" "unat (rb_in r) \<le> unat (rb_size r)" "length (rb_buffer r) = unat (rb_size r)"
    using b by (simp_all add: block_def word_le_nat_alt)
  have lt: "unat (rb_out r) < unat (rb_in r)" using block_length [OF b] ne by (cases bs) auto
  then have "rb_out r < rb_size r" "rb_in r - rb_out r \<noteq> 0" using B(3) by (auto simp: word_less_nat_alt)
  then have rp: "rb_out r mod rb_size r = rb_out r" by (simp add: word_mod_small)
  show ?thesis
  proof (cases "rb_in r = rb_size r")
    case True
    then have "rb_readbuffer r = Some (rb_out r, rb_size r - rb_out r)"
      using rp \<open>rb_in r - rb_out r \<noteq> 0\<close> by (simp add: rb_readbuffer_def Let_def)
    moreover have "unat (rb_size r - rb_out r) = unat (rb_in r) - unat (rb_out r)"
      using True \<open>rb_out r < rb_size r\<close> by (simp add: unat_sub less_imp_le)
    ultimately show ?thesis using b block_length [OF b] by (simp add: block_def)
  next
    case False
    then have "rb_in r < rb_size r" using B(3) by (metis word_le_nat_alt le_neq_trans)
    then have wp: "rb_in r mod rb_size r = rb_in r" by (rule word_mod_small)
    have "rb_out r < rb_in r" using lt by (simp add: word_less_nat_alt)
    then have "rb_readbuffer r = Some (rb_out r, rb_in r - rb_out r)"
      using rp wp \<open>rb_in r - rb_out r \<noteq> 0\<close> by (simp add: rb_readbuffer_def Let_def)
    moreover have "unat (rb_in r - rb_out r) = unat (rb_in r) - unat (rb_out r)"
      using \<open>rb_out r < rb_in r\<close> by (simp add: unat_sub less_imp_le)
    ultimately show ?thesis using b block_length [OF b] by (simp add: block_def)
  qed
qed

lemma block_read_ok:
  assumes b: "block r bs" and k: "k \<le> length bs"
  defines "r' \<equiv> r\<lparr>rb_out := rb_out r + of_nat k\<rparr>"
  shows "rb_read_ok r (of_nat k) = ret (True, r')" "block r' (drop k bs)" "rb_empty r' \<longleftrightarrow> drop k bs = []"
proof -
  have B: "unat (rb_out r) \<le> unat (rb_in r)" "unat (rb_in r) \<le> unat (rb_size r)" using b by (simp_all add: block_def word_le_nat_alt)
  note len = block_length [OF b]
  have in32: "unat (rb_in r) < 2 ^ 32" by (rule order_less_le_trans [OF unsigned_less]) simp
  then have "k < 2 ^ 32" using k len by simp
  then have u: "unat (of_nat k :: u32) = k" by (simp add: unat_of_nat)
  have d: "unat (rb_in r - rb_out r) = length bs" using B(1) len by (simp add: unat_sub word_le_nat_alt)
  then show "rb_read_ok r (of_nat k) = ret (True, r')" using k u by (simp add: rb_read_ok_def r'_def word_le_nat_alt)
  have out: "unat (rb_out r + of_nat k) = unat (rb_out r) + k"
    using u k len B in32 by (simp add: unat_word_ariths)
  then show blk: "block r' (drop k bs)" using b k len B
    by (auto simp: block_def r'_def word_le_nat_alt drop_take add.commute)
  have "rb_empty r' \<longleftrightarrow> rb_in r = rb_out r + of_nat k" by (simp add: rb_empty_def r'_def)
  also have "\<dots> \<longleftrightarrow> unat (rb_in r) = unat (rb_out r) + k" using out by (simp add: word_unat_eq_iff)
  finally have "rb_empty r' \<longleftrightarrow> unat (rb_in r) = unat (rb_out r) + k" .
  then show "rb_empty r' \<longleftrightarrow> drop k bs = []" using k len B(1) by auto
qed

section \<open>Sending\<close>

text \<open>
  \<open>blocks h ps bl\<close>: the rings \<open>ps\<close> hold the non-empty pieces \<open>bl\<close>. \<open>sendq st i bl\<close>: \<open>bl\<close> is what socket \<open>i\<close> has still to send, piece by
  piece; the first piece is with Winsock, the others wait in the write queue.
\<close>

definition blocks :: "rheap \<Rightarrow> nat list \<Rightarrow> bytes list \<Rightarrow> bool" where
  "blocks h = list_all2 (\<lambda>x b. b \<noteq> [] \<and> (\<exists>r. h x = Some r \<and> block r b))"

definition sendq :: "'o srv \<Rightarrow> nat \<Rightarrow> bytes list \<Rightarrow> bool" where
  "sendq st i bl \<longleftrightarrow> (\<exists>xs. rqueue (sv_rings st) (cs_wb (sv_slot st i)) xs \<and>
     (case ie_b (cs_write (sv_slot st i)) of
        None \<Rightarrow> xs = [] \<and> bl = [] \<and> ie_ready (cs_write (sv_slot st i)) = 0
      | Some a \<Rightarrow> a \<notin> set xs \<and> blocks (sv_rings st) (a # xs) bl \<and> ie_ready (cs_write (sv_slot st i)) \<noteq> 0 \<and>
          ie_call (cs_write (sv_slot st i)) = Some Call_ev_send))"

definition send_ok :: "('o, 'e) winsock_scheme \<Rightarrow> bool" where
  "send_ok E \<longleftrightarrow> (\<forall>fd bs op s. WSAGetLastError E (sys_send E fd bs op s) \<in> {0, WSA_IO_PENDING})"

text \<open>The state in which the ring \<open>a\<close> with the piece \<open>b\<close> was handed to Winsock.\<close>

definition handed :: "('o, 'e) winsock_scheme \<Rightarrow> nat \<Rightarrow> bytes \<Rightarrow> 'o srv \<Rightarrow> 'o srv" where
  "handed E i b st = svos (\<lambda>s. sys_send E (cs_fd (sv_slot st i)) b (op_of i WR) (WSASetLastError E 0 s)) st"

lemma send_take_held:
  "ie_b (cs_write (sv_slot st i)) = Some a \<Longrightarrow> send_take i st = ret (True, st)"
  by (subst send_take.simps) simp

lemma send_take_next:
  assumes "ie_b (cs_write (sv_slot st i)) = None" "rqueue (sv_rings st) (cs_wb (sv_slot st i)) (x # xs)"
  shows "\<exists>wb. send_take i st = ret (True, upd_sock i (\<lambda>s. map_ev WR (ie_b_update (\<lambda>_. Some x)) (s\<lparr>cs_wb := wb\<rparr>)) st) \<and>
    rqueue (sv_rings st) wb xs"
proof -
  obtain wb where wb: "pop_front (sv_rings st) (cs_wb (sv_slot st i)) = ret (Some x, wb)" "rqueue (sv_rings st) wb xs"
    using pop_front_rqueue [OF assms(2)] by auto
  have "send_take i st = ret (True, upd_sock i (\<lambda>s. map_ev WR (ie_b_update (\<lambda>_. Some x)) (s\<lparr>cs_wb := wb\<rparr>)) st)"
    using assms(1) wb(1) by (subst send_take.simps) (simp add: Let_def, simp add: upd_sock_def)
  then show ?thesis using wb(2) by blast
qed

lemma send_take_none:
  assumes "ie_b (cs_write (sv_slot st i)) = None" "rqueue (sv_rings st) (cs_wb (sv_slot st i)) []"
    "ie_ready (cs_write (sv_slot st i)) = 1"
  shows "\<exists>wb. send_take i st = ret (False, upd_sock i (\<lambda>s. map_ev WR (ie_ready_update (\<lambda>_. 0)) (s\<lparr>cs_wb := wb\<rparr>)) st) \<and>
    rqueue (sv_rings st) wb []"
proof -
  obtain wb where wb: "pop_front (sv_rings st) (cs_wb (sv_slot st i)) = ret (None, wb)" "rqueue (sv_rings st) wb []"
    using pop_front_rqueue [OF assms(2)] by auto
  have "send_take i st = ret (False, upd_sock i (\<lambda>s. map_ev WR (ie_ready_update (\<lambda>_. 0)) (s\<lparr>cs_wb := wb\<rparr>)) st)"
    using assms(1,3) wb(1)
    by (subst send_take.simps) (simp add: Let_def, cases "cs_write (sv_slot st i)", simp add: upd_sock_def)
  then show ?thesis using wb(2) by blast
qed

text \<open>What the operations on one socket leave alone.\<close>

definition keeps_sock :: "nat \<Rightarrow> 'o srv \<Rightarrow> 'o srv \<Rightarrow> bool" where
  "keeps_sock i st st' \<longleftrightarrow> (\<forall>j. j \<noteq> i \<longrightarrow> sv_slot st' j = sv_slot st j) \<and> cs_id (sv_slot st' i) = cs_id (sv_slot st i) \<and>
     cs_type (sv_slot st' i) = cs_type (sv_slot st i) \<and> cs_fd (sv_slot st' i) = cs_fd (sv_slot st i) \<and>
     cs_read (sv_slot st' i) = cs_read (sv_slot st i) \<and> sv_bodies st' = sv_bodies st"

definition send_front :: "('o, 'e) cpp_env_scheme \<Rightarrow> nat \<Rightarrow> bool \<times> 'o srv \<Rightarrow> (u32 \<times> 'o srv) prog" where
  "send_front E i = (\<lambda>(ok, st). if \<not> ok then ret (FRAME_BUFF_EMPTY, st)
     else bnd (rb_at (sv_rings st) (ie_b (cs_write (sv_slot st i)))) (\<lambda>b.
       case rb_readbuffer b of None \<Rightarrow> abort AssertionFailed
       | Some (off, len) \<Rightarrow>
         let st = svos (WSASetLastError E 0) st;
             st = svos (sys_send E (cs_fd (sv_slot st i)) (take (unat len) (drop (unat off) (rb_buffer b))) (op_of i WR)) st;
             err = sv_error E st in
         if err \<noteq> 0 \<and> err \<noteq> WSA_IO_PENDING then
           bnd (sv_report_socketerr E (cs_logic (sv_slot st i)) (cs_id (sv_slot st i)) err st) (\<lambda>(_, st). ret (err, st))
         else ret (0, st)))"

lemma send_front_ok:
  assumes E: "send_ok E" and a: "ie_b (cs_write (sv_slot st i)) = Some a" "sv_rings st a = Some r" "block r b" "b \<noteq> []"
  shows "send_front E i (True, st) = ret (0, handed E i b st)"
proof -
  obtain len where len: "rb_readbuffer r = Some (rb_out r, len)" "take (unat len) (drop (unat (rb_out r)) (rb_buffer r)) = b"
    using block_readbuffer [OF a(3,4)] by blast
  let ?e = "WSAGetLastError E (sys_send E (cs_fd (sv_slot st i)) b (op_of i WR) (WSASetLastError E 0 (sv_os st)))"
  have e: "?e = 0 \<or> ?e = 997" using E by (simp add: send_ok_def)
  have "send_front E i (True, st) = (let st = svos (WSASetLastError E 0) st;
      st = svos (sys_send E (cs_fd (sv_slot st i)) b (op_of i WR)) st; err = sv_error E st in
      if err \<noteq> 0 \<and> err \<noteq> WSA_IO_PENDING then
        bnd (sv_report_socketerr E (cs_logic (sv_slot st i)) (cs_id (sv_slot st i)) err st) (\<lambda>(_, st). ret (err, st))
      else ret (0, st))"
    using a len by (simp add: send_front_def Let_def)
  also have "\<dots> = ret (0, handed E i b st)"
    using e by (elim disjE) (simp_all add: Let_def handed_def svos_def sv_error_def)
  finally show ?thesis .
qed

text \<open>A socket that holds its front piece and waits for Winsock: the piece is handed over, and the queue is what it was.\<close>

lemma send_front_queue:
  assumes E: "send_ok E" and c: "cs_write (sv_slot st i) = w\<lparr>ie_call := Some Call_ev_send, ie_ready := 1, ie_b := Some a\<rparr>"
    and q: "rqueue (sv_rings st) (cs_wb (sv_slot st i)) xs" "a \<notin> set xs" "blocks (sv_rings st) (a # xs) (b # bl)"
  shows "send_front E i (True, st) = ret (0, handed E i b st) \<and> sendq (handed E i b st) i (b # bl)"
proof -
  obtain r where r: "sv_rings st a = Some r" "block r b" "b \<noteq> []" using q(3) by (auto simp: blocks_def)
  then have "send_front E i (True, st) = ret (0, handed E i b st)" using c by (intro send_front_ok [OF E, of _ _ a r]) simp_all
  then show ?thesis using c q by (auto simp: sendq_def handed_def)
qed

lemma send_start_spec:
  assumes E: "send_ok E" and ready: "ie_ready (cs_write (sv_slot st i)) = 0"
    and q: "rqueue (sv_rings st) (cs_wb (sv_slot st i)) xs"
    and ps: "ps = (case ie_b (cs_write (sv_slot st i)) of None \<Rightarrow> xs | Some a \<Rightarrow> a # xs)" "distinct ps" "blocks (sv_rings st) ps bl"
  shows "\<exists>e st'. sv_send_start E i st = ret (e, st') \<and> e \<in> {0, FRAME_BUFF_EMPTY} \<and> sendq st' i bl \<and> keeps_sock i st st' \<and>
    cs_pending (sv_slot st' i) = cs_pending (sv_slot st i) \<and> sv_rings st' = sv_rings st \<and> sv_brk st' = sv_brk st \<and>
    ie_ready (cs_write (sv_slot st' i)) \<le> 1 \<and>
    sv_os st' = (case bl of [] \<Rightarrow> sv_os st | b # _ \<Rightarrow> sys_send E (cs_fd (sv_slot st i)) b (op_of i WR) (WSASetLastError E 0 (sv_os st)))"
proof -
  let ?st0 = "upd_sock i (map_ev WR (\<lambda>x. x\<lparr>ie_call := Some Call_ev_send, ie_ready := 1\<rparr>)) st"
  have start: "upd_sock i (map_ev WR (ie_ready_update (\<lambda>r. 1))) (upd_sock i (map_ev WR (ie_call_update (\<lambda>_. Some Call_ev_send))) st) = ?st0"
    by (simp add: upd_sock_def)
  have go: "sv_send_start E i st = bnd (send_take i ?st0) (send_front E i)"
    using ready by (simp add: sv_send_start_def send_front_def Let_def start)
  show ?thesis
  proof (cases bl)
    case Nil
    then have none: "ps = []" "ie_b (cs_write (sv_slot st i)) = None" "xs = []"
      using ps by (auto simp: blocks_def split: option.splits)
    obtain wb where wb: "send_take i ?st0 = ret (False, upd_sock i (\<lambda>s. map_ev WR (ie_ready_update (\<lambda>_. 0)) (s\<lparr>cs_wb := wb\<rparr>)) ?st0)"
      "rqueue (sv_rings ?st0) wb []" using send_take_none [of ?st0 i] none q by auto
    then show ?thesis using none Nil
      by (simp add: go send_front_def) (simp add: sendq_def keeps_sock_def)
  next
    case (Cons b bl')
    then obtain a ps' where ps': "ps = a # ps'" "b \<noteq> []" "a \<notin> set ps'" using ps(2,3) by (cases ps) (auto simp: blocks_def)
    show ?thesis
    proof (cases "ie_b (cs_write (sv_slot st i))")
      case None
      then have xs: "xs = a # ps'" using ps ps' by simp
      obtain wb where wb: "send_take i ?st0 = ret (True, upd_sock i (\<lambda>s. map_ev WR (ie_b_update (\<lambda>_. Some a)) (s\<lparr>cs_wb := wb\<rparr>)) ?st0)"
        "rqueue (sv_rings ?st0) wb ps'" using send_take_next [of ?st0 i a ps'] None q xs by auto
      let ?st1 = "upd_sock i (\<lambda>s. map_ev WR (ie_b_update (\<lambda>_. Some a)) (s\<lparr>cs_wb := wb\<rparr>)) ?st0"
      have "send_front E i (True, ?st1) = ret (0, handed E i b ?st1) \<and> sendq (handed E i b ?st1) i bl"
        using send_front_queue [OF E, where st = ?st1 and i = i and w = "cs_write (sv_slot st i)" and a = a and xs = ps' and b = b and bl = bl'] wb(2) ps' ps(3) Cons by simp
      then show ?thesis using go wb(1) Cons by (simp add: handed_def keeps_sock_def)
    next
      case (Some a')
      then have xs: "a' = a" "xs = ps'" using ps ps' by simp_all
      have w: "cs_write (sv_slot ?st0 i) = (cs_write (sv_slot st i))\<lparr>ie_call := Some Call_ev_send, ie_ready := 1, ie_b := Some a\<rparr>"
        using Some xs by (cases "cs_write (sv_slot st i)") simp
      have "send_front E i (True, ?st0) = ret (0, handed E i b ?st0) \<and> sendq (handed E i b ?st0) i bl"
        using send_front_queue [OF E w, of ps' b bl'] q xs ps' ps(3) Cons by simp
      then show ?thesis using go Some xs send_take_held [of ?st0 i a] Cons by (simp add: handed_def keeps_sock_def)
    qed
  qed
qed

lemma push_back_rings:
  assumes "push_back h b p = ret (h', b')"
  shows "h' x = h x \<or> (\<exists>r v. h x = Some r \<and> h' x = Some (r\<lparr>rb_next := v\<rparr>))"
proof (cases "bh_head b = None")
  case False
  then obtain r where "h (the (bh_tail b)) = Some r" "h' = h(the (bh_tail b) \<mapsto> r\<lparr>rb_next := Some p\<rparr>)"
    using assms by (auto simp: push_back_def set_rb_next_def rb_at_def bnd_def ret_def abort_def split: option.splits sum.splits)
  then show ?thesis by auto
qed (use assms in \<open>simp add: push_back_def\<close>)

lemma blocks_mono:
  assumes "blocks h ps bl" and "\<And>x r. x \<in> set ps \<Longrightarrow> h x = Some r \<Longrightarrow> \<exists>v. h' x = Some (r\<lparr>rb_next := v\<rparr>)"
  shows "blocks h' ps bl"
  unfolding blocks_def
proof (rule list.rel_mono_strong [OF assms(1) [unfolded blocks_def]])
  fix x b assume x: "x \<in> set ps" and "b \<noteq> [] \<and> (\<exists>r. h x = Some r \<and> block r b)"
  then obtain r where r: "b \<noteq> []" "h x = Some r" "block r b" by blast
  with assms(2) [OF x r(2)] show "b \<noteq> [] \<and> (\<exists>r. h' x = Some r \<and> block r b)" by auto
qed

lemma blocks_alloc: "blocks h ps bl \<Longrightarrow> x \<in> set ps \<Longrightarrow> h x \<noteq> None"
  by (auto simp: blocks_def list_all2_conv_all_nth in_set_conv_nth)

lemma enqueue_block:
  assumes q: "rqueue h wb xs" and b: "blocks h ps bl" and sub: "set xs \<subseteq> set ps" and free: "\<forall>x\<ge>a. h x = None"
    and r: "block r data" "data \<noteq> []" "rb_next r = None"
  shows "\<exists>h' wb'. push_back (h(a \<mapsto> r)) wb a = ret (h', wb') \<and> rqueue h' wb' (xs @ [a]) \<and> blocks h' (ps @ [a]) (bl @ [data]) \<and>
    a \<notin> set ps \<and> (\<forall>x\<ge>a + 1. h' x = None)"
proof -
  have "h a = None" using free by simp
  then have a: "a \<notin> set ps" using blocks_alloc [OF b, of a] by fast
  then have "a \<notin> set xs" using sub by auto
  then have "rqueue (h(a \<mapsto> r)) wb xs" using q by (simp add: rqueue_def)
  from push_back_rqueue [OF this, of a r] r(3) \<open>a \<notin> set xs\<close> obtain h' wb' where
    h': "push_back (h(a \<mapsto> r)) wb a = ret (h', wb')" "rqueue h' wb' (xs @ [a])" by auto
  note keep = push_back_rings [OF h'(1)]
  have same: "\<exists>v. h' x = Some (r'\<lparr>rb_next := v\<rparr>)" if "(h(a \<mapsto> r)) x = Some r'" for x r'
  proof -
    have "r' = r'\<lparr>rb_next := rb_next r'\<rparr>" by simp
    then show ?thesis using keep [of x] that by (metis option.inject)
  qed
  have "blocks h' ps bl"
    by (rule blocks_mono [OF b], rule same) (use a in auto)
  moreover have "\<exists>r'. h' a = Some r' \<and> block r' data" using same [of a r] r(1) by auto
  ultimately have "blocks h' (ps @ [a]) (bl @ [data])" using r(2) by (simp add: blocks_def list_all2_appendI)
  moreover have "h' x = None" if "x \<ge> a + 1" for x using keep [of x] free that by auto
  ultimately show ?thesis using h' a by blast
qed

lemma send_start_busy:
  assumes "ie_ready (cs_write (sv_slot st i)) \<noteq> 0"
  shows "sv_send_start E i st = ret (FRAME_IO_PENDING, upd_sock i (map_ev WR (\<lambda>x. x\<lparr>ie_call := Some Call_ev_send, ie_ready := ie_ready x + 1\<rparr>)) st)"
  using assms by (simp add: sv_send_start_def Let_def) (cases "cs_write (sv_slot st i)"; simp add: upd_sock_def)

lemma sv_grub_found:
  assumes "cs_type (sv_slot st (HASH_ID ident)) \<noteq> SOCKET_TYPE_INVALID" "cs_id (sv_slot st (HASH_ID ident)) = ident"
  shows "sv_grub E ident st = ret (Some (HASH_ID ident), upd_sock (HASH_ID ident) (cs_pending_update (\<lambda>p. p + 1)) st)"
  using assms by (simp add: sv_grub_def Let_def)

lemma frame_codes [simp]: "FRAME_IO_PENDING \<noteq> 0" "FRAME_BUFF_EMPTY \<noteq> 0"
  by (simp_all add: FRAME_IO_PENDING_def FRAME_BUFF_EMPTY_def)

lemma sendq_push:
  assumes q: "sendq st i bl" and fresh: "fresh_blocks st" and r: "block r data" "data \<noteq> []" "rb_next r = None"
  shows "\<exists>h wb xs. push_back ((sv_rings st)(sv_brk st \<mapsto> r)) (cs_wb (sv_slot st i)) (sv_brk st) = ret (h, wb) \<and>
    rqueue h wb (xs @ [sv_brk st]) \<and> (\<forall>x\<ge>sv_brk st + 1. h x = None) \<and>
    (case ie_b (cs_write (sv_slot st i)) of
       None \<Rightarrow> xs = [] \<and> bl = [] \<and> ie_ready (cs_write (sv_slot st i)) = 0 \<and> blocks h [sv_brk st] [data]
     | Some a \<Rightarrow> a \<notin> set (xs @ [sv_brk st]) \<and> bl \<noteq> [] \<and> ie_ready (cs_write (sv_slot st i)) \<noteq> 0 \<and>
         blocks h (a # xs @ [sv_brk st]) (bl @ [data]))"
proof -
  obtain xs where xs: "rqueue (sv_rings st) (cs_wb (sv_slot st i)) xs"
    and c: "case ie_b (cs_write (sv_slot st i)) of None \<Rightarrow> xs = [] \<and> bl = [] \<and> ie_ready (cs_write (sv_slot st i)) = 0
      | Some a \<Rightarrow> a \<notin> set xs \<and> blocks (sv_rings st) (a # xs) bl \<and> ie_ready (cs_write (sv_slot st i)) \<noteq> 0 \<and>
          ie_call (cs_write (sv_slot st i)) = Some Call_ev_send"
    using q by (auto simp: sendq_def)
  define ps where "ps = (case ie_b (cs_write (sv_slot st i)) of None \<Rightarrow> xs | Some a \<Rightarrow> a # xs)"
  have b: "blocks (sv_rings st) ps bl" "set xs \<subseteq> set ps" using c by (auto simp: ps_def blocks_def split: option.splits)
  obtain h wb where h: "push_back ((sv_rings st)(sv_brk st \<mapsto> r)) (cs_wb (sv_slot st i)) (sv_brk st) = ret (h, wb)"
    "rqueue h wb (xs @ [sv_brk st])" "blocks h (ps @ [sv_brk st]) (bl @ [data])" "sv_brk st \<notin> set ps" "\<forall>x\<ge>sv_brk st + 1. h x = None"
    using enqueue_block [OF xs b, of "sv_brk st" r data] fresh r by (auto simp: fresh_blocks_def)
  show ?thesis
  proof (cases "ie_b (cs_write (sv_slot st i))")
    case None
    then show ?thesis using h c by (intro exI [of _ h] exI [of _ wb] exI [of _ xs]) (simp add: ps_def)
  next
    case (Some a)
    then show ?thesis using h c by (intro exI [of _ h] exI [of _ wb] exI [of _ xs]) (auto simp: ps_def blocks_def)
  qed
qed

lemma start_send_spec:
  assumes E: "send_ok E" and s: "i = HASH_ID ident" "cs_type (sv_slot st i) \<noteq> SOCKET_TYPE_INVALID" "cs_id (sv_slot st i) = ident"
    and q: "sendq st i bl" and fresh: "fresh_blocks st" and data: "data \<noteq> []" "length data < 2 ^ 31"
    and ready: "ie_ready (cs_write (sv_slot st i)) \<noteq> - 1"
  shows "\<exists>e st'. sv_start_send E ident data (of_nat (length data)) st = ret (e, st') \<and> sendq st' i (bl @ [data]) \<and> keeps_sock i st st' \<and>
    cs_pending (sv_slot st' i) = cs_pending (sv_slot st i) + 1 \<and> fresh_blocks st' \<and>
    ie_ready (cs_write (sv_slot st' i)) \<le> ie_ready (cs_write (sv_slot st i)) + 1 \<and>
    sv_os st' = (if bl = [] then sys_send E (cs_fd (sv_slot st i)) data (op_of i WR) (WSASetLastError E 0 (sv_os st)) else sv_os st)"
proof -
  obtain r where r: "rb_from (junk_bytes E (sv_os st)) data (of_nat (length data)) = ret r" "block r data" "rb_next r = None"
    using rb_from_block [OF data] by blast
  obtain h wb xs where h: "push_back ((sv_rings st)(sv_brk st \<mapsto> r)) (cs_wb (sv_slot st i)) (sv_brk st) = ret (h, wb)"
    "rqueue h wb (xs @ [sv_brk st])" "\<forall>x\<ge>sv_brk st + 1. h x = None"
    and c: "case ie_b (cs_write (sv_slot st i)) of
       None \<Rightarrow> xs = [] \<and> bl = [] \<and> ie_ready (cs_write (sv_slot st i)) = 0 \<and> blocks h [sv_brk st] [data]
     | Some a \<Rightarrow> a \<notin> set (xs @ [sv_brk st]) \<and> bl \<noteq> [] \<and> ie_ready (cs_write (sv_slot st i)) \<noteq> 0 \<and>
         blocks h (a # xs @ [sv_brk st]) (bl @ [data])"
    using sendq_push [OF q fresh r(2) data(1) r(3)] by blast
  let ?st = "upd_sock i (cs_wb_update (\<lambda>_. wb))
    ((upd_sock i (cs_pending_update (\<lambda>p. p + 1)) st)\<lparr>sv_brk := sv_brk st + 1, sv_rings := h\<rparr>)"
  have go: "sv_start_send E ident data (of_nat (length data)) st = bnd (sv_send_start E i ?st) (\<lambda>(e, st).
      bnd (if e \<noteq> 0 \<and> e \<noteq> FRAME_IO_PENDING \<and> e \<noteq> FRAME_BUFF_EMPTY then dec_socket E ident st else ret st) (\<lambda>st. ret (e, st)))"
    using s sv_grub_found [of st ident E] r(1) h(1) by (simp add: sv_start_send_def Let_def)
  show ?thesis
  proof (cases "ie_b (cs_write (sv_slot st i))")
    case None
    then have n: "xs = []" "bl = []" "ie_ready (cs_write (sv_slot st i)) = 0" "blocks h [sv_brk st] [data]" using c by simp_all
    obtain e st' where st': "sv_send_start E i ?st = ret (e, st')" "e \<in> {0, FRAME_BUFF_EMPTY}" "sendq st' i [data]" "keeps_sock i ?st st'"
      "cs_pending (sv_slot st' i) = cs_pending (sv_slot ?st i)" "sv_rings st' = h" "sv_brk st' = sv_brk st + 1"
      "ie_ready (cs_write (sv_slot st' i)) \<le> 1"
      "sv_os st' = sys_send E (cs_fd (sv_slot st i)) data (op_of i WR) (WSASetLastError E 0 (sv_os st))"
      using send_start_spec [OF E, of ?st i "[sv_brk st]" "[sv_brk st]" "[data]"] n h None by auto
    have "keeps_sock i st st'" using st'(4) by (simp add: keeps_sock_def)
    moreover have "sv_start_send E ident data (of_nat (length data)) st = ret (e, st')" using go st'(1,2) by auto
    ultimately show ?thesis using st' n h(3) by (intro exI [of _ e] exI [of _ st']) (simp add: fresh_blocks_def)
  next
    case (Some a)
    then have n: "ie_ready (cs_write (sv_slot st i)) \<noteq> 0" "a \<notin> set (xs @ [sv_brk st])" "bl \<noteq> []"
      "blocks h (a # xs @ [sv_brk st]) (bl @ [data])" using c by simp_all
    let ?st' = "upd_sock i (map_ev WR (\<lambda>x. x\<lparr>ie_call := Some Call_ev_send, ie_ready := ie_ready x + 1\<rparr>)) ?st"
    have "sv_start_send E ident data (of_nat (length data)) st = ret (FRAME_IO_PENDING, ?st')"
      using go send_start_busy [of ?st i E] n by simp
    moreover have "ie_ready (cs_write (sv_slot st i)) + 1 \<noteq> 0" using ready by (metis add_eq_0_iff add.commute)
    then have "sendq ?st' i (bl @ [data])" using h n Some by (auto simp: sendq_def)
    moreover have "keeps_sock i st ?st'" "fresh_blocks ?st'" using h(3) by (simp_all add: keeps_sock_def fresh_blocks_def)
    ultimately show ?thesis using n by (intro exI [of _ FRAME_IO_PENDING] exI [of _ ?st']) simp
  qed
qed

text \<open>What is left after \<open>k\<close> bytes of the first piece went out.\<close>

fun sent :: "nat \<Rightarrow> bytes list \<Rightarrow> bytes list" where
  "sent k [] = []"
| "sent k (b # bl) = (if k < length b then drop k b # bl else bl)"

lemma blocks_upd: "a \<notin> set xs \<Longrightarrow> blocks (h(a := v)) xs bl = blocks h xs bl"
  unfolding blocks_def by (rule list.rel_cong) auto

lemma rqueue_upd: "a \<notin> set xs \<Longrightarrow> rqueue h wb xs \<Longrightarrow> rqueue (h(a := v)) wb xs"
  by (cases v) (simp_all add: rqueue_def)

lemma sendq_pending [simp]: "sendq (upd_sock i (cs_pending_update f) st) j bl = sendq st j bl"
  by (simp add: sendq_def cong: option.case_cong)

lemma on_send_spec:
  assumes E: "send_ok E" and q: "sendq st i (b # bl)" and k: "k \<le> length b" and refs: "cs_pending (sv_slot st i) \<noteq> 1"
    and fresh: "fresh_blocks st"
  defines "left \<equiv> sent k (b # bl)"
  shows "\<exists>st'. sv_dispatch E i WR (of_nat k) 0 st = ret st' \<and> sendq st' i left \<and> keeps_sock i st st' \<and>
    cs_pending (sv_slot st' i) = cs_pending (sv_slot st i) \<and> fresh_blocks st' \<and> ie_ready (cs_write (sv_slot st' i)) \<le> 1 \<and>
    sv_os st' = (case left of [] \<Rightarrow> sv_os st | b # _ \<Rightarrow> sys_send E (cs_fd (sv_slot st i)) b (op_of i WR) (WSASetLastError E 0 (sv_os st)))"
proof -
  obtain xs a where xs: "rqueue (sv_rings st) (cs_wb (sv_slot st i)) xs" and a: "ie_b (cs_write (sv_slot st i)) = Some a" "a \<notin> set xs"
    "ie_call (cs_write (sv_slot st i)) = Some Call_ev_send" "blocks (sv_rings st) (a # xs) (b # bl)"
    using q by (auto simp: sendq_def split: option.splits)
  obtain r where r: "sv_rings st a = Some r" "block r b" "b \<noteq> []" "blocks (sv_rings st) xs bl" using a(4) by (auto simp: blocks_def)
  have lt: "a < sv_brk st" using r(1) fresh by (metis fresh_blocks_def not_le option.distinct(1))
  define r' where "r' = r\<lparr>rb_out := rb_out r + of_nat k\<rparr>"
  note rd = block_read_ok [OF r(2) k, folded r'_def]
  have e: "rb_empty r' \<longleftrightarrow> \<not> k < length b" using rd(3) by auto
  define st1 where "st1 = upd_sock i (\<lambda>s. s\<lparr>cs_w_byte := cs_w_byte s + of_nat k, cs_pending := cs_pending s + 1, cs_write := (cs_write s)\<lparr>
      ie_b := (if rb_empty r' then None else Some a), ie_ready := 0\<rparr>\<rparr>) (st\<lparr>sv_rings := (sv_rings st)(a := if rb_empty r' then None else Some r')\<rparr>)"
  have cond: "cs_pending (sv_slot st i) + 1 \<noteq> 2" using refs by (metis add_right_cancel one_add_one)
  have go: "sv_dispatch E i WR (of_nat k) 0 st = bnd (sv_send_start E i st1) (\<lambda>(e, st).
      let st = upd_sock i (cs_pending_update (\<lambda>p. p - 1)) st in
      if e \<noteq> 0 \<and> e \<noteq> FRAME_IO_PENDING \<and> e \<noteq> FRAME_BUFF_EMPTY then inner_close E (Some i) 1 st else ret st)"
    using a(1,3) r(1) rd(1) cond
    by (cases "sv_slot st i"; cases "cs_write (sv_slot st i)") (auto simp: sv_dispatch_def sv_on_send_def Let_def st1_def upd_sock_def r'_def)
  have slot1: "cs_pending (sv_slot st1 i) = cs_pending (sv_slot st i) + 1" "keeps_sock i st st1" "sv_os st1 = sv_os st" "sv_brk st1 = sv_brk st"
    "cs_fd (sv_slot st1 i) = cs_fd (sv_slot st i)" "ie_ready (cs_write (sv_slot st1 i)) = 0"
    by (simp_all add: st1_def keeps_sock_def)
  define ps where "ps = (case ie_b (cs_write (sv_slot st1 i)) of None \<Rightarrow> xs | Some a \<Rightarrow> a # xs)"
  have q1: "rqueue (sv_rings st1) (cs_wb (sv_slot st1 i)) xs" using rqueue_upd [OF a(2) xs] by (simp add: st1_def)
  have d1: "distinct ps" using a(2) chain_distinct xs by (auto simp: ps_def st1_def rqueue_def)
  have "blocks (sv_rings st1) xs bl" using blocks_upd [OF a(2)] r(4) by (simp add: st1_def)
  then have b1: "blocks (sv_rings st1) ps left" using rd(2) e by (auto simp: ps_def st1_def left_def blocks_def)
  obtain e st2 where st2: "sv_send_start E i st1 = ret (e, st2)" "e \<in> {0, FRAME_BUFF_EMPTY}" "sendq st2 i left" "keeps_sock i st1 st2"
    "cs_pending (sv_slot st2 i) = cs_pending (sv_slot st1 i)" "sv_rings st2 = sv_rings st1" "sv_brk st2 = sv_brk st1"
    "ie_ready (cs_write (sv_slot st2 i)) \<le> 1"
    "sv_os st2 = (case left of [] \<Rightarrow> sv_os st1 | b # _ \<Rightarrow> sys_send E (cs_fd (sv_slot st1 i)) b (op_of i WR) (WSASetLastError E 0 (sv_os st1)))"
    using send_start_spec [OF E slot1(6) q1 ps_def d1 b1] by blast
  let ?st = "upd_sock i (cs_pending_update (\<lambda>p. p - 1)) st2"
  have "sv_dispatch E i WR (of_nat k) 0 st = ret ?st" using go st2(1,2) by (auto simp: Let_def)
  moreover have "sendq ?st i left" using st2(3) by simp
  moreover have "keeps_sock i st ?st" using slot1(2) st2(4) by (simp add: keeps_sock_def)
  moreover have "fresh_blocks ?st" using fresh lt st2(6,7) by (simp add: fresh_blocks_def st1_def)
  ultimately show ?thesis using st2 slot1 by (intro exI [of _ ?st]) (simp cong: list.case_cong)
qed

section \<open>Runs of sends\<close>

text \<open>
  The application sends pieces, and the system reports how many bytes of the piece under way went out. The abstract sender is a list of
  pieces: \<open>legal\<close> are the runs in which the reports fit, \<open>confirmed\<close> the bytes that went out, \<open>unsent\<close> the
  pieces left, and \<open>handovers\<close> what is handed to Winsock, call by call.
\<close>

datatype send_ev = Send bytes | Done nat

fun legal :: "send_ev list \<Rightarrow> bytes list \<Rightarrow> bool" where
  "legal [] bl = True"
| "legal (Send d # evs) bl = (d \<noteq> [] \<and> length d < 2 ^ 31 \<and> legal evs (bl @ [d]))"
| "legal (Done k # evs) [] = False"
| "legal (Done k # evs) (b # bl) = (k \<le> length b \<and> legal evs (sent k (b # bl)))"

fun unsent :: "send_ev list \<Rightarrow> bytes list \<Rightarrow> bytes list" where
  "unsent [] bl = bl"
| "unsent (Send d # evs) bl = unsent evs (bl @ [d])"
| "unsent (Done k # evs) bl = unsent evs (sent k bl)"

fun confirmed :: "send_ev list \<Rightarrow> bytes list \<Rightarrow> bytes" where
  "confirmed [] bl = []"
| "confirmed (Send d # evs) bl = confirmed evs (bl @ [d])"
| "confirmed (Done k # evs) bl = take k (hd bl) @ confirmed evs (sent k bl)"

fun handovers :: "send_ev list \<Rightarrow> bytes list \<Rightarrow> bytes list" where
  "handovers [] bl = []"
| "handovers (Send d # evs) bl = (if bl = [] then [d] else []) @ handovers evs (bl @ [d])"
| "handovers (Done k # evs) bl = take 1 (sent k bl) @ handovers evs (sent k bl)"

fun submitted :: "send_ev list \<Rightarrow> bytes list" where
  "submitted [] = []"
| "submitted (Send d # evs) = d # submitted evs"
| "submitted (Done k # evs) = submitted evs"

lemma stream_order: "legal evs bl \<Longrightarrow> confirmed evs bl @ concat (unsent evs bl) = concat bl @ concat (submitted evs)"
proof (induction evs bl rule: legal.induct)
  case (4 k evs b bl)
  then show ?case by (cases "k < length b") auto
qed auto

text \<open>The same run on the server.\<close>

fun srv_run :: "('o, 'e) cpp_env_scheme \<Rightarrow> u32 \<Rightarrow> send_ev list \<Rightarrow> 'o srv \<Rightarrow> 'o srv prog" where
  "srv_run E ident [] st = ret st"
| "srv_run E ident (Send d # evs) st = bnd (sv_start_send E ident d (of_nat (length d)) st) (\<lambda>(_, st). srv_run E ident evs st)"
| "srv_run E ident (Done k # evs) st = bnd (sv_dispatch E (HASH_ID ident) WR (of_nat k) 0 st) (\<lambda>st. srv_run E ident evs st)"

text \<open>\<open>records E wire\<close>: \<open>wire\<close> lists what the system was asked to send.\<close>

definition records :: "('o, 'e) winsock_scheme \<Rightarrow> ('o \<Rightarrow> bytes list) \<Rightarrow> bool" where
  "records E wire \<longleftrightarrow> (\<forall>fd b p s. wire (sys_send E fd b p s) = wire s @ [b]) \<and> (\<forall>e s. wire (WSASetLastError E e s) = wire s)"

definition sendable :: "u32 \<Rightarrow> nat \<Rightarrow> 'o srv \<Rightarrow> bytes list \<Rightarrow> bool" where
  "sendable ident n st bl \<longleftrightarrow> (let s = sv_slot st (HASH_ID ident) in cs_type s \<noteq> SOCKET_TYPE_INVALID \<and> cs_id s = ident \<and>
     2 \<le> unat (cs_pending s) \<and> unat (cs_pending s) + n < 2 ^ 32 \<and> unat (ie_ready (cs_write s)) + n < 2 ^ 32 - 1 \<and>
     sendq st (HASH_ID ident) bl \<and> fresh_blocks st)"

lemma ready_step:
  fixes r r' :: u32
  assumes "r' \<le> r + 1" "unat r + Suc n < 2 ^ 32 - 1"
  shows "unat r' + n < 2 ^ 32 - 1"
proof -
  have "unat (r + 1) = unat r + 1" using assms(2) by (simp add: unat_word_ariths)
  then show ?thesis using assms by (simp add: word_le_nat_alt)
qed

lemma sendable_send:
  assumes E: "send_ok E" "records E wire" and s: "sendable ident (Suc n) st bl" and d: "d \<noteq> []" "length d < 2 ^ 31"
  shows "\<exists>e st'. sv_start_send E ident d (of_nat (length d)) st = ret (e, st') \<and> sendable ident n st' (bl @ [d]) \<and>
    cs_pending (sv_slot st' (HASH_ID ident)) = cs_pending (sv_slot st (HASH_ID ident)) + 1 \<and>
    wire (sv_os st') = wire (sv_os st) @ (if bl = [] then [d] else [])"
proof -
  let ?i = "HASH_ID ident"
  have S: "cs_type (sv_slot st ?i) \<noteq> SOCKET_TYPE_INVALID" "cs_id (sv_slot st ?i) = ident" "2 \<le> unat (cs_pending (sv_slot st ?i))"
    "unat (cs_pending (sv_slot st ?i)) + Suc n < 2 ^ 32" "unat (ie_ready (cs_write (sv_slot st ?i))) + Suc n < 2 ^ 32 - 1"
    "sendq st ?i bl" "fresh_blocks st" using s by (simp_all add: sendable_def Let_def)
  have "ie_ready (cs_write (sv_slot st ?i)) \<noteq> - 1" using S(5) by (auto simp: unsigned_minus_1_eq_mask mask_eq_exp_minus_1)
  with start_send_spec [OF E(1) refl S(1,2,6,7) d] obtain e st' where
    st': "sv_start_send E ident d (of_nat (length d)) st = ret (e, st')" "sendq st' ?i (bl @ [d])" "keeps_sock ?i st st'"
    "cs_pending (sv_slot st' ?i) = cs_pending (sv_slot st ?i) + 1" "fresh_blocks st'"
    "ie_ready (cs_write (sv_slot st' ?i)) \<le> ie_ready (cs_write (sv_slot st ?i)) + 1"
    "sv_os st' = (if bl = [] then sys_send E (cs_fd (sv_slot st ?i)) d (op_of ?i WR) (WSASetLastError E 0 (sv_os st)) else sv_os st)"
    by blast
  have p: "unat (cs_pending (sv_slot st ?i) + 1) = unat (cs_pending (sv_slot st ?i)) + 1"
    using S(4) by (simp add: unat_word_ariths)
  have "sendable ident n st' (bl @ [d])"
    using st' p S ready_step [OF st'(6) S(5)] by (simp add: sendable_def Let_def keeps_sock_def)
  moreover have "wire (sv_os st') = wire (sv_os st) @ (if bl = [] then [d] else [])"
    using E(2) st'(7) by (simp add: records_def)
  ultimately show ?thesis using st'(1,4) by blast
qed

lemma sendable_done:
  assumes E: "send_ok E" "records E wire" and s: "sendable ident (Suc n) st (b # bl)" and k: "k \<le> length b"
  shows "\<exists>st'. sv_dispatch E (HASH_ID ident) WR (of_nat k) 0 st = ret st' \<and> sendable ident n st' (sent k (b # bl)) \<and>
    cs_pending (sv_slot st' (HASH_ID ident)) = cs_pending (sv_slot st (HASH_ID ident)) \<and>
    wire (sv_os st') = wire (sv_os st) @ take 1 (sent k (b # bl))"
proof -
  let ?i = "HASH_ID ident"
  have S: "2 \<le> unat (cs_pending (sv_slot st ?i))" "sendq st ?i (b # bl)" "fresh_blocks st"
    "unat (ie_ready (cs_write (sv_slot st ?i))) + Suc n < 2 ^ 32 - 1" using s by (simp_all add: sendable_def Let_def)
  have "cs_pending (sv_slot st ?i) \<noteq> 1" using S(1) by auto
  from on_send_spec [OF E(1) S(2) k this S(3)] obtain st' where
    st': "sv_dispatch E ?i WR (of_nat k) 0 st = ret st'" "sendq st' ?i (sent k (b # bl))" "keeps_sock ?i st st'"
    "cs_pending (sv_slot st' ?i) = cs_pending (sv_slot st ?i)" "fresh_blocks st'" "ie_ready (cs_write (sv_slot st' ?i)) \<le> 1"
    "sv_os st' = (case sent k (b # bl) of [] \<Rightarrow> sv_os st | c # _ \<Rightarrow> sys_send E (cs_fd (sv_slot st ?i)) c (op_of ?i WR) (WSASetLastError E 0 (sv_os st)))"
    by blast
  have "unat (ie_ready (cs_write (sv_slot st' ?i))) \<le> 1" using st'(6) by (simp add: word_le_nat_alt)
  moreover have "unat (ie_ready (cs_write (sv_slot st ?i))) \<noteq> 0" using S(2) by (auto simp: sendq_def blocks_def unat_eq_zero split: option.splits)
  ultimately have "unat (ie_ready (cs_write (sv_slot st' ?i))) + n < 2 ^ 32 - 1" using S(4) by linarith
  then have "sendable ident n st' (sent k (b # bl))"
    using s st' by (simp add: sendable_def Let_def keeps_sock_def)
  moreover have "wire (sv_os st') = wire (sv_os st) @ take 1 (sent k (b # bl))"
    using E(2) unfolding st'(7) by (cases "sent k (b # bl)") (simp_all add: records_def)
  ultimately show ?thesis using st'(1,4) by blast
qed

lemma srv_run_spec:
  assumes "send_ok E" "records E wire" "legal evs bl" "sendable ident (length evs) st bl"
  shows "\<exists>st'. srv_run E ident evs st = ret st' \<and> sendable ident 0 st' (unsent evs bl) \<and>
    cs_pending (sv_slot st' (HASH_ID ident)) = cs_pending (sv_slot st (HASH_ID ident)) + of_nat (length (submitted evs)) \<and>
    wire (sv_os st') = wire (sv_os st) @ handovers evs bl"
  using assms(3,4)
proof (induction evs bl arbitrary: st rule: legal.induct)
  case (2 d evs bl)
  then obtain e st1 where "sv_start_send E ident d (of_nat (length d)) st = ret (e, st1)" "sendable ident (length evs) st1 (bl @ [d])"
    "cs_pending (sv_slot st1 (HASH_ID ident)) = cs_pending (sv_slot st (HASH_ID ident)) + 1"
    "wire (sv_os st1) = wire (sv_os st) @ (if bl = [] then [d] else [])"
    using sendable_send [OF assms(1,2)] by (metis legal.simps(2) length_Cons)
  with 2(1) [of st1] 2(2) show ?case by (auto simp: ac_simps)
next
  case (4 k evs b bl)
  then obtain st1 where "sv_dispatch E (HASH_ID ident) WR (of_nat k) 0 st = ret st1" "sendable ident (length evs) st1 (sent k (b # bl))"
    "cs_pending (sv_slot st1 (HASH_ID ident)) = cs_pending (sv_slot st (HASH_ID ident))"
    "wire (sv_os st1) = wire (sv_os st) @ take 1 (sent k (b # bl))"
    using sendable_done [OF assms(1,2)] by (metis legal.simps(4) length_Cons)
  with 4(1) [of st1] 4(2) show ?case by auto
qed simp_all

text \<open>
  C6. Sends reach the network in order: however the application's sends and the system's reports of partial sends interleave, the
  server returns from every call, hands to Winsock exactly the front piece of what is unsent, one operation at a time, and the
  bytes that went out followed by the bytes still queued are the bytes submitted, in order. Every submitted
  piece leaves one reference on the socket: the handler of the finished send does not give it back.
\<close>

theorem sends_in_order:
  assumes "send_ok E" "records E wire" "legal evs []" "sendable ident (length evs) st []"
  shows "\<exists>st'. srv_run E ident evs st = ret st' \<and> wire (sv_os st') = wire (sv_os st) @ handovers evs [] \<and>
    sendq st' (HASH_ID ident) (unsent evs []) \<and> confirmed evs [] @ concat (unsent evs []) = concat (submitted evs) \<and>
    cs_pending (sv_slot st' (HASH_ID ident)) = cs_pending (sv_slot st (HASH_ID ident)) + of_nat (length (submitted evs))"
  using srv_run_spec [OF assms] stream_order [OF assms(3)] by (auto simp: sendable_def Let_def)

section \<open>A running server\<close>

text \<open>A system that grants everything and lists what it is asked to send; a server, object 0, and one other object, 1, registered under 1.\<close>

definition logging :: "bytes list cpp_env" where
  "logging = \<lparr>WSASetLastError = (\<lambda>_ s. s), WSAGetLastError = (\<lambda>_. 0), WSAStartup = (\<lambda>s. s), WSACleanup = (\<lambda>s. s),
     WSAIoctl = (\<lambda>_ _ s. s), WSASocket = (\<lambda>s. (7, s)), closesocket = (\<lambda>_ s. s), inet_addr = (\<lambda>_. 1), sys_reuse = (\<lambda>_ s. (0, s)),
     sys_accept_context = (\<lambda>_ _ s. s), sys_bind = (\<lambda>_ _ _ s. (0, s)), sys_listen = (\<lambda>_ _ s. (0, s)),
     sys_acceptex = (\<lambda>_ _ _ s. s), sys_connectex = (\<lambda>_ _ _ _ s. s), sys_send = (\<lambda>_ b _ s. s @ [b]), sys_recv = (\<lambda>_ _ _ s. s),
     sys_cancel = (\<lambda>_ s. s), sys_shutdown = (\<lambda>_ s. s), sys_new_port = (\<lambda>s. (True, s)), sys_join_port = (\<lambda>_ _ _ s. (True, s)),
     sys_post = (\<lambda>s. (0, s)), sys_time = (\<lambda>_. 0), junk_word = (\<lambda>_. 0), junk_bytes = (\<lambda>_ _. 0),
     msg_ids = int, protocols = (\<lambda>_. default_protocol)\<rparr>"

definition two_objects :: lstore where
  "two_objects = \<lparr>ls_slot = (replicate 64 None)[0 := Some 0, 1 := Some 1], ls_size = 64, ls_index = 2,
     ls_objs = [0 \<mapsto> \<lparr>cl_id = 0, cl_array = binary_arry_new 0\<rparr>, 1 \<mapsto> \<lparr>cl_id = 1, cl_array = binary_arry_new 0\<rparr>]\<rparr>"

definition srv0 :: "csock \<Rightarrow> rheap \<Rightarrow> bytes list srv" where
  "srv0 s h = \<lparr>sv_alloc_id = 5, sv_slot = (\<lambda>_. csock_new 0)(5 := s), sv_rings = h, sv_bodies = Map.empty, sv_brk = 20,
     sv_store = two_objects, sv_self = 0, sv_io = iocp_up, sv_eps = Map.empty, s_server = Some 0, sv_os = []\<rparr>"

text \<open>An established connection, number 5, of the object 1.\<close>

definition conn0 :: csock where
  "conn0 = (csock_new 0)\<lparr>cs_id := 5, cs_logic := 1, cs_fd := 7, cs_type := SOCKET_TYPE_CONNECTED, cs_pending := 3\<rparr>"

lemma logging_ok: "send_ok logging" "records logging (\<lambda>s. s)" "posts_ok logging" "recv_ok logging"
  "protocols logging n = default_protocol"
  by (simp_all add: logging_def send_ok_def records_def posts_ok_def recv_ok_def)

lemma srv0_fields [simp]: "sv_slot (srv0 s h) i = (if i = 5 then s else csock_new 0)" "sv_rings (srv0 s h) = h" "sv_brk (srv0 s h) = 20"
  "sv_os (srv0 s h) = []"
  by (simp_all add: srv0_def)

lemma srv0_hears: "hears (srv0 s h) 1 1"
  by (simp add: hears_def srv0_def two_objects_def ls_grub_def slot_read_def slot_hash_def cl_load_def iocp_up_def iocp_new_def
      iocp_start_thread_def)

lemma hash_5 [simp]: "HASH_ID 5 = 5"
  by (simp add: HASH_ID_def)

theorem sends_in_order_witness:
  "\<exists>st'. srv_run logging 5 [Send [1, 2, 3], Send [4], Done 2, Done 1, Done 1] (srv0 conn0 Map.empty) = ret st' \<and>
     sv_os st' = [[1, 2, 3], [3], [4]] \<and> sendq st' 5 [] \<and> cs_pending (sv_slot st' 5) = 5"
proof -
  let ?evs = "[Send [1, 2, 3], Send [4], Done 2, Done 1, Done 1]"
  have "sendable 5 (length ?evs) (srv0 conn0 Map.empty) []"
    by (simp add: sendable_def conn0_def csock_new_def ie_zero_def sendq_def rqueue_def bh_new_def fresh_blocks_def)
  from sends_in_order [OF logging_ok(1,2) _ this] show ?thesis
    by (auto simp: conn0_def)
qed

text \<open>
  C7. What arrives reaches the application: when a receive of a socket finishes with up to 127 bytes, exactly those bytes are put, in a ring,
  into one message for the logic object that owns the socket, the next receive is started on a fresh ring with the
  count of references unchanged, and no other socket is touched.
\<close>

theorem recv_delivers:
  assumes "0 < length data" "length data \<le> 127" "hears st (cs_logic (sv_slot st i)) b" "posts_ok E" "recv_ok E"
    and "ie_call (cs_read (sv_slot st i)) = Some Call_ev_recv" "ie_b (cs_read (sv_slot st i)) = Some a"
    and "sv_rings st a = Some (os_stores data (rb_default junk))" "a < sv_brk st" "cs_rb (sv_slot st i) = bh_new"
    and "protocols E (cs_opt (sv_slot st i)) = default_protocol" "cs_pending (sv_slot st i) \<noteq> 1"
  shows "\<exists>st' r. sv_dispatch E i RD (of_nat (length data)) 0 st = ret st' \<and>
    port (sv_io st') = port (sv_io st) @ [Msg b (sv_brk st) 0 0] \<and> sv_bodies st' (sv_brk st) = Some (LRecv (cs_id (sv_slot st i)) (Some a)) \<and>
    sv_rings st' a = Some r \<and> buffered (node_of r) = data \<and>
    ie_ready (cs_read (sv_slot st' i)) = 1 \<and> ie_b (cs_read (sv_slot st' i)) = Some (sv_brk st + 1) \<and>
    cs_pending (sv_slot st' i) = cs_pending (sv_slot st i) \<and> (\<forall>j. j \<noteq> i \<longrightarrow> sv_slot st' j = sv_slot st j)"
  using received_ok [OF assms(1-5) assms(7-12)] assms(6,9) os_stores_buffered [OF assms(2), of junk]
  by (simp add: sv_dispatch_def)

definition recv0 :: csock where
  "recv0 = conn0\<lparr>cs_read := \<lparr>ie_call = Some Call_ev_recv, ie_u = None, ie_buf = (0, 0), ie_b = Some 9, ie_ready = 1\<rparr>\<rparr>"

lemma recv0_fields [simp]: "cs_id recv0 = 5" "cs_logic recv0 = 1" "cs_fd recv0 = 7" "cs_type recv0 = SOCKET_TYPE_CONNECTED"
  "cs_pending recv0 = 3" "cs_closing recv0 = 0" "cs_wb recv0 = bh_new" "cs_rb recv0 = bh_new" "cs_write recv0 = ie_zero" "cs_opt recv0 = 0"
  "ie_call (cs_read recv0) = Some Call_ev_recv" "ie_b (cs_read recv0) = Some 9"
  by (simp_all add: recv0_def conn0_def csock_new_def)

definition filled0 :: rheap where
  "filled0 = [9 \<mapsto> os_stores [8, 9] (rb_default (\<lambda>_. 0))]"

theorem recv_delivers_witness:
  "\<exists>st' r. sv_dispatch logging 5 RD 2 0 (srv0 recv0 filled0) = ret st' \<and>
     sv_bodies st' 20 = Some (LRecv 5 (Some 9)) \<and> sv_rings st' 9 = Some r \<and> buffered (node_of r) = [8, 9]"
proof -
  have "hears (srv0 recv0 filled0) (cs_logic (sv_slot (srv0 recv0 filled0) 5)) 1" using srv0_hears by simp
  from recv_delivers [OF _ _ this logging_ok(3,4), where a = 9 and data = "[8, 9]" and junk = "\<lambda>_. 0"] show ?thesis
    by (auto simp: logging_ok(5) filled0_def)
qed

end
