(* ===== verification/Endpoints.thy ===== *)
theory Endpoints
  imports SocketServer
begin

text \<open>
  The application's side of the C++ library: the global server of \<^verbatim>\<open>net/socketinterface.cpp\<close>, and the listener and connector objects
  of \<^verbatim>\<open>net/listener.cpp\<close> and \<^verbatim>\<open>net/connector.cpp\<close>, which are logic objects whose handlers take the messages of the server. The
  texts that are printed are left out, the virtual functions are those of the two classes, and the build is the one with assertions.
\<close>

section \<open>The global server\<close>

definition if_start_socketserver :: "('o, 'e) winsock_scheme \<Rightarrow> u32 \<Rightarrow> u32 \<Rightarrow> 'o srv \<Rightarrow> (u32 \<times> 'o srv) prog" where
  "if_start_socketserver E junk thr st =
     bnd (socket_server_new E junk (sv_brk st) (st\<lparr>sv_brk := sv_brk st + 1\<rparr>)) (\<lambda>st.
     ret (0, st\<lparr>s_server := Some (sv_self st), sv_io := iocp_start_thread (sv_io st) (ucast thr)\<rparr>))"

text \<open>The workers are waited for as the poller's theory says; then the server is deleted. No logic object leaves the table of objects.\<close>

definition if_stop_socketserver :: "('o, 'e) winsock_scheme \<Rightarrow> 'o srv \<Rightarrow> (u32 \<times> 'o srv) prog" where
  "if_stop_socketserver E st =
     (let st = st\<lparr>sv_io := iocp_stop_thread (sv_io st)\<rparr> in
     bnd (case s_server st of None \<Rightarrow> ret st
          | Some p \<Rightarrow>
            bnd (delete_slots E 0 st) (\<lambda>st.
            ret (st\<lparr>sv_store := (sv_store st)\<lparr>ls_objs := (ls_objs (sv_store st))(p := None)\<rparr>\<rparr>))) (\<lambda>st.
     ret (0, st\<lparr>s_server := None\<rparr>)))"

definition on_server :: "('o srv \<Rightarrow> 'a prog) \<Rightarrow> 'o srv \<Rightarrow> 'a prog" where
  "on_server f st = (case s_server st of None \<Rightarrow> abort NullDeref | Some _ \<Rightarrow> f st)"

definition if_start_listen ::
  "('o, 'e) cpp_env_scheme \<Rightarrow> u32 \<Rightarrow> string \<Rightarrow> u32 \<Rightarrow> u32 \<Rightarrow> nat \<Rightarrow> 'o srv \<Rightarrow> (u32 \<times> u32 option \<times> 'o srv) prog" where
  "if_start_listen E lgc addr pt backlog opt = on_server (sv_start_listen E lgc addr pt backlog opt)"

definition if_start_connet ::
  "('o, 'e) cpp_env_scheme \<Rightarrow> u32 \<Rightarrow> string \<Rightarrow> u32 \<Rightarrow> nat \<Rightarrow> 'o srv \<Rightarrow> (u32 \<times> u32 option \<times> 'o srv) prog" where
  "if_start_connet E lgc addr pt opt = on_server (sv_start_connet E lgc addr pt opt)"

definition if_start_send :: "('o, 'e) cpp_env_scheme \<Rightarrow> u32 \<Rightarrow> bytes \<Rightarrow> u32 \<Rightarrow> 'o srv \<Rightarrow> (u32 \<times> 'o srv) prog" where
  "if_start_send E ident data sz = on_server (sv_start_send E ident data sz)"

definition if_start_close :: "('o, 'e) cpp_env_scheme \<Rightarrow> u32 \<Rightarrow> 'o srv \<Rightarrow> (u32 \<times> 'o srv) prog" where
  "if_start_close E ident = on_server (sv_start_close E ident)"

section \<open>Objects\<close>

text \<open>The addresses of the message handlers, in the order of the two files.\<close>

definition fn_listener_accept :: nat where "fn_listener_accept = 0"

definition fn_listener_recv :: nat where "fn_listener_recv = 1"

definition fn_listener_err :: nat where "fn_listener_err = 2"

definition fn_connector_connect :: nat where "fn_connector_connect = 3"

definition fn_connector_recv :: nat where "fn_connector_recv = 4"

definition fn_connector_err :: nat where "fn_connector_err = 5"

lemmas fn_defs = fn_listener_accept_def fn_listener_recv_def fn_listener_err_def fn_connector_connect_def fn_connector_recv_def fn_connector_err_def

definition ep_at :: "'o srv \<Rightarrow> nat \<Rightarrow> endpoint prog" where
  "ep_at st p = (case sv_eps st p of None \<Rightarrow> abort WildPointer | Some e \<Rightarrow> ret e)"

definition put_ep :: "nat \<Rightarrow> endpoint \<Rightarrow> 'o srv \<Rightarrow> 'o srv" where
  "put_ep p e st = st\<lparr>sv_eps := (sv_eps st)(p \<mapsto> e)\<rparr>"

fun addhandlers :: "nat \<Rightarrow> (int \<times> nat) list \<Rightarrow> lstore \<Rightarrow> lstore prog" where
  "addhandlers p [] s = ret s"
| "addhandlers p ((k, h) # hs) s = bnd (addhandler s p k (Some h)) (addhandlers p hs)"

definition ep_new :: "u32 \<Rightarrow> nat \<Rightarrow> nat \<Rightarrow> (int \<times> nat) list \<Rightarrow> 'o srv \<Rightarrow> 'o srv prog" where
  "ep_new junk p call hs st =
     bnd (logic_new junk (sv_store st) p) (\<lambda>(_, s).
     bnd (addhandlers p hs s) (\<lambda>s.
     ret (put_ep p \<lparr>ep_ip = [], ep_port = 0, ep_socket = 0, ep_proto = call\<rparr> (st\<lparr>sv_store := s\<rparr>))))"

definition listener_new :: "('o, 'e) cpp_env_scheme \<Rightarrow> u32 \<Rightarrow> nat \<Rightarrow> nat \<Rightarrow> 'o srv \<Rightarrow> 'o srv prog" where
  "listener_new E junk p call =
     ep_new junk p call [(msg_ids E 0, fn_listener_accept), (msg_ids E 2, fn_listener_recv), (msg_ids E 3, fn_listener_err)]"

definition connector_new :: "('o, 'e) cpp_env_scheme \<Rightarrow> u32 \<Rightarrow> nat \<Rightarrow> nat \<Rightarrow> 'o srv \<Rightarrow> 'o srv prog" where
  "connector_new E junk p call =
     ep_new junk p call [(msg_ids E 1, fn_connector_connect), (msg_ids E 2, fn_connector_recv), (msg_ids E 3, fn_connector_err)]"

definition ep_logic_id :: "'o srv \<Rightarrow> nat \<Rightarrow> u32 prog" where
  "ep_logic_id st p = bnd (cl_load (ls_objs (sv_store st)) (Some p)) (\<lambda>l. ret (cl_id l))"

text \<open>The number of the socket is an argument by reference: it stays when the call does not set it.\<close>

definition set_socket :: "u32 option \<Rightarrow> endpoint \<Rightarrow> endpoint" where
  "set_socket i e = (case i of None \<Rightarrow> e | Some x \<Rightarrow> e\<lparr>ep_socket := x\<rparr>)"

definition listener_start :: "('o, 'e) cpp_env_scheme \<Rightarrow> nat \<Rightarrow> string \<Rightarrow> u32 \<Rightarrow> 'o srv \<Rightarrow> (bool \<times> 'o srv) prog" where
  "listener_start E p ip pt st =
     bnd (ep_at st p) (\<lambda>e.
     if ep_socket e \<noteq> 0 then ret (True, st)
     else
       let e = e\<lparr>ep_ip := ip, ep_port := pt\<rparr>;
           st = put_ep p e st in
       bnd (ep_logic_id st p) (\<lambda>lgc.
       bnd (if_start_listen E lgc (ep_ip e) (ep_port e) 1024 (ep_proto e) st) (\<lambda>(err, i, st).
       ret (err = 0, put_ep p (set_socket i e) st))))"

definition listener_close :: "('o, 'e) cpp_env_scheme \<Rightarrow> nat \<Rightarrow> 'o srv \<Rightarrow> 'o srv prog" where
  "listener_close E p st =
     bnd (ep_at st p) (\<lambda>e.
     if ep_socket e = 0 then ret st
     else bnd (if_start_close E (ep_socket e) st) (\<lambda>(_, st). ret st))"

definition connector_start :: "('o, 'e) cpp_env_scheme \<Rightarrow> nat \<Rightarrow> string \<Rightarrow> u32 \<Rightarrow> 'o srv \<Rightarrow> (bool \<times> 'o srv) prog" where
  "connector_start E p ip pt st =
     bnd (ep_at st p) (\<lambda>e.
     if ep_socket e \<noteq> 0 then ret (True, st)
     else
       let e = e\<lparr>ep_ip := ip, ep_port := pt\<rparr>;
           st = put_ep p e st in
       bnd (ep_logic_id st p) (\<lambda>lgc.
       bnd (if_start_connet E lgc (ep_ip e) (ep_port e) (ep_proto e) st) (\<lambda>(err, i, st).
       let e = set_socket i e in
       ret (err = 0 \<and> sint (ep_socket e) > 0, put_ep p e st))))"

definition connector_close :: "('o, 'e) cpp_env_scheme \<Rightarrow> nat \<Rightarrow> 'o srv \<Rightarrow> 'o srv prog" where
  "connector_close E p st =
     bnd (ep_at st p) (\<lambda>e.
     if ep_socket e = 0 then ret st
     else
       bnd (if_start_close E (ep_socket e) st) (\<lambda>(_, st).
       ret (put_ep p (e\<lparr>ep_socket := 0\<rparr>) st)))"

definition listener_on_accept :: "u32 \<Rightarrow> u32 \<Rightarrow> 'o srv \<Rightarrow> 'o srv prog" where
  "listener_on_accept listenid newid st = ret st"

definition listener_on_recv :: "u32 \<Rightarrow> nat option \<Rightarrow> 'o srv \<Rightarrow> 'o srv prog" where
  "listener_on_recv ident buffer st = ret st"

definition listener_on_socketerr :: "u32 \<Rightarrow> u32 \<Rightarrow> 'o srv \<Rightarrow> 'o srv prog" where
  "listener_on_socketerr ident err st = ret st"

definition connector_on_connect :: "nat \<Rightarrow> u32 \<Rightarrow> u32 \<Rightarrow> 'o srv \<Rightarrow> 'o srv prog" where
  "connector_on_connect p ident err st =
     bnd (ep_at st p) (\<lambda>e. bnd (assert_c (ident = ep_socket e)) (\<lambda>_. ret st))"

definition connector_on_recv :: "('o, 'e) cpp_env_scheme \<Rightarrow> u32 \<Rightarrow> nat option \<Rightarrow> 'o srv \<Rightarrow> 'o srv prog" where
  "connector_on_recv E ident buffer st =
     bnd (rb_at (sv_rings st) buffer) (\<lambda>b.
     let (buf, len) = (case rb_readbuffer b of None \<Rightarrow> ([], 0) | Some (off, len) \<Rightarrow> (take (unat len) (drop (unat off) (rb_buffer b)), len)) in
     bnd (if_start_send E ident buf len st) (\<lambda>(_, st). ret st))"

definition connector_on_socketerr :: "u32 \<Rightarrow> u32 \<Rightarrow> 'o srv \<Rightarrow> 'o srv prog" where
  "connector_on_socketerr ident err st = ret st"

definition connector_send :: "('o, 'e) cpp_env_scheme \<Rightarrow> nat \<Rightarrow> bytes \<Rightarrow> u32 \<Rightarrow> 'o srv \<Rightarrow> 'o srv prog" where
  "connector_send E p data sz st =
     bnd (ep_at st p) (\<lambda>e. bnd (if_start_send E (ep_socket e) data sz st) (\<lambda>(_, st). ret st))"

section \<open>Messages\<close>

text \<open>A handler casts the message to the type it was added for; a message of another type would be read as that type.\<close>

definition listener_msg_accept :: "logic_body \<Rightarrow> 'o srv \<Rightarrow> 'o srv prog" where
  "listener_msg_accept m st = (case m of LAccept i l e \<Rightarrow> listener_on_accept l i st | _ \<Rightarrow> abort WildPointer)"

definition listener_msg_recv :: "logic_body \<Rightarrow> 'o srv \<Rightarrow> 'o srv prog" where
  "listener_msg_recv m st = (case m of LRecv i b \<Rightarrow> listener_on_recv i b st | _ \<Rightarrow> abort WildPointer)"

definition listener_msg_err :: "('o, 'e) cpp_env_scheme \<Rightarrow> logic_body \<Rightarrow> 'o srv \<Rightarrow> 'o srv prog" where
  "listener_msg_err E m st =
     (case m of LSocketerr i e \<Rightarrow> bnd (listener_on_socketerr i e st) (\<lambda>st. bnd (if_start_close E i st) (\<lambda>(_, st). ret st))
      | _ \<Rightarrow> abort WildPointer)"

definition connector_msg_connect :: "nat \<Rightarrow> logic_body \<Rightarrow> 'o srv \<Rightarrow> 'o srv prog" where
  "connector_msg_connect p m st = (case m of LConnect i e \<Rightarrow> connector_on_connect p i e st | _ \<Rightarrow> abort WildPointer)"

definition connector_msg_recv :: "('o, 'e) cpp_env_scheme \<Rightarrow> logic_body \<Rightarrow> 'o srv \<Rightarrow> 'o srv prog" where
  "connector_msg_recv E m st = (case m of LRecv i b \<Rightarrow> connector_on_recv E i b st | _ \<Rightarrow> abort WildPointer)"

definition connector_msg_err :: "('o, 'e) cpp_env_scheme \<Rightarrow> logic_body \<Rightarrow> 'o srv \<Rightarrow> 'o srv prog" where
  "connector_msg_err E m st =
     (case m of LSocketerr i e \<Rightarrow> bnd (connector_on_socketerr i e st) (\<lambda>st. bnd (if_start_close E i st) (\<lambda>(_, st). ret st))
      | _ \<Rightarrow> abort WildPointer)"

definition ep_handler :: "('o, 'e) cpp_env_scheme \<Rightarrow> nat \<Rightarrow> nat \<Rightarrow> cpp_msg \<Rightarrow> 'o srv \<Rightarrow> 'o srv prog" where
  "ep_handler E f p msg st =
     (case sv_bodies st (msg_body msg) of None \<Rightarrow> abort WildPointer
      | Some m \<Rightarrow>
        if f = fn_listener_accept then listener_msg_accept m st
        else if f = fn_listener_recv then listener_msg_recv m st
        else if f = fn_listener_err then listener_msg_err E m st
        else if f = fn_connector_connect then connector_msg_connect p m st
        else if f = fn_connector_recv then connector_msg_recv E m st
        else if f = fn_connector_err then connector_msg_err E m st
        else abort WildPointer)"

text \<open>What a worker does with a message that comes out of the port: the handler of the receiver, then the event is deleted.\<close>

definition sv_logic_call :: "('o, 'e) cpp_env_scheme \<Rightarrow> nat \<Rightarrow> nat \<Rightarrow> 'o srv \<Rightarrow> 'o srv prog" where
  "sv_logic_call E p m st =
     (case sv_bodies st m of None \<Rightarrow> abort NullDeref
      | Some b \<Rightarrow>
        bnd (logic_call (ep_handler E) (sv_store st) p \<lparr>msg_id = msg_ids E (kind_of b), msg_body = m\<rparr> st) (\<lambda>st.
        ret (sv_delete_msg m st)))"

end
