(* ===== verification/ConnProps.thy ===== *)
theory ConnProps
  imports ServerProps Endpoints
begin

text \<open>
  Whole connections of the C++ library: which references are left when a connection is established and closed, so which sockets
  are ever freed, and the connector object, which sends back what it receives.
\<close>

section \<open>Closing\<close>

lemma sv_cancel_frame [simp]:
  "sv_rings (sv_cancel E i c st) = sv_rings st" "sv_io (sv_cancel E i c st) = sv_io st" "cs_fd (sv_slot (sv_cancel E i c st) j) = cs_fd (sv_slot st j)"
  "cs_wb (sv_slot (sv_cancel E i c st) j) = cs_wb (sv_slot st j)" "cs_rb (sv_slot (sv_cancel E i c st) j) = cs_rb (sv_slot st j)"
  "i \<noteq> j \<Longrightarrow> sv_slot (sv_cancel E i c st) j = sv_slot st j"
  by (simp_all add: sv_cancel_def Let_def)

lemma bh_clean_rqueue: "rqueue h b xs \<Longrightarrow> bh_clean h b = ret (\<lambda>a. if a \<in> set xs then None else h a, bh_new)"
  using bh_clean_frees [of h "bh_head b" xs] by (simp add: bh_clean_def rqueue_def bh_new_def)

lemma chain_outside: "set xs \<inter> set ys = {} \<Longrightarrow> chain (nodes (\<lambda>a. if a \<in> set xs then None else h a)) p ys = chain (nodes h) p ys"
  by (induction ys arbitrary: p) (auto simp: nodes_def)

lemma sock_reset_ok:
  assumes w: "rqueue (sv_rings st) (cs_wb (sv_slot st i)) xs" and r: "rqueue (sv_rings st) (cs_rb (sv_slot st i)) ys"
    and d: "set xs \<inter> set ys = {}"
  shows "\<exists>st'. sock_reset E i st = ret st' \<and> cs_type (sv_slot st' i) = SOCKET_TYPE_RESERVE \<and> cs_pending (sv_slot st' i) = 0 \<and>
    cs_wb (sv_slot st' i) = bh_new \<and> cs_rb (sv_slot st' i) = bh_new \<and>
    (\<forall>j. j \<noteq> i \<longrightarrow> sv_slot st' j = sv_slot st j) \<and> sv_rings st' = (\<lambda>a. if a \<in> set xs \<union> set ys then None else sv_rings st a) \<and>
    sv_io st' = sv_io st \<and>
    sv_os st' = (if cs_fd (sv_slot st i) = INVALID_SOCKET then sv_os st else closesocket E (cs_fd (sv_slot st i)) (sv_os st))"
proof -
  let ?h = "\<lambda>a. if a \<in> set xs then None else sv_rings st a"
  have "rqueue ?h (cs_rb (sv_slot st i)) ys" using r chain_outside [OF d] by (simp add: rqueue_def)
  then have "bh_clean ?h (cs_rb (sv_slot st i)) = ret (\<lambda>a. if a \<in> set ys then None else ?h a, bh_new)" by (rule bh_clean_rqueue)
  moreover have "(\<lambda>a. if a \<in> set ys then None else ?h a) = (\<lambda>a. if a \<in> set xs \<union> set ys then None else sv_rings st a)"
    by (simp add: fun_eq_iff)
  ultimately have clean: "bh_clean ?h (cs_rb (sv_slot st i)) = ret (\<lambda>a. if a \<in> set xs \<union> set ys then None else sv_rings st a, bh_new)" (is "_ = ret (?h2, _)")
    by simp
  define st0 where "st0 = (if cs_fd (sv_slot st i) \<noteq> INVALID_SOCKET then svos (closesocket E (cs_fd (sv_slot st i))) st else st)"
  define st1 where "st1 = upd_sock i (\<lambda>s. s\<lparr>cs_id := 0, cs_fd := INVALID_SOCKET, cs_type := SOCKET_TYPE_RESERVE, cs_read := ie_zero,
    cs_write := ie_zero, cs_local := 0, cs_remote := 0, cs_pending := 0, cs_closing := 0, cs_w_byte := 0, cs_r_byte := 0\<rparr>) st0"
  have st0: "sv_slot st0 = sv_slot st" "sv_rings st0 = sv_rings st" "sv_io st0 = sv_io st"
    "sv_os st0 = (if cs_fd (sv_slot st i) = INVALID_SOCKET then sv_os st else closesocket E (cs_fd (sv_slot st i)) (sv_os st))"
    by (simp_all add: st0_def)
  have st1: "sv_rings st1 = sv_rings st" "cs_wb (sv_slot st1 i) = cs_wb (sv_slot st i)" "cs_rb (sv_slot st1 i) = cs_rb (sv_slot st i)"
    "cs_type (sv_slot st1 i) = SOCKET_TYPE_RESERVE" "cs_pending (sv_slot st1 i) = 0" "sv_io st1 = sv_io st" "sv_os st1 = sv_os st0"
    "\<And>j. j \<noteq> i \<Longrightarrow> sv_slot st1 j = sv_slot st j"
    using st0 by (simp_all add: st1_def)
  have "sock_reset E i st = ret (upd_sock i (cs_rb_update (\<lambda>_. bh_new)) ((upd_sock i (cs_wb_update (\<lambda>_. bh_new)) (st1\<lparr>sv_rings := ?h\<rparr>))\<lparr>sv_rings := ?h2\<rparr>))"
    unfolding sock_reset_def Let_def st0_def [symmetric] st1_def [symmetric] using bh_clean_rqueue [OF w] clean st1 by simp
  then show ?thesis using st1 st0(4) by simp
qed

lemma force_close_ok:
  assumes "rqueue (sv_rings st) (cs_wb (sv_slot st i)) xs" "rqueue (sv_rings st) (cs_rb (sv_slot st i)) ys" "set xs \<inter> set ys = {}"
    and "cs_fd (sv_slot st i) \<noteq> INVALID_SOCKET"
  shows "\<exists>st' s. sv_force_close E i st = ret st' \<and> cs_type (sv_slot st' i) = SOCKET_TYPE_RESERVE \<and> cs_pending (sv_slot st' i) = 0 \<and>
    (\<forall>j. j \<noteq> i \<longrightarrow> sv_slot st' j = sv_slot st j) \<and> sv_rings st' = (\<lambda>a. if a \<in> set xs \<union> set ys then None else sv_rings st a) \<and>
    sv_io st' = sv_io st \<and> sv_os st' = closesocket E (cs_fd (sv_slot st i)) s"
proof -
  let ?st = "sv_cancel E i WR (sv_cancel E i RD (svos (sys_shutdown E (cs_fd (sv_slot st i))) st))"
  obtain st' where "sock_reset E i ?st = ret st'" "cs_type (sv_slot st' i) = SOCKET_TYPE_RESERVE" "cs_pending (sv_slot st' i) = 0"
    "\<forall>j. j \<noteq> i \<longrightarrow> sv_slot st' j = sv_slot ?st j" "sv_rings st' = (\<lambda>a. if a \<in> set xs \<union> set ys then None else sv_rings ?st a)"
    "sv_io st' = sv_io ?st" "sv_os st' = closesocket E (cs_fd (sv_slot st i)) (sv_os ?st)"
    using sock_reset_ok [of ?st i xs ys E] assms by auto
  then show ?thesis by (intro exI [of _ st'] exI [of _ "sv_os ?st"]) (simp add: sv_force_close_def Let_def cong: if_cong)
qed

text \<open>A socket that is open to its application, with \<open>n\<close> references, room for one more, and well-formed queues.\<close>

definition opened :: "u32 \<Rightarrow> nat \<Rightarrow> nat list \<Rightarrow> nat list \<Rightarrow> 'o srv \<Rightarrow> bool" where
  "opened ident n xs ys st \<longleftrightarrow> (let s = sv_slot st (HASH_ID ident) in cs_id s = ident \<and>
     cs_type s \<in> {SOCKET_TYPE_CONNECTED, SOCKET_TYPE_PACCEPT} \<and> cs_fd s \<noteq> INVALID_SOCKET \<and> unat (cs_pending s) = n \<and> n + 1 < 2 ^ 31 \<and>
     rqueue (sv_rings st) (cs_wb s) xs \<and> rqueue (sv_rings st) (cs_rb s) ys \<and> set xs \<inter> set ys = {})"

lemma sint_le: "unat x < 2 ^ 31 \<Longrightarrow> unat y < 2 ^ 31 \<Longrightarrow> sint x \<le> sint y \<longleftrightarrow> unat x \<le> unat y" for x y :: u32
  by (simp only: sint_small of_nat_le_iff)

lemma unat_plus1: "unat x + 1 < 2 ^ 31 \<Longrightarrow> unat (x + 1) = unat x + 1" for x :: u32
  by (simp add: unat_word_ariths)

lemma unat_minus1: "1 \<le> unat x \<Longrightarrow> unat (x - 1) = unat x - 1" for x :: u32
  by (subst unat_sub) (simp_all add: word_le_nat_alt)

lemma inner_close_keeps:
  assumes "unat r < unat (cs_pending (sv_slot st i))" "unat (cs_pending (sv_slot st i)) < 2 ^ 31"
  shows "inner_close E (Some i) r st = ret (upd_sock i (cs_pending_update (\<lambda>p. p - r)) st)"
proof -
  have "\<not> sint (cs_pending (sv_slot st i)) \<le> sint r" using assms by (simp add: sint_le)
  then show ?thesis by (simp add: inner_close_def Let_def)
qed

lemma inner_close_last:
  assumes "cs_pending (sv_slot st i) = r" "unat r < 2 ^ 31"
  shows "inner_close E (Some i) r st = sv_force_close E i (upd_sock i (cs_pending_update (\<lambda>_. 0)) st)"
  using assms by (cases "sv_slot st i") (simp add: inner_close_def Let_def upd_sock_def)

lemma start_close_first:
  assumes o: "opened ident n xs ys st" and n: "2 \<le> n" and c: "cs_closing (sv_slot st (HASH_ID ident)) = 0"
  shows "sv_start_close E ident st = ret (0, upd_sock (HASH_ID ident) (\<lambda>s. s\<lparr>cs_pending := cs_pending s - 1, cs_closing := 1\<rparr>) st)"
proof -
  let ?i = "HASH_ID ident"
  let ?st = "upd_sock ?i (cs_closing_update (\<lambda>_. 1)) (upd_sock ?i (cs_pending_update (\<lambda>p. p + 1)) st)"
  have O: "cs_id (sv_slot st ?i) = ident" "cs_type (sv_slot st ?i) \<in> {SOCKET_TYPE_CONNECTED, SOCKET_TYPE_PACCEPT}"
    "unat (cs_pending (sv_slot st ?i)) = n" "n + 1 < 2 ^ 31" using o by (simp_all add: opened_def Let_def)
  have "unat (cs_pending (sv_slot st ?i) + 1) = n + 1" using O(3,4) unat_plus1 by metis
  then have "inner_close E (Some ?i) 2 ?st = ret (upd_sock ?i (cs_pending_update (\<lambda>p. p - 2)) ?st)"
    using O(4) n by (intro inner_close_keeps) simp_all
  moreover have "upd_sock ?i (cs_pending_update (\<lambda>p. p - 2)) ?st = upd_sock ?i (\<lambda>s. s\<lparr>cs_pending := cs_pending s - 1, cs_closing := 1\<rparr>) st"
    by (cases "sv_slot st ?i") (simp add: upd_sock_def)
  moreover have "cs_type (sv_slot st ?i) \<noteq> SOCKET_TYPE_INVALID" using O(2) by auto
  ultimately show ?thesis using O(1,2) c sv_grub_found [of st ident E] by (auto simp: sv_start_close_def)
qed

lemma recv_failed:
  assumes "ie_call (cs_read (sv_slot st i)) = Some Call_ev_recv" "err \<noteq> 0" "hears st (cs_logic (sv_slot st i)) b" "posts_ok E"
  shows "sv_dispatch E i RD sz err st = inner_close E (Some i) 1 (posted E b (Some (LSocketerr (cs_id (sv_slot st i)) err)) st)"
  using assms post2logic_ok [OF assms(3,4)] by (simp add: sv_dispatch_def sv_on_recv_def report_defs)

text \<open>The application closes, then the receive under way ends with an error.\<close>

definition close_run :: "('o, 'e) cpp_env_scheme \<Rightarrow> u32 \<Rightarrow> u32 \<Rightarrow> 'o srv \<Rightarrow> 'o srv prog" where
  "close_run E ident err st = bnd (sv_start_close E ident st) (\<lambda>(_, st). sv_dispatch E (HASH_ID ident) RD 0 err st)"

lemma close_run_spec:
  assumes o: "opened ident n xs ys st" and n: "2 \<le> n" and c: "cs_closing (sv_slot st (HASH_ID ident)) = 0"
    and rd: "ie_call (cs_read (sv_slot st (HASH_ID ident))) = Some Call_ev_recv" "err \<noteq> 0" "posts_ok E"
    "hears st (cs_logic (sv_slot st (HASH_ID ident))) b"
  shows "\<exists>st'. close_run E ident err st = ret st' \<and> port (sv_io st') = port (sv_io st) @ [Msg b (sv_brk st) 0 0] \<and>
    (if n = 2 then cs_type (sv_slot st' (HASH_ID ident)) = SOCKET_TYPE_RESERVE \<and> (\<forall>a \<in> set xs \<union> set ys. sv_rings st' a = None) \<and>
       (\<exists>s. sv_os st' = closesocket E (cs_fd (sv_slot st (HASH_ID ident))) s)
     else opened ident (n - 2) xs ys st' \<and> cs_closing (sv_slot st' (HASH_ID ident)) = 1 \<and>
       cs_type (sv_slot st' (HASH_ID ident)) = cs_type (sv_slot st (HASH_ID ident)) \<and>
       cs_fd (sv_slot st' (HASH_ID ident)) = cs_fd (sv_slot st (HASH_ID ident)))"
proof -
  let ?i = "HASH_ID ident"
  let ?st1 = "upd_sock ?i (\<lambda>s. s\<lparr>cs_pending := cs_pending s - 1, cs_closing := 1\<rparr>) st"
  let ?st2 = "posted E b (Some (LSocketerr (cs_id (sv_slot st ?i)) err)) ?st1"
  have O: "unat (cs_pending (sv_slot st ?i)) = n" "n + 1 < 2 ^ 31" using o by (simp_all add: opened_def Let_def)
  have p1: "unat (cs_pending (sv_slot ?st2 ?i)) = n - 1" using O(1) n by (simp add: unat_minus1)
  have go: "close_run E ident err st = inner_close E (Some ?i) 1 ?st2"
    using start_close_first [OF o n c, of E] recv_failed [of ?st1 ?i err b E 0] rd by (simp add: close_run_def)
  show ?thesis
  proof (cases "n = 2")
    case True
    then have one: "cs_pending (sv_slot ?st2 ?i) = 1" using p1 by (simp add: word_unat_eq_iff)
    let ?st3 = "upd_sock ?i (cs_pending_update (\<lambda>_. 0)) ?st2"
    have "close_run E ident err st = sv_force_close E ?i ?st3" using go inner_close_last [OF one, of E] by simp
    moreover obtain st' s where "sv_force_close E ?i ?st3 = ret st'" "cs_type (sv_slot st' ?i) = SOCKET_TYPE_RESERVE"
      "sv_rings st' = (\<lambda>a. if a \<in> set xs \<union> set ys then None else sv_rings ?st3 a)" "sv_io st' = sv_io ?st3"
      "sv_os st' = closesocket E (cs_fd (sv_slot st ?i)) s"
      using force_close_ok [of ?st3 ?i xs ys E] o by (auto simp: opened_def Let_def)
    ultimately show ?thesis using True by auto
  next
    case False
    let ?st3 = "upd_sock ?i (cs_pending_update (\<lambda>p. p - 1)) ?st2"
    have "close_run E ident err st = ret ?st3" using go p1 O n False by (simp add: inner_close_keeps)
    moreover have "unat (cs_pending (sv_slot ?st3 ?i)) = n - 2"
      using unat_minus1 [of "cs_pending (sv_slot ?st2 ?i)"] p1 n False by simp
    moreover have "n - 2 + 1 < 2 ^ 31" using O(2) by simp
    ultimately show ?thesis using o False by (intro exI [of _ ?st3]) (simp add: opened_def Let_def)
  qed
qed

text \<open>
  C33. A close gives back exactly two references, the one of the table and the one of the receive: an open socket on which nothing else is
  counted, as an accepted one on which nothing was sent, is freed when the receive under way ends, with its queues, and its handle is
  closed; with more references it stays open to the world, for good. The error is reported to the owner once.
\<close>

theorem close_frees_last:
  assumes "opened ident n xs ys st" "2 \<le> n" "cs_closing (sv_slot st (HASH_ID ident)) = 0"
    and "ie_call (cs_read (sv_slot st (HASH_ID ident))) = Some Call_ev_recv" "err \<noteq> 0" "posts_ok E"
    and "hears st (cs_logic (sv_slot st (HASH_ID ident))) b"
  shows "\<exists>st'. close_run E ident err st = ret st' \<and> port (sv_io st') = port (sv_io st) @ [Msg b (sv_brk st) 0 0] \<and>
    (if n = 2 then cs_type (sv_slot st' (HASH_ID ident)) = SOCKET_TYPE_RESERVE \<and> (\<forall>a \<in> set xs \<union> set ys. sv_rings st' a = None) \<and>
       (\<exists>s. sv_os st' = closesocket E (cs_fd (sv_slot st (HASH_ID ident))) s)
     else opened ident (n - 2) xs ys st' \<and> cs_closing (sv_slot st' (HASH_ID ident)) = 1 \<and>
       cs_type (sv_slot st' (HASH_ID ident)) = cs_type (sv_slot st (HASH_ID ident)) \<and>
       cs_fd (sv_slot st' (HASH_ID ident)) = cs_fd (sv_slot st (HASH_ID ident)))"
  using close_run_spec [OF assms] .

lemma recv0_opened: "unat k + 1 < 2 ^ 31 \<Longrightarrow> opened 5 (unat k) [] [] (srv0 (recv0\<lparr>cs_pending := k\<rparr>) h)"
  by (simp add: opened_def rqueue_def bh_new_def)

theorem close_frees_last_witness:
  "\<exists>st'. close_run logging 5 10054 (srv0 (recv0\<lparr>cs_pending := 2\<rparr>) Map.empty) = ret st' \<and> cs_type (sv_slot st' 5) = SOCKET_TYPE_RESERVE"
proof -
  let ?st = "srv0 (recv0\<lparr>cs_pending := 2\<rparr>) Map.empty"
  have "hears ?st (cs_logic (sv_slot ?st (HASH_ID 5))) 1" "opened 5 2 [] [] ?st"
    using srv0_hears recv0_opened [of 2 Map.empty] by simp_all
  from close_frees_last [OF this(2) _ _ _ _ logging_ok(3) this(1), of 10054] show ?thesis by auto
qed

section \<open>Connections\<close>

lemma connected_ok:
  assumes h: "hears st (cs_logic (sv_slot st i)) b" and E: "posts_ok E" "recv_ok E"
    and s: "ie_call (cs_read (sv_slot st i)) = Some Call_connect" "ie_b (cs_read (sv_slot st i)) = None" "cs_pending (sv_slot st i) = 2"
  shows "sv_dispatch E i RD sz 0 st = ret (armed E i (upd_sock i (\<lambda>s. map_ev RD (ie_ready_update (\<lambda>_. 0))
    (s\<lparr>cs_type := SOCKET_TYPE_CONNECTED, cs_pending := 3\<rparr>)) (posted E b (Some (LConnect (cs_id (sv_slot st i)) 0)) st)))"
proof -
  have "sv_dispatch E i RD sz 0 st = ret (armed E i (upd_sock i (cs_pending_update (\<lambda>p. p + 1)) (upd_sock i (map_ev RD (ie_ready_update (\<lambda>_. 0)))
    (upd_sock i (cs_type_update (\<lambda>_. SOCKET_TYPE_CONNECTED)) (posted E b (Some (LConnect (cs_id (sv_slot st i)) 0)) st)))))"
    using s post2logic_ok [OF h E(1)] recv_start_ok [OF E(2)] by (simp add: sv_dispatch_def sv_on_connect_def report_defs Let_def)
  also have "\<dots> = ret (armed E i (upd_sock i (\<lambda>s. map_ev RD (ie_ready_update (\<lambda>_. 0))
    (s\<lparr>cs_type := SOCKET_TYPE_CONNECTED, cs_pending := 3\<rparr>)) (posted E b (Some (LConnect (cs_id (sv_slot st i)) 0)) st)))"
    using s(3) by (cases "sv_slot st i") (simp add: upd_sock_def)
  finally show ?thesis .
qed

lemma start_close_again:
  assumes o: "opened ident n xs ys st" and n: "1 \<le> n" and c: "cs_closing (sv_slot st (HASH_ID ident)) \<noteq> 0"
  shows "sv_start_close E ident st = ret (0, st)"
proof -
  let ?i = "HASH_ID ident"
  let ?st = "upd_sock ?i (cs_pending_update (\<lambda>p. p + 1)) st"
  have O: "cs_id (sv_slot st ?i) = ident" "cs_type (sv_slot st ?i) \<in> {SOCKET_TYPE_CONNECTED, SOCKET_TYPE_PACCEPT}"
    "unat (cs_pending (sv_slot st ?i)) = n" "n + 1 < 2 ^ 31" using o by (simp_all add: opened_def Let_def)
  have "unat (cs_pending (sv_slot st ?i) + 1) = n + 1" using O(3,4) unat_plus1 by metis
  then have "inner_close E (Some ?i) 1 ?st = ret (upd_sock ?i (cs_pending_update (\<lambda>p. p - 1)) ?st)"
    using O(4) n by (intro inner_close_keeps) simp_all
  moreover have "upd_sock ?i (cs_pending_update (\<lambda>p. p - 1)) ?st = st"
    by (cases "sv_slot st ?i"; cases st) (auto simp: upd_sock_def)
  moreover have "cs_type (sv_slot st ?i) \<noteq> SOCKET_TYPE_INVALID" using O(2) by auto
  ultimately show ?thesis using O(1,2) c sv_grub_found [of st ident E] by (auto simp: sv_start_close_def)
qed

text \<open>
  C34. A connection that was established is never freed: the handler of the finished connection keeps the reference it took, so after the
  application's close and the end of the receive one reference is left, the handle is still open, and every
  further close changes nothing.
\<close>

theorem connection_never_freed:
  assumes s: "s = sv_slot st (HASH_ID ident)" "cs_id s = ident" "cs_fd s \<noteq> INVALID_SOCKET" "cs_pending s = 2" "cs_closing s = 0"
    and ctx: "ie_call (cs_read s) = Some Call_connect" "ie_b (cs_read s) = None" "cs_wb s = bh_new" "cs_rb s = bh_new"
    and E: "posts_ok E" "recv_ok E" "hears st (cs_logic s) b" "err \<noteq> 0"
  shows "\<exists>st1 st2. sv_dispatch E (HASH_ID ident) RD 0 0 st = ret st1 \<and> close_run E ident err st1 = ret st2 \<and>
    cs_type (sv_slot st2 (HASH_ID ident)) = SOCKET_TYPE_CONNECTED \<and> cs_pending (sv_slot st2 (HASH_ID ident)) = 1 \<and>
    cs_fd (sv_slot st2 (HASH_ID ident)) = cs_fd s \<and> sv_start_close E ident st2 = ret (0, st2)"
proof -
  let ?i = "HASH_ID ident"
  define st1 where "st1 = armed E ?i (upd_sock ?i (\<lambda>s. map_ev RD (ie_ready_update (\<lambda>_. 0))
    (s\<lparr>cs_type := SOCKET_TYPE_CONNECTED, cs_pending := 3\<rparr>)) (posted E b (Some (LConnect (cs_id (sv_slot st ?i)) 0)) st))"
  have d: "sv_dispatch E ?i RD 0 0 st = ret st1" unfolding st1_def using s ctx E by (intro connected_ok) simp_all
  have o: "opened ident 3 [] [] st1" using s ctx by (simp add: opened_def st1_def rqueue_def bh_new_def)
  have more: "cs_closing (sv_slot st1 ?i) = 0" "ie_call (cs_read (sv_slot st1 ?i)) = Some Call_ev_recv" "hears st1 (cs_logic (sv_slot st1 ?i)) b"
    "cs_type (sv_slot st1 ?i) = SOCKET_TYPE_CONNECTED" "cs_fd (sv_slot st1 ?i) = cs_fd s"
    using s E(3) by (simp_all add: st1_def)
  obtain st2 where st2: "close_run E ident err st1 = ret st2" "opened ident 1 [] [] st2" "cs_closing (sv_slot st2 ?i) = 1"
    "cs_type (sv_slot st2 ?i) = SOCKET_TYPE_CONNECTED" "cs_fd (sv_slot st2 ?i) = cs_fd s"
    using close_run_spec [OF o _ more(1,2) E(4,1) more(3)] more(4,5) by auto
  have "cs_pending (sv_slot st2 ?i) = 1" using st2(2) by (simp add: opened_def Let_def word_unat_eq_iff)
  moreover have "sv_start_close E ident st2 = ret (0, st2)" using start_close_again [OF st2(2)] st2(3) by simp
  ultimately show ?thesis using d st2 by blast
qed

definition connecting0 :: csock where
  "connecting0 = (csock_new 0)\<lparr>cs_id := 5, cs_logic := 1, cs_fd := 7, cs_type := SOCKET_TYPE_CONNECTING, cs_pending := 2,
     cs_read := ie_zero\<lparr>ie_call := Some Call_connect, ie_ready := 1\<rparr>\<rparr>"

theorem connection_never_freed_witness:
  "\<exists>st1 st2. sv_dispatch logging 5 RD 0 0 (srv0 connecting0 Map.empty) = ret st1 \<and> close_run logging 5 10054 st1 = ret st2 \<and>
    cs_type (sv_slot st2 5) = SOCKET_TYPE_CONNECTED \<and> cs_pending (sv_slot st2 5) = 1 \<and> cs_fd (sv_slot st2 5) = 7"
  using connection_never_freed [where ident = 5 and s = connecting0 and st = "srv0 connecting0 Map.empty" and E = logging and b = 1 and err = 10054]
    srv0_hears by (auto simp: connecting0_def csock_new_def ie_zero_def logging_ok)

section \<open>The connector\<close>

text \<open>The object at \<open>p\<close> takes messages with the handlers \<open>hs\<close>.\<close>

definition handles :: "(int \<times> nat) list \<Rightarrow> nat \<Rightarrow> lstore \<Rightarrow> bool" where
  "handles hs p s \<longleftrightarrow> (\<exists>l. ls_objs s p = Some l \<and> handlers_ok l \<and> (\<forall>(k, f) \<in> set hs. handler l k = Some f))"

lemma addhandlers_ok:
  assumes "ls_objs s p = Some l" "handlers_ok l" "distinct (map fst hs)" "fst ` set hs \<inter> fst ` set (items (cl_array l)) = {}"
  shows "\<exists>l'. addhandlers p hs s = ret (s\<lparr>ls_objs := (ls_objs s)(p \<mapsto> l')\<rparr>) \<and> cl_id l' = cl_id l \<and> handlers_ok l' \<and>
    (\<forall>k. handler l' k = (case map_of hs k of Some f \<Rightarrow> Some f | None \<Rightarrow> handler l k))"
  using assms
proof (induction hs arbitrary: s l)
  case Nil
  then have "(ls_objs s)(p \<mapsto> l) = ls_objs s" by (simp add: fun_upd_idem)
  with Nil show ?case by (intro exI [of _ l]) (simp only: addhandlers.simps map_of.simps option.case, simp)
next
  case (Cons kh hs)
  obtain k h where kh: "kh = (k, h)" by fastforce
  with Cons.prems addhandler_ok [OF Cons.prems(1,2), of k "Some h"] obtain l1 where
    l1: "addhandler s p k (Some h) = ret (s\<lparr>ls_objs := (ls_objs s)(p \<mapsto> l1)\<rparr>)" "cl_id l1 = cl_id l" "handlers_ok l1"
    "handler l1 = (handler l)(k := Some h)" "fst ` set (items (cl_array l1)) = insert k (fst ` set (items (cl_array l)))" by auto
  let ?s1 = "s\<lparr>ls_objs := (ls_objs s)(p \<mapsto> l1)\<rparr>"
  have new: "k \<notin> fst ` set hs" using Cons.prems(3) kh by (simp add: image_iff)
  obtain l2 where l2: "addhandlers p hs ?s1 = ret (?s1\<lparr>ls_objs := (ls_objs ?s1)(p \<mapsto> l2)\<rparr>)" "cl_id l2 = cl_id l1" "handlers_ok l2"
    "\<forall>k. handler l2 k = (case map_of hs k of Some f \<Rightarrow> Some f | None \<Rightarrow> handler l1 k)"
  proof (atomize_elim, rule Cons.IH)
    show "fst ` set hs \<inter> fst ` set (items (cl_array l1)) = {}" using l1(5) Cons.prems(4) kh new by auto
  qed (use l1(3) Cons.prems(3) kh in simp_all)
  have "map_of hs k = None" using new by (simp add: map_of_eq_None_iff)
  then show ?case using l1 l2 kh by (intro exI [of _ l2]) (simp del: fun_upd_apply, simp split: option.split)
qed



lemma handles_call:
  assumes "handles hs p (sv_store st)" "(msg_ids E (kind_of b), f) \<in> set hs" "sv_bodies st m = Some b"
  shows "sv_logic_call E p m st = bnd (ep_handler E f p \<lparr>msg_id = msg_ids E (kind_of b), msg_body = m\<rparr> st) (\<lambda>st. ret (sv_delete_msg m st))"
proof -
  obtain l where "ls_objs (sv_store st) p = Some l" "handlers_ok l" "handler l (msg_ids E (kind_of b)) = Some f"
    using assms(1,2) by (auto simp: handles_def)
  then show ?thesis using assms(3) by (simp add: sv_logic_call_def logic_call_def on_logic_handler)
qed

lemma os_stores_block:
  assumes "length data \<le> 127"
  shows "block ((os_stores data (rb_default junk))\<lparr>rb_in := of_nat (length data)\<rparr>) data"
proof -
  have "unat (of_nat (length data) :: u32) = length data" using assms by (simp add: unat_of_nat)
  then show ?thesis using assms by (simp add: block_def os_stores_def word_le_nat_alt)
qed

text \<open>\<open>wire\<close> lists sends only.\<close>

definition sends_only :: "('o, 'e) winsock_scheme \<Rightarrow> ('o \<Rightarrow> bytes list) \<Rightarrow> bool" where
  "sends_only E wire \<longleftrightarrow> (\<forall>s. wire (snd (sys_post E s)) = wire s) \<and> (\<forall>fd n p s. wire (sys_recv E fd n p s) = wire s)"

text \<open>
  C8. The connector sends back what it receives: when a receive of an idle connection finishes with up to 127 bytes and the worker then
  delivers the message to the connector that owns it, exactly those bytes are handed to Winsock, in one send; the
  message and the ring they came in are freed.
\<close>

theorem connector_echoes:
  assumes data: "0 < length data" "length data \<le> 127" and h: "hears st (cs_logic s) p" and E: "posts_ok E" "recv_ok E" "send_ok E"
    and s: "s = sv_slot st (HASH_ID ident)" "cs_id s = ident" "cs_type s \<noteq> SOCKET_TYPE_INVALID" "cs_pending s \<noteq> 1" "cs_rb s = bh_new"
    and rd: "ie_call (cs_read s) = Some Call_ev_recv" "ie_b (cs_read s) = Some a" "sv_rings st a = Some (os_stores data (rb_default junk))"
    and proto: "protocols E (cs_opt s) = default_protocol" and q: "sendq st (HASH_ID ident) []" "fresh_blocks st"
    and obj: "handles [(msg_ids E 2, fn_connector_recv)] p (sv_store st)" "s_server st = Some v"
    and w: "records E wire" "sends_only E wire"
  shows "\<exists>st1 st2. sv_dispatch E (HASH_ID ident) RD (of_nat (length data)) 0 st = ret st1 \<and> port (sv_io st1) = port (sv_io st) @ [Msg p (sv_brk st) 0 0] \<and>
    sv_logic_call E p (sv_brk st) st1 = ret st2 \<and> wire (sv_os st2) = wire (sv_os st) @ [data] \<and>
    sv_rings st2 a = None \<and> sv_bodies st2 (sv_brk st) = None"
proof -
  let ?i = "HASH_ID ident"
  define r where "r = (os_stores data (rb_default junk))\<lparr>rb_in := of_nat (length data)\<rparr>"
  have lt: "a < sv_brk st" using rd(3) q(2) by (metis fresh_blocks_def not_le option.distinct(1))
  define st1 where "st1 = armed E ?i (upd_sock ?i (map_ev RD (ie_ready_update (\<lambda>_. 0))) (posted E p (Some (LRecv (cs_id (sv_slot st ?i)) (Some a)))
    (upd_sock ?i (\<lambda>s. map_ev RD (ie_b_update (\<lambda>_. None)) (s\<lparr>cs_r_byte := cs_r_byte s + of_nat (length data)\<rparr>)) (st\<lparr>sv_rings := (sv_rings st)(a \<mapsto> r)\<rparr>))))"
  have d: "sv_dispatch E ?i RD (of_nat (length data)) 0 st = ret st1"
    using received_ok [OF data _ E(1,2), of st ?i p a junk] h s rd proto lt by (simp add: sv_dispatch_def st1_def r_def)
  have f: "sv_store st1 = sv_store st" "s_server st1 = Some v" "sv_rings st1 a = Some r" "sv_bodies st1 (sv_brk st) = Some (LRecv ident (Some a))"
    "cs_type (sv_slot st1 ?i) \<noteq> SOCKET_TYPE_INVALID" "cs_id (sv_slot st1 ?i) = ident" "cs_write (sv_slot st1 ?i) = cs_write s"
    "cs_wb (sv_slot st1 ?i) = cs_wb s" "wire (sv_os st1) = wire (sv_os st)" "port (sv_io st1) = port (sv_io st) @ [Msg p (sv_brk st) 0 0]"
    using s obj(2) lt w by (simp_all add: st1_def armed_def posted_def records_def sends_only_def)
  have q1: "sendq st1 ?i []" "fresh_blocks st1"
    using q s(1) f(7,8) lt by (auto simp: sendq_def rqueue_def blocks_def fresh_blocks_def st1_def split: option.splits)
  obtain len where len: "rb_readbuffer r = Some (rb_out r, len)" "take (unat len) (drop (unat (rb_out r)) (rb_buffer r)) = data" "unat len = length data"
    using block_readbuffer [OF os_stores_block [OF data(2), of junk]] data(1) by (auto simp: r_def)
  have ln: "len = of_nat (length data)" unfolding len(3) [symmetric] by simp
  have "ie_ready (cs_write (sv_slot st1 ?i)) = 0" using q1(1) by (auto simp: sendq_def blocks_def split: option.splits)
  then have pre: "data \<noteq> []" "length data < 2 ^ 31" "ie_ready (cs_write (sv_slot st1 ?i)) \<noteq> - 1" using data by simp_all
  obtain e st2 where st2: "sv_start_send E ident data len st1 = ret (e, st2)" "keeps_sock ?i st1 st2"
    "sv_os st2 = sys_send E (cs_fd (sv_slot st1 ?i)) data (op_of ?i WR) (WSASetLastError E 0 (sv_os st1))"
    using start_send_spec [OF E(3) refl f(5,6) q1 pre] unfolding ln by (elim exE conjE) (simp del: op_of.simps)
  have "connector_on_recv E ident (Some a) st1 = ret st2"
    using f(2,3) len(1,2) st2(1) by (simp add: connector_on_recv_def if_start_send_def on_server_def)
  then have "sv_logic_call E p (sv_brk st) st1 = ret (sv_delete_msg (sv_brk st) st2)"
    using handles_call [of _ p st1 E "LRecv ident (Some a)" fn_connector_recv "sv_brk st"] obj(1) f(1,4)
    by (simp add: ep_handler_def fn_defs connector_msg_recv_def)
  moreover have "sv_bodies st2 (sv_brk st) = Some (LRecv ident (Some a))" using st2(2) f(4) by (simp add: keeps_sock_def)
  moreover have "wire (sv_os st2) = wire (sv_os st) @ [data]" using st2(3) f(9) w(1) by (simp add: records_def)
  ultimately show ?thesis using d f(10) by (simp add: sv_delete_msg_def Let_def)
qed

lemma two_objects_handler:
  "\<exists>l. addhandlers 1 [(2, fn_connector_recv)] two_objects = ret (two_objects\<lparr>ls_objs := (ls_objs two_objects)(1 \<mapsto> l)\<rparr>) \<and>
     cl_id l = 1 \<and> handlers_ok l \<and> handler l 2 = Some fn_connector_recv"
proof -
  let ?l = "\<lparr>cl_id = 1, cl_array = binary_arry_new 0\<rparr>"
  have "ls_objs two_objects 1 = Some ?l" "handlers_ok ?l" "items (cl_array ?l) = []"
    by (simp_all add: two_objects_def handlers_ok_def binary_arry_new_wf)
  from addhandlers_ok [OF this(1,2), of "[(2, fn_connector_recv)]"] this(3) show ?thesis by auto
qed

theorem connector_echoes_witness:
  "\<exists>s st1 st2. addhandlers 1 [(2, fn_connector_recv)] two_objects = ret s \<and>
     sv_dispatch logging 5 RD 2 0 ((srv0 recv0 filled0)\<lparr>sv_store := s\<rparr>) = ret st1 \<and> sv_logic_call logging 1 20 st1 = ret st2 \<and>
     sv_os st2 = [[8, 9]] \<and> sv_rings st2 9 = None"
proof -
  obtain l where l: "addhandlers 1 [(2, fn_connector_recv)] two_objects = ret (two_objects\<lparr>ls_objs := (ls_objs two_objects)(1 \<mapsto> l)\<rparr>)" (is "_ = ret ?s")
    "cl_id l = 1" "handlers_ok l" "handler l 2 = Some fn_connector_recv" using two_objects_handler by blast
  let ?st = "(srv0 recv0 filled0)\<lparr>sv_store := ?s\<rparr>"
  have h: "hears ?st (cs_logic recv0) 1" using l(2)
    by (simp add: hears_def srv0_def two_objects_def ls_grub_def slot_read_def slot_hash_def cl_load_def iocp_up_def iocp_new_def
        iocp_start_thread_def)
  have obj: "handles [(msg_ids logging 2, fn_connector_recv)] 1 (sv_store ?st)" using l(3,4) by (simp add: handles_def logging_def)
  have w: "sends_only logging (\<lambda>s. s)" by (simp add: sends_only_def logging_def)
  have q: "sendq ?st (HASH_ID 5) []" "fresh_blocks ?st"
    by (simp_all add: sendq_def ie_zero_def rqueue_def bh_new_def fresh_blocks_def filled0_def)
  have slot: "recv0 = sv_slot ?st (HASH_ID 5)" "s_server ?st = Some 0" by (simp_all add: srv0_def)
  have "\<exists>st1 st2. sv_dispatch logging (HASH_ID 5) RD (of_nat (length [8, 9 :: u8])) 0 ?st = ret st1 \<and>
    port (sv_io st1) = port (sv_io ?st) @ [Msg 1 (sv_brk ?st) 0 0] \<and>
    sv_logic_call logging 1 (sv_brk ?st) st1 = ret st2 \<and> sv_os st2 = sv_os ?st @ [[8, 9]] \<and>
    sv_rings st2 9 = None \<and> sv_bodies st2 (sv_brk ?st) = None"
    by (rule connector_echoes [OF _ _ h logging_ok(3,4,1) slot(1) _ _ _ _ _ _ _ logging_ok(5) q obj slot(2) logging_ok(2) w, where junk = "\<lambda>_. 0"])
      (simp_all add: filled0_def)
  then show ?thesis using l(1) by auto
qed

end
