(* ===== verification/CoreErrmsg.thy ===== *)
theory CoreErrmsg
  imports Prelude
begin

text \<open>
  The cache of error texts of \<^verbatim>\<open>net/coreerrmsg.c\<close>: a hash table from error numbers to messages, each
  bucket a chain sorted by error number (signed). The chain of \<^verbatim>\<open>next\<close> pointers behind a slot is a
  list. \<^verbatim>\<open>FormatMessage\<close> is the parameter \<open>fmt\<close>: the system's text for a number, if it has one.
\<close>

section \<open>State\<close>

record errnode =
  en_err :: u32
  en_msg :: string

record errhash =
  eh_slot :: "errnode list list option"
  slot_sz :: u32
  eh_used :: u32
  eh_lock :: u32

definition errhash_init :: errhash where
  "errhash_init = \<lparr>eh_slot = None, slot_sz = 0, eh_used = 0, eh_lock = 0\<rparr>"

definition err_hash :: "errhash \<Rightarrow> u32 \<Rightarrow> nat" where
  "err_hash hash e = unat (e AND (slot_sz hash - 1))"

definition eh_read :: "errhash \<Rightarrow> nat \<Rightarrow> errnode list prog" where
  "eh_read hash h = (case eh_slot hash of None \<Rightarrow> abort NullDeref
     | Some xs \<Rightarrow> if h < length xs then ret (xs ! h) else abort OutOfBounds)"

section \<open>Operations\<close>

text \<open>
  The text of a number the system does not know, without a default, is printed into an array whose
  block has ended when the text is copied.
\<close>

definition sys_errmsg :: "(u32 \<Rightarrow> string option) \<Rightarrow> u32 \<Rightarrow> string option \<Rightarrow> errnode prog" where
  "sys_errmsg fmt e def =
     (case fmt e of
        None \<Rightarrow> (case def of Some d \<Rightarrow> ret \<lparr>en_err = e, en_msg = d\<rparr> | None \<Rightarrow> abort WildPointer)
      | Some m \<Rightarrow> ret \<lparr>en_err = e, en_msg = m\<rparr>)"

partial_function (option) thepower_loop :: "u32 \<Rightarrow> u32 \<Rightarrow> u32 prog" where
  "thepower_loop n i = (if i < n then thepower_loop n (push_bit 1 i) else ret i)"

definition thepower :: "u32 \<Rightarrow> u32 prog" where
  "thepower n = thepower_loop n 64"

text \<open>
  The rehashing loop runs over the new table, which has just been cleared; a node in it would be
  added again, freed and then followed.
\<close>

fun rehash_loop :: "errnode list list \<Rightarrow> unit prog" where
  "rehash_loop [] = ret ()"
| "rehash_loop (b # bs) = (if b = [] then rehash_loop bs else abort WildPointer)"

definition core_errno_resize :: "errhash \<Rightarrow> errhash prog" where
  "core_errno_resize hash =
     (if 3 * unat (slot_sz hash) > 4 * unat (eh_used hash + 1) then ret hash
      else
        bnd (thepower (slot_sz hash)) (\<lambda>n.
        let slots = replicate (unat n) [] in
        bnd (rehash_loop slots) (\<lambda>_.
        ret (hash\<lparr>eh_slot := Some slots, slot_sz := n, eh_used := 0\<rparr>))))"

text \<open>
  The walk to the first node that is not smaller: the nodes passed, and the rest.
\<close>

fun err_walk :: "u32 \<Rightarrow> errnode list \<Rightarrow> errnode list \<times> errnode list" where
  "err_walk e [] = ([], [])"
| "err_walk e (n # ns) =
     (if sint (en_err n) < sint e then (case err_walk e ns of (a, b) \<Rightarrow> (n # a, b)) else ([], n # ns))"

definition core_errno_add :: "errhash \<Rightarrow> errnode \<Rightarrow> (errnode \<times> errhash) prog" where
  "core_errno_add hash node =
     bnd (core_errno_resize hash) (\<lambda>hash.
     let h = err_hash hash (en_err node) in
     bnd (eh_read hash h) (\<lambda>chain.
     case err_walk (en_err node) chain of (before, cur) \<Rightarrow>
       (if cur \<noteq> [] \<and> en_err (hd cur) = en_err node then ret (hd cur, hash)
        else ret (node, hash\<lparr>eh_slot := map_option (\<lambda>xs. xs[h := before @ node # cur]) (eh_slot hash),
               eh_used := eh_used hash + 1\<rparr>))))"

definition errno_str_inner :: "(u32 \<Rightarrow> string option) \<Rightarrow> u32 \<Rightarrow> string option \<Rightarrow> errhash \<Rightarrow> (string \<times> errhash) prog" where
  "errno_str_inner fmt e def hash =
     bnd (if eh_slot hash = None then ret [] else eh_read hash (err_hash hash e)) (\<lambda>chain.
     case err_walk e chain of (before, cur) \<Rightarrow>
       (if cur \<noteq> [] \<and> en_err (hd cur) = e then ret (en_msg (hd cur), hash)
        else
          bnd (if eh_lock hash = 0 then ret (hash\<lparr>eh_lock := 1\<rparr>) else diverge) (\<lambda>hash.
          bnd (sys_errmsg fmt e def) (\<lambda>node.
          bnd (core_errno_add hash node) (\<lambda>(node, hash).
          ret (en_msg node, hash\<lparr>eh_lock := 0\<rparr>))))))"

definition strcmp :: "string \<Rightarrow> string \<Rightarrow> int" where
  "strcmp a b = (if a = b then 0 else if (a, b) \<in> lexord {(x, y). of_char x < (of_char y :: nat)} then - 1 else 1)"

definition errno_append :: "(u32 \<Rightarrow> string option) \<Rightarrow> u32 \<Rightarrow> string \<Rightarrow> errhash \<Rightarrow> (int \<times> errhash) prog" where
  "errno_append fmt e msg hash =
     bnd (errno_str_inner fmt e (Some msg) hash) (\<lambda>(s, hash). ret (strcmp s msg, hash))"

definition errno_str :: "(u32 \<Rightarrow> string option) \<Rightarrow> u32 \<Rightarrow> errhash \<Rightarrow> (string \<times> errhash) prog" where
  "errno_str fmt e hash = errno_str_inner fmt e None hash"

definition core_errmsg_release :: "errhash \<Rightarrow> errhash prog" where
  "core_errmsg_release hash =
     bnd (if slot_sz hash = 0 then ret () else case eh_slot hash of None \<Rightarrow> abort NullDeref
          | Some xs \<Rightarrow> require (unat (slot_sz hash) \<le> length xs) OutOfBounds) (\<lambda>_.
     ret (hash\<lparr>eh_slot := None, eh_used := 0, slot_sz := 0\<rparr>))"

section \<open>The cache as a map\<close>

definition err_sorted :: "errnode list \<Rightarrow> bool" where
  "err_sorted ns \<longleftrightarrow> sorted_wrt (\<lambda>a b. sint (en_err a) < sint (en_err b)) ns"

definition errhash_ok :: "errhash \<Rightarrow> bool" where
  "errhash_ok hash \<longleftrightarrow> eh_lock hash = 0 \<and>
     (eh_slot hash = None \<and> slot_sz hash = 0 \<and> eh_used hash = 0 \<or>
      (\<exists>xs. eh_slot hash = Some xs \<and> slot_sz hash = 64 \<and> length xs = 64 \<and>
         (\<forall>h<64. err_sorted (xs ! h) \<and> (\<forall>n\<in>set (xs ! h). err_hash hash (en_err n) = h))))"

definition cached :: "errhash \<Rightarrow> u32 \<rightharpoonup> string" where
  "cached hash e = (case eh_slot hash of None \<Rightarrow> None
     | Some xs \<Rightarrow> map_option en_msg (find (\<lambda>n. en_err n = e) (xs ! err_hash hash e)))"

lemma err_walk_append: "err_walk e ns = (a, b) \<Longrightarrow> ns = a @ b \<and> (\<forall>n\<in>set a. sint (en_err n) < sint e) \<and> (b \<noteq> [] \<longrightarrow> sint e \<le> sint (en_err (hd b)))"
  by (induction ns arbitrary: a b) (auto split: if_splits prod.splits)

lemma find_append: "find P (xs @ ys) = (case find P xs of None \<Rightarrow> find P ys | Some x \<Rightarrow> Some x)"
  by (induction xs) auto

text \<open>In a sorted chain the walk decides membership.\<close>

lemma err_walk_find:
  assumes "err_walk e ns = (a, b)" "err_sorted ns"
  shows "find (\<lambda>n. en_err n = e) ns = (if b \<noteq> [] \<and> en_err (hd b) = e then Some (hd b) else None)"
proof -
  note w = err_walk_append [OF assms(1)]
  have a: "find (\<lambda>n. en_err n = e) a = None" using w by (auto simp: find_None_iff)
  have "find (\<lambda>n. en_err n = e) b = (if b \<noteq> [] \<and> en_err (hd b) = e then Some (hd b) else None)"
  proof (cases b)
    case (Cons x xs)
    have "en_err n \<noteq> e" if "n \<in> set xs" for n
      using that assms(2) w Cons by (fastforce simp: err_sorted_def sorted_wrt_append)
    then show ?thesis using Cons by (auto simp: find_None_iff)
  qed simp
  with a w show ?thesis by (simp add: find_append)
qed

lemma err_hash_64: "slot_sz hash = 64 \<Longrightarrow> err_hash hash e = unat e mod 64"
  using and_pow2_minus_1 [where 'a = 32, of 6 e] by (simp add: err_hash_def)

lemma thepower_64: "n \<le> 64 \<Longrightarrow> thepower n = ret 64"
  unfolding thepower_def by (subst thepower_loop.simps) (simp add: leD)

lemma rehash_loop_empty: "rehash_loop (replicate n []) = ret ()"
  by (induction n) auto

text \<open>The table \<open>core_errno_add\<close> works on, after the resize.\<close>

definition resized :: "errhash \<Rightarrow> errhash" where
  "resized hash = (if 3 * unat (slot_sz hash) > 4 * unat (eh_used hash + 1) then hash
     else hash\<lparr>eh_slot := Some (replicate 64 []), slot_sz := 64, eh_used := 0\<rparr>)"

lemma resize_cases:
  assumes ok: "errhash_ok (hash\<lparr>eh_lock := 0\<rparr>)"
  shows "core_errno_resize hash = ret (resized hash)"
  using ok thepower_64 [of "slot_sz hash"]
  by (auto simp: core_errno_resize_def errhash_ok_def rehash_loop_empty Let_def resized_def)

text \<open>The chain with a node put at its place.\<close>

lemma err_insert_sorted:
  assumes "err_walk e ns = (a, b)" "err_sorted ns" "\<not> (b \<noteq> [] \<and> en_err (hd b) = e)"
  shows "err_sorted (a @ \<lparr>en_err = e, en_msg = m\<rparr> # b)"
proof -
  note w = err_walk_append [OF assms(1)]
  have "sint e < sint (en_err n)" if n: "n \<in> set b" for n
  proof (cases b)
    case (Cons x xs)
    have "sint e \<noteq> sint (en_err x)" using assms(3) Cons by (auto dest: signed_word_eqI)
    then have "sint e < sint (en_err x)" using w Cons by auto
    moreover have "n = x \<or> sint (en_err x) < sint (en_err n)"
      using n Cons assms(2) w by (auto simp: err_sorted_def sorted_wrt_append)
    ultimately show ?thesis by auto
  qed (use n in simp)
  then show ?thesis using w assms(2) by (auto simp: err_sorted_def sorted_wrt_append)
qed

lemma resized_ok:
  assumes ok: "errhash_ok (hash\<lparr>eh_lock := 0\<rparr>)"
  shows "\<exists>xs. eh_slot (resized hash) = Some xs \<and> slot_sz (resized hash) = 64 \<and> length xs = 64 \<and>
    (\<forall>h<64. err_sorted (xs ! h) \<and> (\<forall>n\<in>set (xs ! h). unat (en_err n) mod 64 = h)) \<and> eh_lock (resized hash) = eh_lock hash"
proof (cases "3 * unat (slot_sz hash) > 4 * unat (eh_used hash + 1)")
  case True
  then have "slot_sz hash \<noteq> 0" by auto
  then show ?thesis using ok True by (auto simp: errhash_ok_def resized_def err_hash_64)
next
  case False
  then show ?thesis by (auto simp: resized_def err_sorted_def)
qed

lemma core_errno_add_ok:
  assumes ok: "errhash_ok (hash\<lparr>eh_lock := 0\<rparr>)" and none: "cached (resized hash) e = None"
  shows "\<exists>hash'. core_errno_add hash \<lparr>en_err = e, en_msg = m\<rparr> = ret (\<lparr>en_err = e, en_msg = m\<rparr>, hash') \<and>
    errhash_ok (hash'\<lparr>eh_lock := 0\<rparr>) \<and> cached hash' = (cached (resized hash))(e \<mapsto> m) \<and> eh_lock hash' = eh_lock hash"
proof -
  let ?r = "resized hash" and ?n = "\<lparr>en_err = e, en_msg = m\<rparr>"
  obtain xs where xs: "eh_slot ?r = Some xs" "slot_sz ?r = 64" "length xs = 64"
    "\<And>h. h < 64 \<Longrightarrow> err_sorted (xs ! h) \<and> (\<forall>n\<in>set (xs ! h). unat (en_err n) mod 64 = h)" "eh_lock ?r = eh_lock hash"
    using resized_ok [OF ok] by auto
  have H: "err_hash ?r i = unat i mod 64" for i by (rule err_hash_64 [OF xs(2)])
  let ?h = "unat e mod 64"
  obtain a b where w: "err_walk e (xs ! ?h) = (a, b)" by (cases "err_walk e (xs ! ?h)")
  have sorted: "err_sorted (xs ! ?h)" using xs(4) by simp
  have miss: "\<not> (b \<noteq> [] \<and> en_err (hd b) = e)"
    using none err_walk_find [OF w sorted] xs(1) by (auto simp: cached_def H split: if_splits)
  define hash' where "hash' = ?r\<lparr>eh_slot := Some (xs[?h := a @ ?n # b]), eh_used := eh_used ?r + 1\<rparr>"
  have "core_errno_add hash ?n = ret (?n, hash')"
    using resize_cases [OF ok] xs(1,3) w miss
    by (auto simp: core_errno_add_def eh_read_def H hash'_def)
  moreover have "errhash_ok (hash'\<lparr>eh_lock := 0\<rparr>)"
  proof -
    have H0: "err_hash (hash'\<lparr>eh_lock := 0\<rparr>) i = unat i mod 64" for i
      by (rule err_hash_64) (simp add: hash'_def xs(2))
    have "err_sorted (xs[?h := a @ ?n # b] ! h) \<and> (\<forall>n\<in>set (xs[?h := a @ ?n # b] ! h). unat (en_err n) mod 64 = h)" if "h < 64" for h
    proof (cases "h = ?h")
      case True
      then show ?thesis using err_insert_sorted [OF w sorted miss] err_walk_append [OF w] xs(3) xs(4) [of h] that by auto
    next
      case False
      then show ?thesis using xs(3,4) that by simp
    qed
    then show ?thesis using xs(2,3) unfolding errhash_ok_def H0 by (auto simp: hash'_def)
  qed
  moreover have "cached hash' i = ((cached ?r)(e \<mapsto> m)) i" for i
  proof -
    have H': "err_hash hash' i = unat i mod 64" for i by (rule err_hash_64) (simp add: hash'_def xs(2))
    have slots: "eh_slot hash' = Some (xs[?h := a @ ?n # b])" by (simp add: hash'_def)
    show ?thesis
    proof (cases "unat i mod 64 = ?h")
      case True
      have "find (\<lambda>n. en_err n = i) (a @ ?n # b) = (if i = e then Some ?n else find (\<lambda>n. en_err n = i) (a @ b))"
      proof (cases "i = e")
        case True
        then have "find (\<lambda>n. en_err n = i) a = None" using err_walk_append [OF w] by (auto simp: find_None_iff)
        then show ?thesis using True by (simp add: find_append)
      next
        case False
        then show ?thesis by (simp add: find_append split: option.split)
      qed
      then show ?thesis using True err_walk_append [OF w] xs(1,3) by (simp add: cached_def H H' slots)
    next
      case False
      then show ?thesis using xs(1,3) by (auto simp: cached_def H H' slots)
    qed
  qed
  then have "cached hash' = (cached ?r)(e \<mapsto> m)" by (rule ext)
  ultimately show ?thesis using xs(5) by (auto simp: hash'_def)
qed

lemma inner_hit:
  assumes ok: "errhash_ok hash" and hit: "cached hash e = Some m"
  shows "errno_str_inner fmt e def hash = ret (m, hash)"
proof -
  obtain xs where xs: "eh_slot hash = Some xs" "slot_sz hash = 64" "length xs = 64" "err_sorted (xs ! (unat e mod 64))"
    using ok hit by (auto simp: errhash_ok_def cached_def)
  have H: "err_hash hash e = unat e mod 64" by (rule err_hash_64 [OF xs(2)])
  obtain a b where w: "err_walk e (xs ! (unat e mod 64)) = (a, b)" by (cases "err_walk e (xs ! (unat e mod 64))")
  show ?thesis
    using hit err_walk_find [OF w xs(4)] xs(1,3) w
    by (auto simp: errno_str_inner_def cached_def eh_read_def H split: if_splits)
qed

lemma inner_miss_eq:
  assumes ok: "errhash_ok hash" and miss: "cached hash e = None"
  shows "errno_str_inner fmt e def hash =
    bnd (sys_errmsg fmt e def) (\<lambda>node. bnd (core_errno_add (hash\<lparr>eh_lock := 1\<rparr>) node) (\<lambda>(node, hash). ret (en_msg node, hash\<lparr>eh_lock := 0\<rparr>)))"
proof -
  obtain chain where chain: "(if eh_slot hash = None then ret [] else eh_read hash (err_hash hash e)) = ret chain"
    "err_sorted chain" "find (\<lambda>n. en_err n = e) chain = None"
  proof (cases "eh_slot hash")
    case None
    then show ?thesis using that [of "[]"] by (simp add: err_sorted_def)
  next
    case (Some xs)
    then have "length xs = 64" "slot_sz hash = 64" "err_sorted (xs ! (unat e mod 64))" using ok by (auto simp: errhash_ok_def)
    then show ?thesis using that [of "xs ! (unat e mod 64)"] Some miss by (auto simp: eh_read_def err_hash_64 cached_def)
  qed
  obtain a b where w: "err_walk e chain = (a, b)" by (cases "err_walk e chain")
  have "\<not> (b \<noteq> [] \<and> en_err (hd b) = e)" using err_walk_find [OF w chain(2)] chain(3) by (auto split: if_splits)
  moreover have "eh_lock hash = 0" using ok by (simp add: errhash_ok_def)
  ultimately show ?thesis unfolding errno_str_inner_def chain(1) using w by auto
qed

lemma cached_lock [simp]: "cached (h\<lparr>eh_lock := l\<rparr>) = cached h"
  by (simp add: cached_def err_hash_def fun_eq_iff split: option.split)

lemma inner_miss:
  assumes ok: "errhash_ok hash" and miss: "cached hash e = None" and sys: "sys_errmsg fmt e def = ret \<lparr>en_err = e, en_msg = m\<rparr>"
  shows "\<exists>hash'. errno_str_inner fmt e def hash = ret (m, hash') \<and> errhash_ok hash' \<and> cached hash' = (cached (resized hash))(e \<mapsto> m)"
proof -
  let ?l = "hash\<lparr>eh_lock := 1\<rparr>" and ?n = "\<lparr>en_err = e, en_msg = m\<rparr>"
  have ok1: "errhash_ok (?l\<lparr>eh_lock := 0\<rparr>)" using ok by (simp add: errhash_ok_def err_hash_def)
  have r: "resized ?l = (resized hash)\<lparr>eh_lock := 1\<rparr>" by (simp add: resized_def)
  have "cached (resized hash) e = None" using miss by (auto simp: resized_def cached_def err_hash_64)
  then obtain hash' where h: "core_errno_add ?l ?n = ret (?n, hash')" "errhash_ok (hash'\<lparr>eh_lock := 0\<rparr>)"
    "cached hash' = (cached (resized hash))(e \<mapsto> m)"
    using core_errno_add_ok [OF ok1, of e m] r by auto
  then show ?thesis using inner_miss_eq [OF ok miss, of fmt def] sys by auto
qed

lemma sys_errmsg_ret: "sys_errmsg fmt e def = ret n \<Longrightarrow> n = \<lparr>en_err = e, en_msg = en_msg n\<rparr>"
  by (auto simp: sys_errmsg_def split: option.splits)

text \<open>
  Asking twice for the text of an error number gives the same text, whatever default the second call
  brings, and the second call changes nothing: the first answer is cached.
\<close>

theorem errno_str_cached:
  assumes "errhash_ok hash" "errno_str_inner fmt e def hash = ret (m, hash1)"
  shows "errhash_ok hash1 \<and> errno_str_inner fmt' e def' hash1 = ret (m, hash1)"
proof (cases "cached hash e")
  case None
  obtain n where n: "sys_errmsg fmt e def = ret n"
    using assms(2) inner_miss_eq [OF assms(1) None, of fmt def] by (auto simp: bnd_eq_ret)
  obtain hash' where h: "errno_str_inner fmt e def hash = ret (en_msg n, hash')" "errhash_ok hash'" "cached hash' e = Some (en_msg n)"
    using inner_miss [OF assms(1) None, of fmt def "en_msg n"] n sys_errmsg_ret [OF n] by auto
  then show ?thesis using assms(2) inner_hit [OF h(2,3), of fmt' def'] by auto
next
  case (Some m')
  then show ?thesis using inner_hit [OF assms(1) Some] assms by force
qed

text \<open>A text appended by the application is what \<^verbatim>\<open>errno_str\<close> answers from then on.\<close>

theorem errno_str_cached_witness:
  "\<exists>hash1. errno_str_inner (\<lambda>_. None) 20000 (Some ''busy'') errhash_init = ret (''busy'', hash1) \<and>
     errno_str_inner (\<lambda>_. None) 20000 None hash1 = ret (''busy'', hash1)"
proof -
  have ok: "errhash_ok errhash_init" by (simp add: errhash_ok_def errhash_init_def)
  have "cached errhash_init 20000 = None" by (simp add: cached_def errhash_init_def)
  then obtain hash1 where "errno_str_inner (\<lambda>_. None) 20000 (Some ''busy'') errhash_init = ret (''busy'', hash1)"
    using inner_miss [OF ok, of 20000 "\<lambda>_. None" "Some ''busy''" "''busy''"] by (auto simp: sys_errmsg_def)
  then show ?thesis using errno_str_cached [OF ok] by blast
qed

text \<open>
  C29. The table never grows and never rehashes: when 47 texts are cached, adding one more throws all of
  them away and leaves the new one alone in the table.
\<close>

theorem errno_cache_forgets:
  assumes "errhash_ok hash" "slot_sz hash = 64" "47 \<le> unat (eh_used hash)" "eh_used hash \<noteq> - 1"
    "cached hash e = None" "sys_errmsg fmt e def = ret \<lparr>en_err = e, en_msg = m\<rparr>"
  shows "\<exists>hash'. errno_str_inner fmt e def hash = ret (m, hash') \<and> cached hash' = [e \<mapsto> m]"
proof -
  have "unat (eh_used hash + 1) = Suc (unat (eh_used hash))"
    using unatSuc [of "eh_used hash"] assms(4) by (simp add: add_eq_0_iff add.commute)
  then have "resized hash = hash\<lparr>eh_slot := Some (replicate 64 []), slot_sz := 64, eh_used := 0\<rparr>"
    using assms(2,3) by (simp add: resized_def)
  then have "cached (resized hash) = Map.empty" by (auto simp: cached_def err_hash_64 fun_eq_iff)
  then show ?thesis using inner_miss [OF assms(1,5,6)] by auto
qed

definition full_cache :: errhash where
  "full_cache = \<lparr>eh_slot = Some ([map (\<lambda>i. \<lparr>en_err = of_nat (64 * i), en_msg = ''text''\<rparr>) [0..<47]] @ replicate 63 []),
     slot_sz = 64, eh_used = 47, eh_lock = 0\<rparr>"

lemma full_cache_ok: "errhash_ok full_cache"
proof -
  have u: "unat (of_nat (64 * i) :: u32) = 64 * i" "sint (of_nat (64 * i) :: u32) = int (64 * i)" if "i < 47" for i
  proof -
    show n: "unat (of_nat (64 * i) :: u32) = 64 * i" using that by (simp add: unat_of_nat take_bit_nat_eq_self del: of_nat_mult)
    show "sint (of_nat (64 * i) :: u32) = int (64 * i)"
      using that by (simp add: signed_of_nat signed_take_bit_int_eq_self del: of_nat_mult)
  qed
  let ?b = "map (\<lambda>i. \<lparr>en_err = of_nat (64 * i) :: u32, en_msg = ''text''\<rparr>) [0..<47]"
  have "err_sorted ?b"
    unfolding err_sorted_def sorted_wrt_iff_nth_less using u(2) by (simp del: upt_Suc upt_rec_numeral of_nat_mult)
  moreover have "unat (en_err n) mod 64 = 0" if "n \<in> set ?b" for n using that u(1) by (auto simp del: upt_Suc upt_rec_numeral of_nat_mult)
  ultimately have "err_sorted (([?b] @ replicate 63 []) ! h) \<and> (\<forall>n\<in>set (([?b] @ replicate 63 []) ! h). unat (en_err n) mod 64 = h)"
    if "h < 64" for h
    using that by (cases h) (auto simp: nth_append err_sorted_def simp del: upt_Suc upt_rec_numeral)
  moreover have "err_hash full_cache i = unat i mod 64" for i by (rule err_hash_64) (simp add: full_cache_def)
  ultimately show ?thesis by (simp add: errhash_ok_def) (simp add: full_cache_def del: upt_Suc upt_rec_numeral)
qed

theorem errno_cache_forgets_witness:
  "\<exists>hash'. cached full_cache 0 = Some ''text'' \<and>
     errno_str_inner (\<lambda>_. Some ''new'') 1 None full_cache = ret (''new'', hash') \<and> cached hash' 0 = None"
proof -
  have "cached full_cache 0 = Some ''text''" "cached full_cache 1 = None"
    by (simp_all add: cached_def full_cache_def err_hash_def upt_conv_Cons)
  then show ?thesis
    using errno_cache_forgets [OF full_cache_ok, of 1 "\<lambda>_. Some ''new''" None "''new''"]
    by (auto simp: full_cache_def sys_errmsg_def)
qed

end
