(* ===== verification/CoreEndpoint.thy ===== *)
theory CoreEndpoint
  imports SocketProps CoreErrmsg
begin

text \<open>
  The two modules of the library, \<^verbatim>\<open>net/coreconnector.c\<close> and \<^verbatim>\<open>net/corelistener.c\<close>, the table of modules of
  \<^verbatim>\<open>net/modules.h\<close> and the two programs \<^verbatim>\<open>client/main.c\<close> and \<^verbatim>\<open>server/main.c\<close> that use them. The state adds to that of
  the socket server the instances the modules allocate, the strings and buffers that pointers in
  parameters refer to, and the cache of error texts that the failure paths print from.
\<close>

section \<open>State\<close>

record core_connector =
  co_ip :: string
  co_port :: u32
  co_socket :: u32
  co_on_connect :: "nat option"
  co_on_recv :: "nat option"
  co_on_socketerr :: "nat option"

record core_listener =
  li_ip :: string
  li_port :: u32
  li_socket :: u32
  li_on_connect :: "nat option"
  li_on_recv :: "nat option"
  li_on_socketerr :: "nat option"

datatype inst = Connector core_connector | Listener core_listener

text \<open>What a parameter can point to.\<close>

datatype pdata = PStr string | PBuf corebuf

record 'o world = "'o net" +
  insts :: "nat \<rightharpoonup> inst"
  params :: "nat \<rightharpoonup> pdata"
  errs :: errhash

type_synonym 'o wst = "'o world logic_state"

text \<open>
  The environment of the modules: the system, the system's error texts, the callbacks of the protocol, and the
  pointer that the macro \<^verbatim>\<open>UB2LOGIC\<close> computes. The macro subtracts from the instance's own address the offset that the
  field \<^verbatim>\<open>inst\<close> has in the logic object, although the instance is a block of its own.
\<close>

datatype proto_call = On_connect nat u32 u32 | On_socketerr nat u32 u32 | On_recv nat u32 u32

record 'o modenv =
  sys :: "'o winsock"
  fmt :: "u32 \<Rightarrow> string option"
  protocol :: "proto_call \<Rightarrow> 'o wst \<Rightarrow> 'o wst prog"
  UB2LOGIC :: "nat \<Rightarrow> nat"

definition connector_at :: "'o wst \<Rightarrow> nat \<Rightarrow> core_connector prog" where
  "connector_at st a = (case insts (rest st) a of Some (Connector c) \<Rightarrow> ret c | _ \<Rightarrow> abort WildPointer)"

definition listener_at :: "'o wst \<Rightarrow> nat \<Rightarrow> core_listener prog" where
  "listener_at st a = (case insts (rest st) a of Some (Listener c) \<Rightarrow> ret c | _ \<Rightarrow> abort WildPointer)"

definition put_inst :: "nat \<Rightarrow> inst option \<Rightarrow> 'o wst \<Rightarrow> 'o wst" where
  "put_inst a c = onnet (\<lambda>n. n\<lparr>insts := (insts n)(a := c)\<rparr>)"

definition param_buf :: "'o wst \<Rightarrow> nat \<Rightarrow> corebuf prog" where
  "param_buf st a = (case params (rest st) a of Some (PBuf b) \<Rightarrow> ret b | _ \<Rightarrow> abort NullDeref)"

definition param_str :: "'o wst \<Rightarrow> nat \<Rightarrow> string prog" where
  "param_str st a = (case params (rest st) a of Some (PStr b) \<Rightarrow> ret b | _ \<Rightarrow> abort NullDeref)"

text \<open>The text of an error, for a message on standard error.\<close>

definition print_errno :: "'o modenv \<Rightarrow> u32 \<Rightarrow> 'o wst \<Rightarrow> 'o wst prog" where
  "print_errno M err st =
     bnd (errno_str (fmt M) err (errs (rest st))) (\<lambda>(t, h). ret (onnet (\<lambda>n. n\<lparr>errs := h\<rparr>) st))"

section \<open>Scanning the arguments\<close>

definition isspace :: "char \<Rightarrow> bool" where
  "isspace ch \<longleftrightarrow> ch \<in> {CHR '' '', CHR 0x09, CHR 0x0A, CHR 0x0B, CHR 0x0C, CHR 0x0D}"

definition isdigit :: "char \<Rightarrow> bool" where
  "isdigit ch \<longleftrightarrow> 48 \<le> (of_char ch :: nat) \<and> of_char ch \<le> (57 :: nat)"

definition digit_of :: "char \<Rightarrow> int" where
  "digit_of ch = of_char ch - 48"

definition digits_value :: "string \<Rightarrow> int" where
  "digits_value ds = foldl (\<lambda>v d. 10 * v + digit_of d) 0 ds"

text \<open>\<^verbatim>\<open>%s\<close> with a buffer of \<open>n\<close> bytes: the next word, or nothing when there is none or it does not fit.\<close>

definition scan_word :: "nat \<Rightarrow> string \<Rightarrow> (string \<times> string) option" where
  "scan_word n cs =
     (let cs = dropWhile isspace cs; w = takeWhile (\<lambda>ch. \<not> isspace ch) cs in
      if w = [] \<or> length w \<ge> n then None else Some (w, dropWhile (\<lambda>ch. \<not> isspace ch) cs))"

text \<open>\<^verbatim>\<open>%d\<close>: an optional sign and at least one digit, stored modulo \<open>2 ^ 32\<close>.\<close>

definition scan_int :: "string \<Rightarrow> u32 option" where
  "scan_int cs =
     (let cs = dropWhile isspace cs;
          neg = (cs \<noteq> [] \<and> hd cs = CHR ''-'');
          cs = (if cs \<noteq> [] \<and> (hd cs = CHR ''-'' \<or> hd cs = CHR ''+'') then tl cs else cs);
          ds = takeWhile isdigit cs in
      if ds = [] then None else Some (word_of_int (if neg then - digits_value ds else digits_value ds)))"

text \<open>\<^verbatim>\<open>sscanf_s(args, "%s %d", ip, 16, &port)\<close>: how many conversions were made, and their results.\<close>

definition sscanf_ip_port :: "string \<Rightarrow> u32 \<times> string option \<times> u32 option" where
  "sscanf_ip_port args =
     (case scan_word 16 args of
        None \<Rightarrow> (if dropWhile isspace args = [] then - 1 else 0, None, None)
      | Some (ip, left) \<Rightarrow>
        (case scan_int left of None \<Rightarrow> (1, Some ip, None) | Some p \<Rightarrow> (2, Some ip, Some p)))"

section \<open>The connector\<close>

definition coreconnector_start :: "'o modenv \<Rightarrow> nat \<Rightarrow> nat \<Rightarrow> 'o wst \<Rightarrow> (u32 \<times> 'o wst) prog" where
  "coreconnector_start M co param st =
     bnd (connector_at st co) (\<lambda>c.
     if co_socket c \<noteq> 0 then abort AssertionFailed
     else
       bnd (lg_load (lgcs st) (Some (UB2LOGIC M co))) (\<lambda>l.
       bnd (start_connet (sys M) (logic_id l) (co_ip c) (co_port c) st) (\<lambda>(err, ident, st).
       let st = (case ident of Some v \<Rightarrow> put_inst co (Some (Connector (c\<lparr>co_socket := v\<rparr>))) st | None \<Rightarrow> st) in
       if err = 0 then ret (0, st)
       else bnd (print_errno M err st) (\<lambda>st. ret (err, st)))))"

definition coreconnector_stop :: "'o modenv \<Rightarrow> nat \<Rightarrow> nat \<Rightarrow> 'o wst \<Rightarrow> (u32 \<times> 'o wst) prog" where
  "coreconnector_stop M co param st =
     bnd (connector_at st co) (\<lambda>c.
     if co_socket c \<noteq> 0 then abort AssertionFailed
     else if co_socket c = 0 then ret (0, st)
     else
       bnd (start_close (sys M) (co_socket c) st) (\<lambda>(r, st).
       ret (0, put_inst co (Some (Connector (c\<lparr>co_socket := 0\<rparr>))) st)))"

definition coreconnector_send :: "'o modenv \<Rightarrow> nat \<Rightarrow> nat \<Rightarrow> 'o wst \<Rightarrow> (u32 \<times> 'o wst) prog" where
  "coreconnector_send M co param st =
     bnd (connector_at st co) (\<lambda>c.
     bnd (param_buf st param) (\<lambda>buf.
     bnd (start_send (sys M) (co_socket c) buf st) (\<lambda>(err, st).
     if err \<noteq> 0 then bnd (print_errno M err st) (\<lambda>st. ret (err, st)) else ret (err, st))))"

text \<open>The table has three entries; the test admits \<^verbatim>\<open>connector_max\<close>, which is 3, and every negative number.\<close>

definition coreconnector_cmd_handler :: "'o modenv \<Rightarrow> nat \<Rightarrow> u32 \<Rightarrow> nat \<Rightarrow> 'o wst \<Rightarrow> (u32 \<times> 'o wst) prog" where
  "coreconnector_cmd_handler M lgc cmd param st =
     bnd (lg_load (lgcs st) (Some lgc)) (\<lambda>l.
     if sint cmd \<le> 3 then
       (if cmd = 0 then coreconnector_start M (lg_inst l) param st
        else if cmd = 1 then coreconnector_stop M (lg_inst l) param st
        else if cmd = 2 then coreconnector_send M (lg_inst l) param st
        else abort OutOfBounds)
     else ret (- 1, st))"

definition connector_release :: "nat \<Rightarrow> 'o wst \<Rightarrow> 'o wst prog" where
  "connector_release ins st = ret (put_inst ins None st)"

definition connector_create :: "'o wst \<Rightarrow> (nat option \<times> 'o wst) prog" where
  "connector_create st =
     (let a = brk (rest st) in
      ret (Some a, onnet (\<lambda>n. n\<lparr>brk := a + 1\<rparr>) (put_inst a (Some (Connector
        \<lparr>co_ip = [], co_port = 0, co_socket = 0, co_on_connect = None, co_on_recv = None, co_on_socketerr = None\<rparr>)) st)))"

text \<open>The cases have no \<^verbatim>\<open>break\<close> between them.\<close>

definition coreconnector_logic_handler :: "'o modenv \<Rightarrow> nat \<Rightarrow> nat \<Rightarrow> u32 \<Rightarrow> u32 \<Rightarrow> nat \<Rightarrow> u32 \<Rightarrow> 'o wst \<Rightarrow> 'o wst prog" where
  "coreconnector_logic_handler M io lgc sender session data sz st =
     bnd (lg_load (lgcs st) (Some lgc)) (\<lambda>l.
     bnd (connector_at st (lg_inst l)) (\<lambda>c.
     case sdata (rest st) data of None \<Rightarrow> abort WildPointer
     | Some m \<Rightarrow>
       let recv = (\<lambda>st. case co_on_recv c of None \<Rightarrow> ret st
             | Some f \<Rightarrow> (case sm_listenid m of None \<Rightarrow> abort Uninitialised | Some v \<Rightarrow> protocol M (On_recv f (sm_id m) v) st));
           socketerr = (\<lambda>st. bnd (case co_on_socketerr c of None \<Rightarrow> ret st
             | Some f \<Rightarrow> protocol M (On_socketerr f (sm_id m) (sm_err m)) st) recv);
           connect = (\<lambda>st. bnd (case co_on_connect c of None \<Rightarrow> ret st
             | Some f \<Rightarrow> protocol M (On_connect f (sm_id m) (sm_err m)) st) socketerr) in
       (case sm_type m of
          socketmsg_connect \<Rightarrow> connect st
        | socketmsg_socketerr \<Rightarrow> socketerr st
        | socketmsg_recv \<Rightarrow> recv st
        | _ \<Rightarrow> ret st)))"

text \<open>The numbers stand for the addresses of the handlers: 1 the connector's, 2 the listener's.\<close>

definition connector_init :: "'o modenv \<Rightarrow> nat \<Rightarrow> nat \<Rightarrow> nat \<Rightarrow> 'o wst \<Rightarrow> (u32 \<times> 'o wst) prog" where
  "connector_init M ins lgc param st =
     bnd (param_str st param) (\<lambda>args.
     bnd (connector_at st ins) (\<lambda>c.
     let (r, ip, p) = sscanf_ip_port args;
         c = (case ip of Some i \<Rightarrow> c\<lparr>co_ip := i\<rparr> | None \<Rightarrow> c);
         c = (case p of Some v \<Rightarrow> c\<lparr>co_port := v\<rparr> | None \<Rightarrow> c);
         st = put_inst ins (Some (Connector c)) st in
     if r \<noteq> 2 then ret (- 1, st)
     else
       bnd (lg_load (lgcs st) (Some lgc)) (\<lambda>l.
       ret (0, st\<lparr>lgcs := (lgcs st)(lgc \<mapsto> l\<lparr>lg_call := Some 1, lg_cmd := Some 1\<rparr>)\<rparr>))))"

definition connector_module :: "'o modenv \<Rightarrow> 'o world core_module" where
  "connector_module M = \<lparr>md_name = ''connector'', md_create = connector_create, md_init = connector_init M, md_release = connector_release\<rparr>"

section \<open>The listener\<close>

definition corelistener_start :: "'o modenv \<Rightarrow> nat \<Rightarrow> nat \<Rightarrow> 'o wst \<Rightarrow> (u32 \<times> 'o wst) prog" where
  "corelistener_start M co param st =
     bnd (listener_at st co) (\<lambda>c.
     if li_socket c \<noteq> 0 then abort AssertionFailed
     else
       bnd (lg_load (lgcs st) (Some (UB2LOGIC M co))) (\<lambda>l.
       bnd (start_listen (sys M) (logic_id l) (li_ip c) (li_port c) 1024 st) (\<lambda>(err, ident, st).
       let st = (case ident of Some v \<Rightarrow> put_inst co (Some (Listener (c\<lparr>li_socket := v\<rparr>))) st | None \<Rightarrow> st) in
       if err = 0 then ret (0, st)
       else bnd (print_errno M err st) (\<lambda>st. ret (err, st)))))"

definition corelistener_stop :: "'o modenv \<Rightarrow> nat \<Rightarrow> nat \<Rightarrow> 'o wst \<Rightarrow> (u32 \<times> 'o wst) prog" where
  "corelistener_stop M co param st =
     bnd (listener_at st co) (\<lambda>c.
     if li_socket c \<noteq> 0 then abort AssertionFailed
     else if li_socket c = 0 then ret (0, st)
     else
       bnd (start_close (sys M) (li_socket c) st) (\<lambda>(r, st).
       ret (0, put_inst co (Some (Listener (c\<lparr>li_socket := 0\<rparr>))) st)))"

definition corelistener_send :: "'o modenv \<Rightarrow> nat \<Rightarrow> nat \<Rightarrow> 'o wst \<Rightarrow> (u32 \<times> 'o wst) prog" where
  "corelistener_send M co param st =
     bnd (listener_at st co) (\<lambda>c.
     bnd (param_buf st param) (\<lambda>buf.
     bnd (start_send (sys M) (li_socket c) buf st) (\<lambda>(err, st).
     if err \<noteq> 0 then bnd (print_errno M err st) (\<lambda>st. ret (err, st)) else ret (err, st))))"

definition corelistener_cmd_handler :: "'o modenv \<Rightarrow> nat \<Rightarrow> u32 \<Rightarrow> nat \<Rightarrow> 'o wst \<Rightarrow> (u32 \<times> 'o wst) prog" where
  "corelistener_cmd_handler M lgc cmd param st =
     bnd (lg_load (lgcs st) (Some lgc)) (\<lambda>l.
     if sint cmd \<le> 3 then
       (if cmd = 0 then corelistener_start M (lg_inst l) param st
        else if cmd = 1 then corelistener_stop M (lg_inst l) param st
        else if cmd = 2 then corelistener_send M (lg_inst l) param st
        else abort OutOfBounds)
     else ret (- 1, st))"

definition listener_release :: "nat \<Rightarrow> 'o wst \<Rightarrow> 'o wst prog" where
  "listener_release ins st = ret (put_inst ins None st)"

definition listener_create :: "'o wst \<Rightarrow> (nat option \<times> 'o wst) prog" where
  "listener_create st =
     (let a = brk (rest st) in
      ret (Some a, onnet (\<lambda>n. n\<lparr>brk := a + 1\<rparr>) (put_inst a (Some (Listener
        \<lparr>li_ip = [], li_port = 0, li_socket = 0, li_on_connect = None, li_on_recv = None, li_on_socketerr = None\<rparr>)) st)))"

text \<open>Here the callbacks are called without a test for null.\<close>

definition corelistener_logic_handler :: "'o modenv \<Rightarrow> nat \<Rightarrow> nat \<Rightarrow> u32 \<Rightarrow> u32 \<Rightarrow> nat \<Rightarrow> u32 \<Rightarrow> 'o wst \<Rightarrow> 'o wst prog" where
  "corelistener_logic_handler M io lgc sender session data sz st =
     bnd (lg_load (lgcs st) (Some lgc)) (\<lambda>l.
     bnd (listener_at st (lg_inst l)) (\<lambda>c.
     case sdata (rest st) data of None \<Rightarrow> abort WildPointer
     | Some m \<Rightarrow>
       let recv = (\<lambda>st. case li_on_recv c of None \<Rightarrow> abort NullDeref
             | Some f \<Rightarrow> (case sm_listenid m of None \<Rightarrow> abort Uninitialised | Some v \<Rightarrow> protocol M (On_recv f (sm_id m) v) st));
           socketerr = (\<lambda>st. bnd (case li_on_socketerr c of None \<Rightarrow> abort NullDeref
             | Some f \<Rightarrow> protocol M (On_socketerr f (sm_id m) (sm_err m)) st) recv);
           connect = (\<lambda>st. bnd (case li_on_connect c of None \<Rightarrow> abort NullDeref
             | Some f \<Rightarrow> protocol M (On_connect f (sm_id m) (sm_err m)) st) socketerr) in
       (case sm_type m of
          socketmsg_connect \<Rightarrow> connect st
        | socketmsg_socketerr \<Rightarrow> socketerr st
        | socketmsg_recv \<Rightarrow> recv st
        | _ \<Rightarrow> ret st)))"

definition listener_init :: "'o modenv \<Rightarrow> nat \<Rightarrow> nat \<Rightarrow> nat \<Rightarrow> 'o wst \<Rightarrow> (u32 \<times> 'o wst) prog" where
  "listener_init M ins lgc param st =
     bnd (param_str st param) (\<lambda>args.
     bnd (listener_at st ins) (\<lambda>c.
     let (r, ip, p) = sscanf_ip_port args;
         c = (case ip of Some i \<Rightarrow> c\<lparr>li_ip := i\<rparr> | None \<Rightarrow> c);
         c = (case p of Some v \<Rightarrow> c\<lparr>li_port := v\<rparr> | None \<Rightarrow> c);
         st = put_inst ins (Some (Listener c)) st in
     if r \<noteq> 2 then ret (- 1, st)
     else
       bnd (lg_load (lgcs st) (Some lgc)) (\<lambda>l.
       ret (0, st\<lparr>lgcs := (lgcs st)(lgc \<mapsto> l\<lparr>lg_call := Some 2, lg_cmd := Some 2\<rparr>)\<rparr>))))"

definition listener_module :: "'o modenv \<Rightarrow> 'o world core_module" where
  "listener_module M = \<lparr>md_name = ''listener'', md_create = listener_create, md_init = listener_init M, md_release = listener_release\<rparr>"

section \<open>The programs\<close>

definition all_modules :: "'o modenv \<Rightarrow> 'o world core_module option list" where
  "all_modules M = [Some (connector_module M), Some (listener_module M), None]"

text \<open>What the numbers in the fields \<^verbatim>\<open>cmd\<close> and \<^verbatim>\<open>call\<close> of a logic object stand for.\<close>

definition commands :: "'o modenv \<Rightarrow> nat \<Rightarrow> nat \<Rightarrow> u32 \<Rightarrow> nat \<Rightarrow> 'o wst \<Rightarrow> (u32 \<times> 'o wst) prog" where
  "commands M f = (if f = 1 then coreconnector_cmd_handler M else corelistener_cmd_handler M)"

definition logic_handlers :: "'o modenv \<Rightarrow> nat \<Rightarrow> nat \<Rightarrow> nat \<Rightarrow> u32 \<Rightarrow> u32 \<Rightarrow> nat \<Rightarrow> u32 \<Rightarrow> 'o wst \<Rightarrow> 'o wst prog" where
  "logic_handlers M f = (if f = 1 then coreconnector_logic_handler M else corelistener_logic_handler M)"

text \<open>A poller of the program's own, with one worker.\<close>

definition main_poller :: "'o modenv \<Rightarrow> 'o wst \<Rightarrow> (nat \<times> 'o wst) prog" where
  "main_poller M st =
     (let (h, st) = callos (sys_new_port (sys M)) st; s = os (rest st) in
      case corepoller_new h (junk_word (sys M) s) (sys_time (sys M) s) of
        None \<Rightarrow> abort AssertionFailed
      | Some p \<Rightarrow>
        let io = brk (rest st) in
        ret (io, onnet (\<lambda>n. n\<lparr>pollers := (pollers n)(io \<mapsto> corepoller_start_thread p 1), brk := io + 1\<rparr>) st))"

text \<open>
  Both programs: start the server, create one logic object, start it, wait for a key, and take everything down again.
  The string of the arguments is at \<open>args\<close>; \<open>meanwhile\<close> is what the workers do while the program waits, until the key is pressed and
  in \<^verbatim>\<open>corepoller_stop_thread\<close> until \<^verbatim>\<open>quited\<close> is set. What they do before the wait for the key is counted to it.
\<close>

definition run_main ::
  "'o modenv \<Rightarrow> u32 \<Rightarrow> string \<Rightarrow> nat \<Rightarrow> ('o wst \<Rightarrow> 'o wst prog) \<Rightarrow> 'o wst \<Rightarrow> (u32 \<times> 'o wst) prog" where
  "run_main M thr name args meanwhile st =
     bnd (start_socketserver (sys M) thr st) (\<lambda>(r, st).
     bnd (main_poller M st) (\<lambda>(io, st).
     bnd (corelogic_new (all_modules M) io name args st) (\<lambda>(lgc, st).
     bnd (case lgc of None \<Rightarrow> abort NullDeref | Some p \<Rightarrow> ret p) (\<lambda>p.
     bnd (corelogic_cmd (commands M) p 0 0 st) (\<lambda>(r, st).
     bnd (meanwhile st) (\<lambda>st.
     bnd (corelogic_cmd (commands M) p 1 0 st) (\<lambda>(r, st).
     bnd (corelogic_release (all_modules M) p st) (\<lambda>st.
     bnd (poller_at st io) (\<lambda>pl.
     bnd (meanwhile (set_poller io (corepoller_stop_thread pl) st)) (\<lambda>st.
     bnd (poller_at st io) (\<lambda>pl.
     bnd (if stop_returns pl then ret () else diverge) (\<lambda>_.
     bnd (corepoller_delete pl) (\<lambda>_.
     bnd (stop_socketserver (sys M) st) (\<lambda>(r, st).
     ret (1, st)))))))))))))))"

definition client_main where
  "client_main M args meanwhile st = run_main M 3 ''connector'' args meanwhile st"

definition server_main where
  "server_main M args meanwhile st = run_main M 1 ''listener'' args meanwhile st"

end
