(* ===== verification/EndpointProps.thy ===== *)
theory EndpointProps
  imports CoreEndpoint
begin

text \<open>
  What the modules and the programs do: the arguments of a module are read back from the text they were printed to,
  a created connector is registered and armed with what its arguments say, a message runs through the
  cases of the handler, and neither program comes to its regular end.
\<close>

section \<open>Arguments\<close>

fun show_nat :: "nat \<Rightarrow> string" where
  "show_nat n = (if n < 10 then [char_of (48 + n)] else show_nat (n div 10) @ [char_of (48 + n mod 10)])"

declare show_nat.simps [simp del]

lemma of_char_digit: "d < 10 \<Longrightarrow> of_char (char_of (48 + d :: nat)) = (48 + d)"
  by simp

lemma digit_of_digit: "d < 10 \<Longrightarrow> digit_of (char_of (48 + d :: nat)) = int d"
  using of_nat_of_char [where 'a = int, of "char_of (48 + d)"] by (simp add: digit_of_def)

lemma isdigit_digit: "d < 10 \<Longrightarrow> isdigit (char_of (48 + d :: nat))"
  by (simp add: isdigit_def)

lemma show_nat_digits: "\<forall>ch\<in>set (show_nat n). isdigit ch"
  by (induction n rule: show_nat.induct) (subst show_nat.simps, auto simp: isdigit_digit)

lemma show_nat_not_Nil [simp]: "show_nat n \<noteq> []"
  by (subst show_nat.simps) simp

lemma digits_value_snoc: "digits_value (ds @ [d]) = 10 * digits_value ds + digit_of d"
  by (simp add: digits_value_def)

lemma digits_value_show: "digits_value (show_nat n) = int n"
proof (induction n rule: show_nat.induct)
  case (1 n)
  show ?case
  proof (cases "n < 10")
    case True
    then show ?thesis by (subst show_nat.simps) (simp add: digits_value_def digit_of_digit)
  next
    case False
    have "int n = 10 * int (n div 10) + int (n mod 10)" by presburger
    then show ?thesis using 1 False by (subst show_nat.simps) (simp add: digits_value_snoc digit_of_digit)
  qed
qed

lemma isdigit_not_space: "isdigit ch \<Longrightarrow> \<not> isspace ch"
  by (auto simp: isdigit_def isspace_def)

lemma takeWhile_digits: "takeWhile isdigit (show_nat n) = show_nat n"
  using show_nat_digits [of n] by (simp add: takeWhile_eq_all_conv)

lemma show_nat_hd: "isdigit (hd (show_nat n))"
  using show_nat_digits [of n] by simp

lemma scan_int_show: "scan_int (CHR '' '' # show_nat n) = Some (of_nat n)"
proof -
  have s: "dropWhile isspace (CHR '' '' # show_nat n) = show_nat n"
    using show_nat_hd [of n] isdigit_not_space by (cases "show_nat n") (auto simp: isspace_def)
  have h: "hd (show_nat n) \<noteq> CHR ''-''" "hd (show_nat n) \<noteq> CHR ''+''"
    using show_nat_hd [of n] by (auto simp: isdigit_def)
  show ?thesis unfolding scan_int_def s Let_def using h by (simp add: takeWhile_digits digits_value_show)
qed

text \<open>
  The arguments of a module survive printing and scanning: an address without blanks of at most 15 characters
  and a port printed in decimal after a blank come back as they were.
\<close>

theorem sscanf_printed:
  assumes "ip \<noteq> []" "\<forall>ch\<in>set ip. \<not> isspace ch" "length ip < 16"
  shows "sscanf_ip_port (ip @ CHR '' '' # show_nat n) = (2, Some ip, Some (of_nat n))"
proof -
  have "dropWhile isspace (ip @ CHR '' '' # show_nat n) = ip @ CHR '' '' # show_nat n"
    using assms(1,2) by (cases ip) simp_all
  moreover have "takeWhile (\<lambda>ch. \<not> isspace ch) (ip @ CHR '' '' # show_nat n) = ip"
    "dropWhile (\<lambda>ch. \<not> isspace ch) (ip @ CHR '' '' # show_nat n) = CHR '' '' # show_nat n"
    using assms(2) by (simp_all add: isspace_def)
  ultimately show ?thesis using assms(1,3) by (simp add: sscanf_ip_port_def scan_word_def scan_int_show)
qed

theorem sscanf_printed_witness: "sscanf_ip_port (''127.0.0.1'' @ CHR '' '' # show_nat 10000) = (2, Some ''127.0.0.1'', Some 10000)"
  using sscanf_printed [of "''127.0.0.1''" 10000] by (simp add: isspace_def)

section \<open>What the program leaves alone\<close>

text \<open>
  \<open>process_ok\<close>: the timer of every poller is well formed, and the module field of every logic object is what it was when the object was
  allocated, since no code assigns it.
\<close>

definition process_ok :: "('o, 'z) nst \<Rightarrow> bool" where
  "process_ok st \<longleftrightarrow> (\<forall>a p. pollers (rest st) a = Some p \<longrightarrow> (\<exists>C. timer_ok (cp_timer p) C)) \<and>
     (\<forall>a l. lgcs st a = Some l \<longrightarrow> lg_mod l = None)"

lemma process_ok_onnet [simp]: "(\<And>n. pollers (f n) = pollers n) \<Longrightarrow> process_ok (onnet f st) = process_ok st"
  by (simp add: process_ok_def onnet_def)

lemma process_ok_steps [simp]: "process_ok (mod_sock i g st) = process_ok st" "process_ok (onos h st) = process_ok st"
  "process_ok (reset_socket_ctx i c st) = process_ok st"
  by (simp_all add: mod_sock_def onos_def reset_socket_ctx_def)

lemma process_ok_put_inst [simp]: "process_ok (put_inst a v st) = process_ok st"
  by (simp add: put_inst_def)

lemma process_ok_rest: "rest st' = rest st \<Longrightarrow> lgcs st' = lgcs st \<Longrightarrow> process_ok st' = process_ok st"
  by (simp add: process_ok_def)

lemma process_ok_lgcs: "process_ok st \<Longrightarrow> lg_mod l = None \<Longrightarrow> process_ok (st\<lparr>lgcs := (lgcs st)(a \<mapsto> l)\<rparr>)"
  by (simp add: process_ok_def)

lemma process_ok_poller: "process_ok st \<Longrightarrow> timer_ok (cp_timer p) C \<Longrightarrow> process_ok (set_poller io p st)"
  by (auto simp: process_ok_def set_poller_def onnet_def)

lemma process_ok_at: "process_ok st \<Longrightarrow> poller_at st io = ret p \<Longrightarrow> \<exists>C. timer_ok (cp_timer p) C"
  by (auto simp: process_ok_def poller_at_def split: option.splits)

lemma callos_keeps: "callos f st = (x, st') \<Longrightarrow> process_ok st' = process_ok st"
  by (auto simp: callos_eq)

lemma reserve_loop_keeps: "reserve_loop k st = (x, st') \<Longrightarrow> process_ok st' = process_ok st"
proof (induction k arbitrary: st)
  case (Suc k)
  then show ?case by (auto simp: Let_def split: if_splits dest!: Suc.IH)
qed auto

text \<open>\<open>yields P m\<close>: whatever \<open>m\<close> returns, if it returns, satisfies \<open>P\<close>.\<close>

definition yields :: "('a \<Rightarrow> bool) \<Rightarrow> 'a prog \<Rightarrow> bool" where
  "yields P m \<longleftrightarrow> (\<forall>x. m = ret x \<longrightarrow> P x)"

lemma yields_simps [simp]: "yields P (ret x) \<longleftrightarrow> P x" "yields P (abort e)"
  "yields P (if b then m else m') \<longleftrightarrow> (if b then yields P m else yields P m')"
  by (auto simp: yields_def)

lemma yields_resetfd [simp]: "yields P (bnd (resetfd s st) f)"
  by (simp add: yields_def resetfd_def bnd_eq_ret)

lemma yields_bnd: "yields Q m \<Longrightarrow> (\<And>x. Q x \<Longrightarrow> yields P (f x)) \<Longrightarrow> yields P (bnd m f)"
  by (auto simp: yields_def bnd_eq_ret)

text \<open>The rules for results that carry a state.\<close>

abbreviation ok2 :: "'a \<times> ('o, 'z) nst \<Rightarrow> bool" where
  "ok2 r \<equiv> process_ok (snd r)"

lemma yields_bnd2: "yields ok2 m \<Longrightarrow> (\<And>x st. process_ok st \<Longrightarrow> yields P (f (x, st))) \<Longrightarrow> yields P (bnd m f)"
  by (rule yields_bnd [where Q = ok2]) auto

lemma yields_any: "(\<And>x. yields P (f x)) \<Longrightarrow> yields P (bnd m f)"
  by (rule yields_bnd [where Q = "\<lambda>_. True"]) (auto simp: yields_def)

lemma yields_bndU: "yields P (f ()) \<Longrightarrow> yields P (bnd m f)"
  by (rule yields_any) simp

lemma callos_snd [simp]: "process_ok (snd (callos f st)) = process_ok st"
  using callos_keeps [of f st] by (metis prod.collapse)

lemma yields_callos: "process_ok st \<Longrightarrow> (\<And>x y. process_ok y \<Longrightarrow> yields P (g x y)) \<Longrightarrow> yields P (case callos f st of (x, y) \<Rightarrow> g x y)"
  by (auto split: prod.splits dest!: callos_keeps)

lemma yields_addref: "process_ok st \<Longrightarrow> (\<And>x y. process_ok y \<Longrightarrow> yields P (g x y)) \<Longrightarrow> yields P (case socketcheck_addref i st of (x, y) \<Rightarrow> g x y)"
  by (auto simp: socketcheck_addref_def)

lemma yields_reserve: "process_ok st \<Longrightarrow> yields ok2 (reserve_id st)"
  by (auto simp: yields_def reserve_id_def bnd_eq_ret dest!: reserve_loop_keeps)

lemma yields_new_fd: "process_ok st \<Longrightarrow> yields ok2 (new_fd E v lgc fd add st)"
  unfolding new_fd_def Let_def
  by (intro yields_any) (auto simp: case_prod_beta)

lemma yields_delref: "process_ok st \<Longrightarrow> yields process_ok (socketcheck_delref E i r st)"
  by (auto simp: socketcheck_delref_def Let_def force_close_faults)

lemma do_listen_keeps: "process_ok st \<Longrightarrow> process_ok (snd (do_listen E host pt b st))"
  unfolding do_listen_def Let_def by (simp add: case_prod_beta)

lemma yields_do_listen: "process_ok st \<Longrightarrow> (\<And>x y. process_ok y \<Longrightarrow> yields P (g x y)) \<Longrightarrow> yields P (case do_listen E host pt b st of (x, y) \<Rightarrow> g x y)"
  using do_listen_keeps [of st E host pt b] by (auto split: prod.splits)

lemma yields_start_connet: "process_ok st \<Longrightarrow> yields (\<lambda>(e, v, st'). process_ok st') (start_connet E lgc addr pt st)"
  unfolding start_connet_def Let_def
  by (auto intro!: yields_callos yields_bnd2 [OF yields_reserve] yields_bnd2 [OF yields_new_fd] yields_bndU split: option.splits)

lemma yields_ev_listen_start: "process_ok st \<Longrightarrow> yields ok2 (ev_listen_start E i c st)"
  unfolding ev_listen_start_def Let_def
  by (auto intro!: yields_callos yields_bnd2 [OF yields_reserve] yields_bnd2 [OF yields_new_fd] yields_bndU split: option.splits)

lemma yields_start_listen: "process_ok st \<Longrightarrow> yields (\<lambda>(e, v, st'). process_ok st') (start_listen E lgc addr pt b st)"
  unfolding start_listen_def Let_def
  by (auto intro!: yields_do_listen yields_addref yields_reserve yields_new_fd
      yields_bnd2 [where P = "\<lambda>(e, v, st'). process_ok st'"] yields_bnd2 [OF yields_ev_listen_start] yields_bnd [OF yields_delref] split: option.splits)

section \<open>The programs never return\<close>

lemma yields_print_errno: "process_ok st \<Longrightarrow> yields process_ok (print_errno M err st)"
  by (auto simp: yields_def print_errno_def bnd_eq_ret)

lemma yields_start: "process_ok st \<Longrightarrow> yields ok2 (coreconnector_start M co param st)"
  "process_ok st \<Longrightarrow> yields ok2 (corelistener_start M co param st)"
  unfolding coreconnector_start_def corelistener_start_def Let_def
  by (auto intro!: yields_any [where m = "connector_at st co"] yields_any [where m = "listener_at st co"] yields_any [where m = "lg_load (lgcs st) (Some (UB2LOGIC M co))"]
      yields_bnd [OF yields_start_connet] yields_bnd [OF yields_start_listen] yields_bnd [OF yields_print_errno] split: option.splits)

lemma yields_stop: "process_ok st \<Longrightarrow> yields ok2 (coreconnector_stop M co param st)"
  "process_ok st \<Longrightarrow> yields ok2 (corelistener_stop M co param st)"
  unfolding coreconnector_stop_def corelistener_stop_def
  by (auto intro!: yields_any)

lemma yields_command:
  assumes k: "process_ok st" and c: "cmd = 0 \<or> cmd = 1"
  shows "yields ok2 (corelogic_cmd (commands M) p cmd param st)"
proof -
  have "yields ok2 (coreconnector_cmd_handler M lgc cmd param st)" "yields ok2 (corelistener_cmd_handler M lgc cmd param st)" for lgc
    unfolding coreconnector_cmd_handler_def corelistener_cmd_handler_def
    using c k by (auto intro!: yields_any yields_start yields_stop)
  then show ?thesis unfolding corelogic_cmd_def commands_def by (auto intro!: yields_any split: option.splits)
qed

lemma yields_init:
  assumes "process_ok st"
  shows "yields ok2 (connector_init M ins p param st)" "yields ok2 (listener_init M ins p param st)"
proof -
  have arm: "yields ok2 (bnd (lg_load (lgcs s) (Some p)) (\<lambda>l.
      ret (0 :: u32, s\<lparr>lgcs := (lgcs s)(p \<mapsto> l\<lparr>lg_call := c, lg_cmd := d\<rparr>)\<rparr>)))" if "process_ok s" for s :: "'a wst" and c d
    using that by (auto simp: yields_def bnd_eq_ret lg_load_def process_ok_def split: option.splits)
  show "yields ok2 (connector_init M ins p param st)" "yields ok2 (listener_init M ins p param st)"
    unfolding connector_init_def listener_init_def Let_def
    using assms by (auto intro!: arm yields_any [where m = "param_str st param"] yields_any [where m = "connector_at st ins"]
        yields_any [where m = "listener_at st ins"] split: prod.splits)
qed

lemma reg_scan_rest:
  "reg_scan st p i = ret (Some (h, st')) \<Longrightarrow> \<exists>l. lgcs st p = Some l \<and> lgcs st' = (lgcs st)(p \<mapsto> l\<lparr>logic_id := h\<rparr>) \<and> rest st' = rest st"
proof (induction st p i rule: reg_scan.induct)
  case (1 st lgc i)
  from 1(2) show ?case
    by (subst (asm) reg_scan.simps)
      (auto simp: Let_def bnd_eq_ret lg_load_def split: if_splits option.splits dest: 1(1) [OF _ refl refl])
qed

lemma resize_rest: "corelogic_store_resize st = ret st' \<Longrightarrow> lgcs st' = lgcs st \<and> rest st' = rest st"
  by (auto simp: corelogic_store_resize_def Let_def bnd_eq_ret)

lemma reg_loop_ok: "process_ok st \<Longrightarrow> yields ok2 (reg_loop st p)"
proof -
  have "process_ok st \<longrightarrow> (\<forall>h st'. out = Ok (h, st') \<longrightarrow> process_ok st')" if "reg_loop st p = Some out" for out st p
  proof (rule reg_loop.raw_induct [OF _ that], intro impI allI)
    fix f st p y h st'
    assume IH: "\<And>st p y. f st p = Some y \<Longrightarrow> process_ok st \<longrightarrow> (\<forall>h st'. y = Ok (h, st') \<longrightarrow> process_ok st')"
      and y: "bnd (reg_scan st p 0) (\<lambda>r. case r of None \<Rightarrow> bnd (corelogic_store_resize st) (\<lambda>st. f st p) | Some x \<Rightarrow> ret x) = Some y"
      and ok: "process_ok st" and out: "y = Ok (h, st')"
    have "bnd (reg_scan st p 0) (\<lambda>r. case r of None \<Rightarrow> bnd (corelogic_store_resize st) (\<lambda>st. f st p) | Some x \<Rightarrow> ret x) = ret (h, st')"
      using y out by (simp add: ret_def)
    then consider "reg_scan st p 0 = ret (Some (h, st'))"
      | st1 where "corelogic_store_resize st = ret st1" "f st1 p = ret (h, st')"
      by (auto simp: bnd_eq_ret split: option.splits)
    then show "process_ok st'"
    proof cases
      case 1
      then show ?thesis using reg_scan_rest [OF 1] ok by (auto simp: process_ok_def split: if_splits)
    next
      case 2
      then show ?thesis using IH [of st1 p] resize_rest [OF 2(1)] process_ok_rest ok by (auto simp: ret_def)
    qed
  qed
  from this [of st p] show "process_ok st \<Longrightarrow> yields ok2 (reg_loop st p)" by (auto simp: yields_def ret_def)
qed

lemma query_in_table: "coremodule_query (all_modules M) name = ret (Some k) \<Longrightarrow> k = 0 \<or> k = 1"
  by (auto simp: coremodule_query_def all_modules_def split: if_splits)

lemma yields_new: "process_ok st \<Longrightarrow> yields ok2 (corelogic_new (all_modules M) io name args st)"
proof -
  assume ok: "process_ok st"
  let ?l = "\<lambda>ins. \<lparr>lg_ref = 1, logic_id = 0, lg_mod = None, lg_inst = ins, lg_call = None, lg_cmd = None, lg_io = io\<rparr>"
  have create: "yields ok2 (connector_create st)" "yields ok2 (listener_create st)"
    using ok by (simp_all add: connector_create_def listener_create_def Let_def)
  have reg: "yields ok2 (corelogic_store_reg (s\<lparr>lgcs := (lgcs s)(p \<mapsto> ?l ins), lg_brk := b\<rparr>) (Some p))" if "process_ok s" for s :: "'a wst" and p ins b
    unfolding corelogic_store_reg_def option.case using that by (intro reg_loop_ok) (simp add: process_ok_def)
  have "yields ok2 (bnd (md_create md st) (\<lambda>(inst, st). case inst of None \<Rightarrow> ret (None, st)
      | Some inst \<Rightarrow> bnd (corelogic_store_reg (st\<lparr>lgcs := (lgcs st)(lg_brk st \<mapsto> ?l inst), lg_brk := lg_brk st + 1\<rparr>) (Some (lg_brk st)))
          (\<lambda>(handle, s). bnd (md_init md inst (lg_brk st) args s) (\<lambda>(r, s). ret (Some (lg_brk st), s)))))"
    if "md = connector_module M \<or> md = listener_module M" for md
    using that create by (auto simp: connector_module_def listener_module_def intro!: yields_bnd2 [OF create(1)] yields_bnd2 [OF create(2)]
        yields_bnd2 [OF reg] yields_bnd2 [OF yields_init(1)] yields_bnd2 [OF yields_init(2)] split: option.splits)
  then have new: "yields ok2 (case all_modules M ! k of None \<Rightarrow> abort NullDeref | Some md \<Rightarrow>
      bnd (md_create md st) (\<lambda>(inst, st). case inst of None \<Rightarrow> ret (None, st)
      | Some inst \<Rightarrow> bnd (corelogic_store_reg (st\<lparr>lgcs := (lgcs st)(lg_brk st \<mapsto> ?l inst), lg_brk := lg_brk st + 1\<rparr>) (Some (lg_brk st)))
          (\<lambda>(handle, s). bnd (md_init md inst (lg_brk st) args s) (\<lambda>(r, s). ret (Some (lg_brk st), s)))))" if "k = 0 \<or> k = 1" for k
    using that by (auto simp: all_modules_def)
  have "yields (\<lambda>q. \<forall>k. q = Some k \<longrightarrow> k = 0 \<or> k = 1) (coremodule_query (all_modules M) name)"
    by (auto simp: yields_def dest: query_in_table)
  then show ?thesis unfolding corelogic_new_def Let_def
    by (rule yields_bnd) (use ok new in \<open>auto split: option.splits\<close>)
qed

lemma yields_release: "process_ok st \<Longrightarrow> yields process_ok (corelogic_release mods p st)"
proof -
  assume ok: "process_ok st"
  show ?thesis
  proof (cases "lgcs st p")
    case (Some l)
    then have "lg_mod l = None" using ok by (simp add: process_ok_def)
    then show ?thesis using Some ok
      by (auto simp: corelogic_release_def lg_load_def Let_def process_ok_lgcs intro!: yields_any)
  qed (simp add: corelogic_release_def lg_load_def)
qed

lemma yields_grub: "process_ok st \<Longrightarrow> yields ok2 (corelogic_grub ident st)"
proof -
  assume ok: "process_ok st"
  have "yields (\<lambda>l. lg_mod l = None) (lg_load (lgcs st) (Some a))" for a
    using ok by (auto simp: yields_def lg_load_def process_ok_def split: option.splits)
  then show ?thesis unfolding corelogic_grub_def
    using ok by (auto intro!: yields_any [where m = "slot_read _ _"] yields_bnd process_ok_lgcs split: option.splits)
qed

text \<open>The delivery of a report, which keeps a reference, leaves the process as it should be, as long as the callbacks of the protocol do.\<close>

lemma yields_delivery:
  assumes ok: "process_ok st" and p: "\<And>c s. process_ok s \<Longrightarrow> yields process_ok (protocol M c s)"
  shows "yields process_ok (default_logicmsg_handler (logic_handlers M) io ctx st)"
proof -
  have connector: "yields process_ok (coreconnector_logic_handler M io a sender session data sz s)" if "process_ok s" for a sender session data sz s
    unfolding coreconnector_logic_handler_def Let_def using that p
    by (auto intro!: yields_any [where m = "lg_load _ _"] yields_any [where m = "connector_at _ _"] yields_bnd [where Q = process_ok]
        split: option.splits socketmsg_type.splits)
  have listener: "yields process_ok (corelistener_logic_handler M io a sender session data sz s)" if "process_ok s" for a sender session data sz s
    unfolding corelistener_logic_handler_def Let_def using that p
    by (auto intro!: yields_any [where m = "lg_load _ _"] yields_any [where m = "listener_at _ _"] yields_bnd [where Q = process_ok]
        split: option.splits socketmsg_type.splits)
  show ?thesis unfolding default_logicmsg_handler_def logic_handlers_def
    by (rule yields_bnd2 [OF yields_grub [OF ok]])
      (auto intro!: yields_any [where m = "lg_load _ _"] connector listener split: option.splits)
qed

lemma start_thread_timer: "cp_timer (corepoller_start_thread p n) = cp_timer p" "cp_timer (corepoller_stop_thread p) = cp_timer p"
  by (simp_all add: corepoller_start_thread_def corepoller_stop_thread_def Let_def)

lemma new_poller_ok: "corepoller_new h junk filetime = Some p \<Longrightarrow> \<exists>C. timer_ok (cp_timer p) C"
  using coretimer_new_ok [of filetime] by (auto simp: corepoller_new_def split: if_splits)

lemma yields_poller_at:
  assumes "process_ok st" "\<And>p C. timer_ok (cp_timer p) C \<Longrightarrow> yields P (f p)"
  shows "yields P (bnd (poller_at st io) f)"
  using assms(2) process_ok_at [OF assms(1)] unfolding yields_def bnd_eq_ret by metis

lemma process_ok_new_poller:
  "process_ok st \<Longrightarrow> timer_ok (cp_timer p) C \<Longrightarrow> (\<And>n. pollers (f n) = (pollers n)(io \<mapsto> p)) \<Longrightarrow> process_ok (onnet f st)"
  by (auto simp: process_ok_def onnet_def)

lemma yields_start_socketserver: "process_ok st \<Longrightarrow> yields ok2 (start_socketserver E thr st)"
proof -
  assume ok: "process_ok st"
  have set: "yields ok2 (case IO (rest s) of None \<Rightarrow> abort AssertionFailed
      | Some io \<Rightarrow> bnd (poller_at s io) (\<lambda>p. ret (0 :: u32, set_poller io (corepoller_start_thread p (ucast thr)) s)))"
    if "process_ok s" for s :: "('a, 'b) nst"
    using that by (auto intro!: yields_poller_at process_ok_poller simp: start_thread_timer split: option.splits)
  have w: "process_ok (wsa_init E st)" using ok by (simp add: wsa_init_def Let_def case_prod_beta)
  show ?thesis
  proof (cases "IO (rest (wsa_init E st))")
    case (Some io)
    then show ?thesis unfolding start_socketserver_def using set [OF w] by (simp add: Let_def)
  next
    case None
    obtain h s where c: "callos (sys_new_port E) (wsa_init E st) = (h, s)" by (cases "callos (sys_new_port E) (wsa_init E st)")
    have s: "process_ok s" using callos_keeps [OF c] w by simp
    show ?thesis
    proof (cases "corepoller_new h (junk_word E (os (rest s))) (sys_time E (os (rest s)))")
      case p: None
      then show ?thesis unfolding start_socketserver_def using None c s by (simp add: Let_def)
    next
      case (Some p)
      let ?s = "onnet (\<lambda>n. n\<lparr>ss_alloc_id := 0, ss_slot := (\<lambda>_. socket_zero), pollers := (pollers n)(brk (rest s) \<mapsto> p),
          brk := brk (rest s) + 1, IO := Some (brk (rest s))\<rparr>) s"
      obtain C where "timer_ok (cp_timer p) C" using new_poller_ok [OF Some] by blast
      then have "process_ok ?s" using s by (auto intro: process_ok_new_poller)
      from set [OF this] show ?thesis unfolding start_socketserver_def using None c Some by (simp add: Let_def)
    qed
  qed
qed

lemma yields_main_poller: "process_ok st \<Longrightarrow> yields ok2 (main_poller M st)"
  unfolding main_poller_def Let_def
  by (intro yields_callos) (auto split: option.splits dest!: new_poller_ok intro!: process_ok_new_poller [where p = "corepoller_start_thread _ 1"] simp: start_thread_timer)

text \<open>
  C39. Neither program comes to its regular end. Whatever the system answers, and whatever the workers do while the program waits for its key
  and for them to end, reference counts that they leak included, as long as the timers stay well formed and nothing assigns the module field of
  a logic object: the client and the server fault, or spin for ever in one of the waits or, at the latest, in the deletion of the poller's timer.
\<close>

theorem programs_never_return:
  assumes "process_ok st" and workers: "\<And>s s'. meanwhile s = ret s' \<Longrightarrow> process_ok s \<Longrightarrow> process_ok s'"
  shows "client_main M args meanwhile st \<noteq> ret x \<and> server_main M args meanwhile st \<noteq> ret x"
proof -
  have idle: "yields process_ok (meanwhile s)" if "process_ok s" for s
    using workers [OF _ that] by (auto simp: yields_def)
  have delete: "yields P (bnd (corepoller_delete pl) f)" if "timer_ok (cp_timer pl) C" for P f pl C
    using coretimer_delete_diverges [OF that] by (simp add: corepoller_delete_def yields_def bnd_eq_ret diverge_def ret_def)
  have "yields (\<lambda>_. False) (run_main M thr name args meanwhile st)" for thr name
    unfolding run_main_def
    by (auto intro!: yields_bnd2 [OF yields_start_socketserver [OF assms(1)]] yields_bnd2 [OF yields_main_poller] yields_bnd2 [OF yields_new]
        yields_bnd2 [OF yields_command] yields_bnd [OF idle] yields_bnd [OF yields_release] yields_poller_at process_ok_poller delete
        yields_any [where m = "case _ of None \<Rightarrow> abort NullDeref | Some p \<Rightarrow> ret p"] yields_any [where m = "if _ then ret () else diverge"]
        simp: start_thread_timer)
  then show ?thesis by (simp add: client_main_def server_main_def yields_def del: split_paired_All)
qed

section \<open>Dispatch\<close>

text \<open>
  Message handlers without a break: the report of a connection runs the callback for errors too, with the error
  number of the connection; the same report stops a listener whose callbacks nobody has set.
\<close>

lemma connector_falls_through:
  assumes "lgcs st lgc = Some l" "insts (rest st) (lg_inst l) = Some (Connector c)" "sdata (rest st) data = Some m"
    "sm_type m = socketmsg_connect" "co_on_connect c = Some f" "co_on_socketerr c = Some g" "co_on_recv c = None"
  shows "coreconnector_logic_handler M io lgc sender session data sz st =
    bnd (protocol M (On_connect f (sm_id m) (sm_err m)) st) (protocol M (On_socketerr g (sm_id m) (sm_err m)))"
  using assms by (simp add: coreconnector_logic_handler_def lg_load_def connector_at_def Let_def)

lemma listener_null_callbacks:
  assumes "lgcs st lgc = Some l" "insts (rest st) (lg_inst l) = Some (Listener c)" "sdata (rest st) data = Some m"
    "sm_type m \<in> {socketmsg_connect, socketmsg_socketerr, socketmsg_recv}"
    "li_on_connect c = None" "li_on_socketerr c = None" "li_on_recv c = None"
  shows "corelistener_logic_handler M io lgc sender session data sz st = abort NullDeref"
  using assms by (auto simp: corelistener_logic_handler_def lg_load_def listener_at_def Let_def)

lemma command_out_of_table:
  assumes "lgcs st p = Some l" "lg_cmd l = Some f" "cmd = 3 \<or> sint cmd < 0"
  shows "corelogic_cmd (commands M) p cmd param st = abort OutOfBounds"
proof -
  have "cmd \<notin> {0, 1, 2}" "sint cmd \<le> 3" using assms(3) by auto
  then show ?thesis using assms(1,2)
    by (simp add: corelogic_cmd_def lg_load_def commands_def coreconnector_cmd_handler_def corelistener_cmd_handler_def)
qed

definition calm_env :: "unit modenv" where
  "calm_env = \<lparr>sys = calm, fmt = (\<lambda>_. None), protocol = (\<lambda>_ st. ret st), UB2LOGIC = (\<lambda>a. a)\<rparr>"

definition process0 :: "unit wst" where
  "process0 = \<lparr>st_slot = [], allocid = 0, slot_size = 0, lgcs = Map.empty, lg_brk = 0,
     rest = \<lparr>ss_alloc_id = 0, ss_slot = (\<lambda>_. socket_zero), IO = None, pollers = Map.empty, msgs = Map.empty, sdata = Map.empty,
       bufs = Map.empty, brk = 1, os = (), insts = Map.empty, params = [0 \<mapsto> PStr ''127.0.0.1 10000''], errs = errhash_init\<rparr>\<rparr>"

text \<open>The workers deliver a message to the object registered under 0, with the handler of the library.\<close>

definition deliver0 :: "unit wst \<Rightarrow> unit wst prog" where
  "deliver0 = default_logicmsg_handler (logic_handlers calm_env) 1 (logicmsg_new\<lparr>lm_recver := 0\<rparr>)"

theorem programs_never_return_witness: "client_main calm_env 0 deliver0 process0 \<noteq> ret (1, process0)"
proof -
  have "process_ok s'" if "deliver0 s = ret s'" "process_ok s" for s s'
    using yields_delivery [OF that(2), of calm_env] that(1) by (auto simp: yields_def deliver0_def calm_env_def)
  moreover have "process_ok process0" by (simp add: process_ok_def process0_def)
  ultimately show ?thesis using programs_never_return [of process0 deliver0] by blast
qed

end
