(* ===== verification/StringUtil.thy ===== *)
theory StringUtil
  imports Prelude
begin

text \<open>
  Strings of C: characters and the conversions of \<^verbatim>\<open>net/stringutil.cpp\<close>, with the parts of the standard library they use. A string is the
  list of its characters without the final zero. The conversion to floating point is not modelled.
\<close>

section \<open>Characters\<close>

definition NUL :: char where
  "NUL = CHR 0x00"

definition c_isspace :: "char \<Rightarrow> bool" where
  "c_isspace ch \<longleftrightarrow> ch \<in> {CHR '' '', CHR 0x09, CHR 0x0A, CHR 0x0B, CHR 0x0C, CHR 0x0D}"

text \<open>The value of a digit in bases up to 16.\<close>

definition digit_val :: "char \<Rightarrow> nat option" where
  "digit_val ch = (let n = of_char ch :: nat in
     if 48 \<le> n \<and> n \<le> 57 then Some (n - 48)
     else if 97 \<le> n \<and> n \<le> 102 then Some (n - 87)
     else if 65 \<le> n \<and> n \<le> 70 then Some (n - 55)
     else None)"

definition is_digit_in :: "nat \<Rightarrow> char \<Rightarrow> bool" where
  "is_digit_in base ch \<longleftrightarrow> (case digit_val ch of None \<Rightarrow> False | Some d \<Rightarrow> d < base)"

definition digits_in :: "nat \<Rightarrow> string \<Rightarrow> nat" where
  "digits_in base ds = foldl (\<lambda>v d. base * v + the (digit_val d)) 0 ds"

section \<open>Formatting into an array\<close>

text \<open>The array a \<^verbatim>\<open>_snprintf\<close> writes: a text that fills the whole array gets no final zero.\<close>

definition snprintf :: "string \<Rightarrow> string \<Rightarrow> string" where
  "snprintf dst msg = (let w = take (length dst) (msg @ [NUL]) in w @ drop (length w) dst)"

section \<open>strtol with base 0\<close>

text \<open>
  The number and what follows it. The prefix chooses the base; without a digit nothing is converted and what
  follows is the whole string; a number outside the range of \<^verbatim>\<open>long\<close> gives its nearest value.
\<close>

definition strtol_base :: "string \<Rightarrow> nat \<times> string" where
  "strtol_base cs =
     (case cs of
        CHR ''0'' # x # d # r \<Rightarrow> (if (x = CHR ''x'' \<or> x = CHR ''X'') \<and> is_digit_in 16 d then (16, d # r) else (8, cs))
      | CHR ''0'' # r \<Rightarrow> (8, cs)
      | _ \<Rightarrow> (10, cs))"

definition clamp_long :: "int \<Rightarrow> int" where
  "clamp_long n = (if n > 2 ^ 31 - 1 then 2 ^ 31 - 1 else if n < - (2 ^ 31) then - (2 ^ 31) else n)"

definition strtol0 :: "string \<Rightarrow> int \<times> string" where
  "strtol0 str =
     (let cs = dropWhile c_isspace str;
          neg = (cs \<noteq> [] \<and> hd cs = CHR ''-'');
          cs = (if cs \<noteq> [] \<and> (hd cs = CHR ''-'' \<or> hd cs = CHR ''+'') then tl cs else cs);
          (base, cs) = strtol_base cs;
          ds = takeWhile (is_digit_in base) cs in
      if ds = [] then (0, str)
      else (clamp_long (if neg then - int (digits_in base ds) else int (digits_in base ds)), dropWhile (is_digit_in base) cs))"

definition tointeger :: "string \<Rightarrow> int \<Rightarrow> int" where
  "tointeger str def = (case strtol0 str of (n, endptr) \<Rightarrow> if endptr \<noteq> [] then def else n)"

section \<open>Decimal numbers\<close>

fun show_dec :: "nat \<Rightarrow> string" where
  "show_dec n = (if n < 10 then [char_of (48 + n)] else show_dec (n div 10) @ [char_of (48 + n mod 10)])"

declare show_dec.simps [simp del]

lemma digit_val_char: "d < 10 \<Longrightarrow> digit_val (char_of (48 + d :: nat)) = Some d"
  by (simp add: digit_val_def)

lemma show_dec_digits: "\<forall>ch\<in>set (show_dec n). is_digit_in 10 ch"
  by (induction n rule: show_dec.induct) (subst show_dec.simps, auto simp: is_digit_in_def digit_val_char)

lemma show_dec_not_Nil [simp]: "show_dec n \<noteq> []"
  by (subst show_dec.simps) simp

lemma digits_in_snoc: "digits_in b (ds @ [d]) = b * digits_in b ds + the (digit_val d)"
  by (simp add: digits_in_def)

lemma digits_in_show: "digits_in 10 (show_dec n) = n"
proof (induction n rule: show_dec.induct)
  case (1 n)
  show ?case
  proof (cases "n < 10")
    case True
    then show ?thesis by (subst show_dec.simps) (simp add: digits_in_def digit_val_char)
  next
    case False
    then show ?thesis using 1 by (subst show_dec.simps) (simp add: digits_in_snoc digit_val_char)
  qed
qed

lemma show_dec_first: "n > 0 \<Longrightarrow> hd (show_dec n) \<noteq> CHR ''0''"
proof (induction n rule: show_dec.induct)
  case (1 n)
  show ?case
  proof (cases "n < 10")
    case True
    have "of_char (char_of (48 + n) :: char) \<noteq> (of_char CHR ''0'' :: nat)" using 1(2) True by simp
    then have "char_of (48 + n) \<noteq> CHR ''0''" by metis
    then show ?thesis using True by (subst show_dec.simps) simp
  next
    case False
    then show ?thesis using 1 by (subst show_dec.simps) simp
  qed
qed

lemma digit_not_special: "is_digit_in 10 ch \<Longrightarrow> \<not> c_isspace ch \<and> ch \<noteq> CHR ''-'' \<and> ch \<noteq> CHR ''+''"
  by (auto simp: is_digit_in_def c_isspace_def digit_val_def)

lemma strtol_base_dec: "cs \<noteq> [] \<Longrightarrow> hd cs \<noteq> CHR ''0'' \<Longrightarrow> strtol_base cs = (10, cs)"
  by (auto simp: strtol_base_def split: list.splits char.splits bool.splits)

lemma tointeger_dec: "n > 0 \<Longrightarrow> n < 2 ^ 31 \<Longrightarrow> tointeger (show_dec n) def = int n"
proof -
  assume n: "n > 0" "n < 2 ^ 31"
  have d: "is_digit_in 10 (hd (show_dec n))" using show_dec_digits [of n] by simp
  then have s: "dropWhile c_isspace (show_dec n) = show_dec n" "hd (show_dec n) \<noteq> CHR ''-''" "hd (show_dec n) \<noteq> CHR ''+''"
    using digit_not_special [of "hd (show_dec n)"] by (cases "show_dec n"; simp)+
  have tw: "takeWhile (is_digit_in 10) (show_dec n) = show_dec n"
    using show_dec_digits [of n] by (simp only: takeWhile_eq_all_conv)
  have dw: "dropWhile (is_digit_in 10) (show_dec n) = []" using show_dec_digits [of n] by simp
  have b: "strtol_base (show_dec n) = (10, show_dec n)" by (simp add: strtol_base_dec show_dec_first n)
  have "strtol0 (show_dec n) = (int n, [])"
    unfolding strtol0_def Let_def s(1) using s(2,3) n
    by (simp add: b tw dw digits_in_show clamp_long_def del: takeWhile_eq_all_conv)
  then show ?thesis by (simp add: tointeger_def)
qed

end
