(* ===== verification/Csv.thy ===== *)
theory Csv
  imports StringUtil
begin

text \<open>
  The CSV reader of \<^verbatim>\<open>net/csv.cpp\<close> and \<^verbatim>\<open>net/csv.h\<close>. The parser works inside the caller's
  character array: cells are cut by writing zeros into it, and doubled quotes are removed by moving the
  rest of the cell to the left. The array is a list of characters, a pointer into it a position, and
  every read and write checks its bounds.
\<close>

section \<open>The array\<close>

definition rd :: "string \<Rightarrow> nat \<Rightarrow> char prog" where
  "rd b i = (if i < length b then ret (b ! i) else abort OutOfBounds)"

definition wr :: "string \<Rightarrow> nat \<Rightarrow> char \<Rightarrow> string prog" where
  "wr b i ch = (if i < length b then ret (b[i := ch]) else abort OutOfBounds)"

text \<open>The C string at a position.\<close>

definition cstr_at :: "string \<Rightarrow> nat \<Rightarrow> string" where
  "cstr_at b i = takeWhile (\<lambda>ch. ch \<noteq> NUL) (drop i b)"

definition SET_CHAR :: "string \<Rightarrow> nat \<Rightarrow> nat \<Rightarrow> char \<Rightarrow> string prog" where
  "SET_CHAR b ptr n ch = (if n \<le> ptr then wr b (ptr - n) ch else abort OutOfBounds)"

definition MV_CHAR :: "string \<Rightarrow> nat \<Rightarrow> nat \<Rightarrow> string prog" where
  "MV_CHAR b ptr n = (if n > 0 then bnd (rd b ptr) (SET_CHAR b ptr n) else ret b)"

section \<open>csv\_parse\<close>

record csv_parse =
  mem :: string
  parse_ptr :: "nat option"
  need_nextline :: bool
  perr :: string

text \<open>The contents of \<^verbatim>\<open>need_nextline\<close> is not set by the constructor; \<open>junk\<close> is what it happens to be.\<close>

definition csv_parse_new :: "bool \<Rightarrow> string \<Rightarrow> string \<Rightarrow> csv_parse" where
  "csv_parse_new junk msg err = \<lparr>mem = msg, parse_ptr = Some 0, need_nextline = junk, perr = err\<rparr>"

definition next_line :: "csv_parse \<Rightarrow> (bool \<times> csv_parse) prog" where
  "next_line p = (let p = p\<lparr>need_nextline := False\<rparr> in
     (case parse_ptr p of None \<Rightarrow> ret (False, p)
      | Some i \<Rightarrow> bnd (rd (mem p) i) (\<lambda>ch. ret (ch \<noteq> NUL, p))))"

text \<open>
  One pass through the switch at label \<^verbatim>\<open>loop\<close>: the column goes on, it is complete (with the new
  \<^verbatim>\<open>parse_ptr\<close> and whether the line is complete too), or the character is an error.
\<close>

datatype csv_act =
    Next string nat nat
  | Done string "nat option" bool
  | Parse_error string nat

definition csv_quote :: "string \<Rightarrow> bool \<Rightarrow> nat \<Rightarrow> nat \<Rightarrow> csv_act prog" where
  "csv_quote b with_quote n ptr =
     bnd (rd b (ptr + 1)) (\<lambda>ch.
       if ch = CHR '','' then
         (if \<not> with_quote then ret (Parse_error b ptr)
          else bnd (SET_CHAR b ptr n NUL) (\<lambda>b. ret (Done b (Some (ptr + 2)) False)))
       else if ch = CHR 0x0D then
         bnd (rd b (ptr + 2)) (\<lambda>ch2.
           if ch2 = CHR 0x0A then
             (if \<not> with_quote then ret (Parse_error b ptr)
              else bnd (SET_CHAR b ptr n NUL) (\<lambda>b. ret (Done b (Some (ptr + 3)) True)))
           else ret (Parse_error b ptr))
       else if ch = CHR 0x22 then
         bnd (MV_CHAR b ptr n) (\<lambda>b. ret (Next b (n + 1) (ptr + 2)))
       else ret (Parse_error b ptr))"

definition csv_step :: "string \<Rightarrow> bool \<Rightarrow> nat \<Rightarrow> nat \<Rightarrow> csv_act prog" where
  "csv_step b with_quote n ptr =
     bnd (rd b ptr) (\<lambda>ch.
       if ch = NUL then ret (Done b None False)
       else if ch = CHR 0x22 then csv_quote b with_quote n ptr
       else if ch = CHR 0x0D then
         bnd (if with_quote then ret False else bnd (rd b (ptr + 1)) (\<lambda>ch1. ret (ch1 = CHR 0x0A))) (\<lambda>eol.
           if eol then bnd (SET_CHAR b ptr n NUL) (\<lambda>b. ret (Done b (Some (ptr + 2)) True))
           else bnd (MV_CHAR b ptr n) (\<lambda>b. ret (Next b n (ptr + 1))))
       else if ch = CHR '','' \<and> \<not> with_quote then
         bnd (SET_CHAR b ptr n NUL) (\<lambda>b. ret (Done b (Some (ptr + 1)) False))
       else bnd (MV_CHAR b ptr n) (\<lambda>b. ret (Next b n (ptr + 1))))"

lemma wr_length: "wr b i ch = ret b' \<Longrightarrow> length b' = length b"
  by (auto simp: wr_def split: if_splits)

lemma SET_CHAR_length: "SET_CHAR b ptr n ch = ret b' \<Longrightarrow> length b' = length b"
  by (auto simp: SET_CHAR_def wr_length split: if_splits)

lemma MV_CHAR_length: "MV_CHAR b ptr n = ret b' \<Longrightarrow> length b' = length b"
  by (auto simp: MV_CHAR_def bnd_eq_ret SET_CHAR_length split: if_splits)

lemma rd_ret: "rd b i = ret ch \<longleftrightarrow> i < length b \<and> ch = b ! i"
  by (auto simp: rd_def)

lemmas csv_step_defs = csv_step_def csv_quote_def

lemma csv_step_Next:
  assumes "csv_step b wq n ptr = ret (Next b' n' ptr')"
  shows "ptr < length b" "length b' = length b" "ptr < ptr'"
  using assms by (auto simp: csv_step_defs bnd_eq_ret rd_ret MV_CHAR_length split: if_splits)

lemma csv_step_Done:
  assumes "csv_step b wq n ptr = ret (Done b' pp nl)"
  shows "ptr < length b" "length b' = length b" "\<forall>q. pp = Some q \<longrightarrow> ptr < q"
  using assms by (auto simp: csv_step_defs bnd_eq_ret rd_ret SET_CHAR_length split: if_splits)

function csv_loop :: "string \<Rightarrow> bool \<Rightarrow> nat \<Rightarrow> nat \<Rightarrow> csv_act prog" where
  "csv_loop b with_quote n ptr =
     (case csv_step b with_quote n ptr of
        Some (Ok (Next b' n' ptr')) \<Rightarrow> csv_loop b' with_quote n' ptr'
      | r \<Rightarrow> r)"
  by pat_completeness auto

termination
proof (relation "measure (\<lambda>(b, w, n, ptr). length b - ptr)")
  fix b wq n ptr r x b' n' ptr'
  assume "csv_step b wq n ptr = Some r" "r = Ok x" "x = Next b' n' ptr'"
  then have "csv_step b wq n ptr = ret (Next b' n' ptr')" by (simp add: ret_def)
  note csv_step_Next [OF this]
  then show "((b', wq, n', ptr'), b, wq, n, ptr) \<in> measure (\<lambda>(b, w, n, ptr). length b - ptr)" by simp
qed simp

declare csv_loop.simps [simp del]

definition unexpected :: "string \<Rightarrow> nat \<Rightarrow> string" where
  "unexpected b ptr = ''unexpected char '' @ [b ! ptr] @ '' on '' @ cstr_at b ptr"

text \<open>The result: whether there was no error, the column's position if there is one, and the parser.\<close>

definition next_column :: "csv_parse \<Rightarrow> (bool \<times> nat option \<times> csv_parse) prog" where
  "next_column p =
     (case parse_ptr p of None \<Rightarrow> ret (True, None, p)
      | Some start \<Rightarrow>
          if need_nextline p then ret (True, None, p)
          else bnd (rd (mem p) start) (\<lambda>ch.
            let with_quote = (ch = CHR 0x22); ptr = (if with_quote then start + 1 else start) in
            bnd (csv_loop (mem p) with_quote 0 ptr) (\<lambda>act.
              case act of
                Done b pp nl \<Rightarrow> ret (True, Some ptr, p\<lparr>mem := b, parse_ptr := pp, need_nextline := nl\<rparr>)
              | Parse_error b q \<Rightarrow> ret (False, None, p\<lparr>mem := b, perr := snprintf (perr p) (unexpected b q)\<rparr>)
              | Next _ _ _ \<Rightarrow> diverge)))"

lemma csv_loop_Done:
  assumes "csv_loop b wq n ptr = ret (Done b' pp nl)"
  shows "ptr < length b \<and> length b' = length b \<and> (\<forall>q. pp = Some q \<longrightarrow> ptr < q)"
  using assms
proof (induction b wq n ptr rule: csv_loop.induct)
  case (1 b wq n ptr)
  show ?case
  proof (cases "\<exists>b1 n1 ptr1. csv_step b wq n ptr = ret (Next b1 n1 ptr1)")
    case True
    then obtain b1 n1 ptr1 where s: "csv_step b wq n ptr = ret (Next b1 n1 ptr1)" by blast
    then have "csv_loop b1 wq n1 ptr1 = ret (Done b' pp nl)"
      using 1(2) by (simp add: csv_loop.simps [of b] ret_def)
    then have "ptr1 < length b1 \<and> length b' = length b1 \<and> (\<forall>q. pp = Some q \<longrightarrow> ptr1 < q)"
      using 1(1) s unfolding ret_def by blast
    then show ?thesis using csv_step_Next [OF s] by auto
  next
    case False
    then have "csv_step b wq n ptr = ret (Done b' pp nl)"
      using 1(2) by (simp add: csv_loop.simps [of b] ret_def split: option.splits outcome.splits csv_act.splits)
    from csv_step_Done [OF this] show ?thesis by auto
  qed
qed

lemma csv_loop_not_Next: "csv_loop b wq n ptr \<noteq> ret (Next b' n' ptr')"
proof (induction b wq n ptr rule: csv_loop.induct)
  case (1 b wq n ptr)
  then show ?case
    by (subst csv_loop.simps) (auto simp: ret_def split: option.splits outcome.splits csv_act.splits)
qed

section \<open>csv\<close>

text \<open>
  What a \<^verbatim>\<open>csv\<close> holds: the table of cell pointers, each into the parsed array or to the literal
  \<open>""\<close>; an entry of the allocated table is unset until it is assigned.
\<close>

datatype csv_cell = At nat | Literal_empty

record csv =
  line_cnt :: nat
  col_cnt :: nat
  cells :: "csv_cell option list option"
  csv_mem :: string
  csv_err :: string

definition csv_new :: "string \<Rightarrow> csv" where
  "csv_new junk = \<lparr>line_cnt = 0, col_cnt = 0, cells = None, csv_mem = [], csv_err = junk\<rparr>"

subsection \<open>The loops over columns and lines\<close>

definition csv_left :: "csv_parse \<Rightarrow> nat" where
  "csv_left p = (case parse_ptr p of None \<Rightarrow> 0 | Some i \<Rightarrow> Suc (length (mem p) - i))"

lemma next_column_cases:
  assumes "next_column p = ret (ok, out, p')"
  obtains (skip) "ok" "out = None" "p' = p"
  | (column) i ptr wq b pp nl where "ok" "parse_ptr p = Some i" "out = Some ptr" "i \<le> ptr"
      "csv_loop (mem p) wq 0 ptr = ret (Done b pp nl)" "p' = p\<lparr>mem := b, parse_ptr := pp, need_nextline := nl\<rparr>"
  | (error) "\<not> ok" "out = None"
proof (cases "parse_ptr p = None \<or> need_nextline p")
  case True
  then show ?thesis using assms by (intro skip) (auto simp: next_column_def split: option.splits)
next
  case False
  then obtain i where i: "parse_ptr p = Some i" by auto
  with assms False obtain ptr wq act where l: "csv_loop (mem p) wq 0 ptr = ret act" "i \<le> ptr"
    and r: "(case act of Done b pp nl \<Rightarrow> ret (True, Some ptr, p\<lparr>mem := b, parse_ptr := pp, need_nextline := nl\<rparr>)
              | Parse_error b q \<Rightarrow> ret (False, None, p\<lparr>mem := b, perr := snprintf (perr p) (unexpected b q)\<rparr>)
              | Next _ _ _ \<Rightarrow> diverge) = ret (ok, out, p')"
    by (auto simp: next_column_def bnd_eq_ret Let_def split: if_splits cong: csv_act.case_cong)
  show ?thesis
  proof (cases act)
    case (Done b pp nl)
    then show ?thesis using r l i by (intro column) auto
  qed (use r error in auto)
qed

lemma next_column_progress:
  assumes "next_column p = ret (True, Some q, p')"
  shows "csv_left p' < csv_left p"
  using assms
proof (cases rule: next_column_cases)
  case (column i ptr wq b pp nl)
  then show ?thesis using csv_loop_Done [OF column(5)] by (cases pp) (auto simp: csv_left_def)
qed simp_all

lemma next_column_None: "next_column p = ret (True, None, p') \<Longrightarrow> p' = p"
  by (erule next_column_cases) simp_all

text \<open>The loop of \<^verbatim>\<open>csv::parse\<close> over the columns of a line; the list of column nodes is the list of their positions.\<close>

function csv_columns :: "csv_parse \<Rightarrow> nat list \<Rightarrow> (bool \<times> nat list \<times> csv_parse) prog" where
  "csv_columns p cols =
     (case next_column p of
        Some (Ok (True, Some ptr, p')) \<Rightarrow> csv_columns p' (cols @ [ptr])
      | Some (Ok (ok, _, p')) \<Rightarrow> ret (ok, cols, p')
      | Some (Fault e) \<Rightarrow> abort e
      | None \<Rightarrow> diverge)"
  by pat_completeness auto

termination
  by (relation "measure (csv_left \<circ> fst)") (auto intro: next_column_progress simp: ret_def)

declare csv_columns.simps [simp del]

lemma csv_columns_left:
  assumes "csv_columns p cols = ret (True, cols', p')"
  shows "csv_left p' \<le> csv_left p"
  using assms
proof (induction p cols rule: csv_columns.induct)
  case (1 p cols)
  show ?case
  proof (cases "\<exists>ptr p1. next_column p = ret (True, Some ptr, p1)")
    case True
    then obtain ptr p1 where n: "next_column p = ret (True, Some ptr, p1)" by blast
    then have "csv_columns p1 (cols @ [ptr]) = ret (True, cols', p')"
      using 1(2) by (simp add: csv_columns.simps [of p] ret_def)
    then have "csv_left p' \<le> csv_left p1" using 1(1) n unfolding ret_def by blast
    then show ?thesis using next_column_progress [OF n] by simp
  next
    case False
    then have "\<exists>out. next_column p = ret (True, out, p')"
      using 1(2) by (auto simp: csv_columns.simps [of p] ret_def abort_def diverge_def
        split: option.splits outcome.splits prod.splits bool.splits)
    then have "next_column p = ret (True, None, p')" using False by (metis option.exhaust)
    from next_column_None [OF this] show ?thesis by simp
  qed
qed

lemma csv_columns_progress:
  assumes "csv_columns p cols = ret (True, cols', p')" "parse_ptr p = Some i" "\<not> need_nextline p"
  shows "csv_left p' < csv_left p"
proof -
  obtain ptr p1 where n: "next_column p = ret (True, Some ptr, p1)"
    using assms by (auto simp: csv_columns.simps [of p] next_column_def bnd_def Let_def ret_def abort_def diverge_def
      split: option.splits outcome.splits csv_act.splits)
  then have "csv_columns p1 (cols @ [ptr]) = ret (True, cols', p')"
    using assms(1) by (simp add: csv_columns.simps [of p] ret_def)
  then show ?thesis using csv_columns_left next_column_progress [OF n] by fastforce
qed

lemma next_line_True:
  assumes "next_line p = ret (True, p1)"
  shows "csv_left p1 = csv_left p" "\<exists>i. parse_ptr p1 = Some i" "\<not> need_nextline p1"
  using assms by (auto simp: next_line_def Let_def bnd_eq_ret csv_left_def split: option.splits)

lemma csv_lines_decreases:
  assumes "next_line p = ret (True, p1)" "csv_columns p1 [] = ret (True, cols, p2)"
  shows "csv_left p2 < csv_left p"
  using next_line_True [OF assms(1)] csv_columns_progress [OF assms(2)] by auto

text \<open>The loop over the lines, with the widest line so far.\<close>

function csv_lines :: "csv_parse \<Rightarrow> nat \<Rightarrow> nat list list \<Rightarrow> (bool \<times> nat \<times> nat list list \<times> csv_parse) prog" where
  "csv_lines p cc lines =
     (case next_line p of
        Some (Ok (True, p1)) \<Rightarrow>
          (case csv_columns p1 [] of
             Some (Ok (True, cols, p2)) \<Rightarrow> csv_lines p2 (if length cols > cc then length cols else cc) (lines @ [cols])
           | Some (Ok (False, cols, p2)) \<Rightarrow> ret (False, cc, lines, p2)
           | Some (Fault e) \<Rightarrow> abort e
           | None \<Rightarrow> diverge)
      | Some (Ok (False, p1)) \<Rightarrow> ret (True, cc, lines, p1)
      | Some (Fault e) \<Rightarrow> abort e
      | None \<Rightarrow> diverge)"
  by pat_completeness auto

termination
  by (relation "measure (csv_left \<circ> fst)") (auto intro: csv_lines_decreases simp: ret_def)

declare csv_lines.simps [simp del]

subsection \<open>Filling the table\<close>

text \<open>
  The number of entries in the table that \<^verbatim>\<open>malloc(sizeof(char*)*line_cnt*col_cnt)\<close> allocates: the size in bytes is computed in 32 bits. The
  entries are then written one after the other from the first, so a table that is too small is left before any index reaches
  \<open>2 ^ 30\<close>, and the indices themselves are exact. (Every line and every column has a node of its own on the heap, so
  their numbers stay below \<open>2 ^ 29\<close>.)
\<close>

definition table_entries :: "nat \<Rightarrow> nat \<Rightarrow> nat" where
  "table_entries lc cc = nat ((4 * int lc * int cc) mod 2 ^ 32 div 4)"

definition set_cell :: "csv_cell option list \<Rightarrow> nat \<Rightarrow> csv_cell \<Rightarrow> csv_cell option list prog" where
  "set_cell d i c = (if i < length d then ret (d[i := Some c]) else abort OutOfBounds)"

fun fill_cols :: "csv_cell option list \<Rightarrow> nat \<Rightarrow> nat \<Rightarrow> nat \<Rightarrow> nat list \<Rightarrow> (nat \<times> csv_cell option list) prog" where
  "fill_cols d cc line row [] = ret (row, d)"
| "fill_cols d cc line row (c # cs) = bnd (set_cell d (line * cc + row) (At c)) (\<lambda>d. fill_cols d cc line (row + 1) cs)"

function fill_pad :: "csv_cell option list \<Rightarrow> nat \<Rightarrow> nat \<Rightarrow> nat \<Rightarrow> csv_cell option list prog" where
  "fill_pad d cc line row =
     (if row < cc then
        (case set_cell d (line * cc + row) Literal_empty of
           Some (Ok d') \<Rightarrow> fill_pad d' cc line (row + 1)
         | r \<Rightarrow> r)
      else ret d)"
  by pat_completeness auto

termination
  by (relation "measure (\<lambda>(d, cc, line, row). cc - row)") auto

declare fill_pad.simps [simp del]

fun fill_lines :: "csv_cell option list \<Rightarrow> nat \<Rightarrow> nat \<Rightarrow> nat list list \<Rightarrow> csv_cell option list prog" where
  "fill_lines d cc line [] = ret d"
| "fill_lines d cc line (l # ls) =
     bnd (fill_cols d cc line 0 l) (\<lambda>(row, d). bnd (fill_pad d cc line row) (\<lambda>d. fill_lines d cc (line + 1) ls))"

subsection \<open>parse, value and load\<close>

text \<open>
  The widest line is kept in the object, so a failed parse leaves the new width behind, and the memory
  of the array the caller passed is changed in every case.
\<close>

definition parse :: "bool \<Rightarrow> csv \<Rightarrow> string \<Rightarrow> (bool \<times> csv) prog" where
  "parse junk self str =
     bnd (csv_lines (csv_parse_new junk str (csv_err self)) (col_cnt self) []) (\<lambda>(ok, cc, lines, p).
       let self = self\<lparr>col_cnt := cc, csv_err := perr p\<rparr> in
       if \<not> ok then ret (False, self)
       else bnd (fill_lines (replicate (table_entries (length lines) cc) None) cc 0 lines) (\<lambda>d.
         ret (True, self\<lparr>line_cnt := length lines, cells := Some d, csv_mem := mem p\<rparr>)))"

text \<open>
  The pointer \<^verbatim>\<open>value\<close> returns: the caller's default, or the text of a cell. The arguments are in the range of \<^verbatim>\<open>int\<close>, and the index is
  computed in that type.
\<close>

definition wrap_int :: "int \<Rightarrow> int" where
  "wrap_int x = (x + 2 ^ 31) mod 2 ^ 32 - 2 ^ 31"

definition csv_value :: "csv \<Rightarrow> int \<Rightarrow> int \<Rightarrow> string option \<Rightarrow> string option prog" where
  "csv_value self line row def =
     (if line \<ge> int (line_cnt self) \<or> row \<ge> int (col_cnt self) then ret def
      else case cells self of
        None \<Rightarrow> abort NullDeref
      | Some d \<Rightarrow>
          let i = wrap_int (line * int (col_cnt self) + row) in
          if i < 0 \<or> i \<ge> int (length d) then abort OutOfBounds
          else (case d ! nat i of
                  None \<Rightarrow> abort Uninitialised
                | Some (At q) \<Rightarrow> ret (Some (cstr_at (csv_mem self) q))
                | Some Literal_empty \<Rightarrow> ret (Some [])))"

definition csv_int_value :: "csv \<Rightarrow> int \<Rightarrow> int \<Rightarrow> int \<Rightarrow> int prog" where
  "csv_int_value self line row def =
     bnd (csv_value self line row None) (\<lambda>v. case v of None \<Rightarrow> ret def | Some val \<Rightarrow> ret (tointeger val def))"

text \<open>
  A file as \<^verbatim>\<open>load\<close> sees it: the length \<^verbatim>\<open>ftell\<close> reports at its end and the bytes \<^verbatim>\<open>fread\<close>
  delivers from its start; \<open>None\<close> when it cannot be opened. \<open>errtext\<close> is \<^verbatim>\<open>strerror(errno)\<close>. When the size of
  the buffer wraps, as for the length \<^verbatim>\<open>-1\<close> of a failed \<^verbatim>\<open>ftell\<close>, the final zero is written outside it.
\<close>

definition load :: "bool \<Rightarrow> string \<Rightarrow> csv \<Rightarrow> (nat \<times> string) option \<Rightarrow> (bool \<times> csv) prog" where
  "load junk errtext self f =
     (case f of
        None \<Rightarrow> ret (False, self\<lparr>csv_err := snprintf (csv_err self) errtext\<rparr>)
      | Some (len, content) \<Rightarrow>
          let r = take len content in
          if int len + 1 \<ge> 2 ^ 32 then abort OutOfBounds
          else if length r \<noteq> len then ret (False, self\<lparr>csv_err := snprintf (csv_err self) errtext\<rparr>)
          else parse junk self (r @ [NUL]))"

end
