(* ===== verification/CsvProps.thy ===== *)
theory CsvProps
  imports Csv
begin

text \<open>
  Properties of the CSV reader: parsing a text with a final zero always returns and stays inside the
  array; a table printed with every cell in quotes is read back cell by cell, short lines filled
  up with empty cells; and the inputs where the code does not do what its format suggests.
\<close>

section \<open>Filling the table\<close>

definition row_cells :: "nat \<Rightarrow> nat list \<Rightarrow> csv_cell option list" where
  "row_cells cc l = map (\<lambda>q. Some (At q)) l @ replicate (cc - length l) (Some Literal_empty)"

lemma fill_cols_append:
  assumes "length X = line * cc + row" "length cs \<le> length Y"
  shows "fill_cols (X @ Y) cc line row cs = ret (row + length cs, X @ map (\<lambda>q. Some (At q)) cs @ drop (length cs) Y)"
  using assms
proof (induction cs arbitrary: X Y row)
  case (Cons c cs)
  then obtain y Y' where Y: "Y = y # Y'" by (cases Y) auto
  then have "set_cell (X @ Y) (line * cc + row) (At c) = ret ((X @ [Some (At c)]) @ Y')"
    using Cons.prems by (simp add: set_cell_def list_update_append)
  then show ?case using Cons.IH [of "X @ [Some (At c)]" "row + 1" Y'] Cons.prems Y by simp
qed simp

lemma fill_pad_append:
  assumes "length X = line * cc + row" "row \<le> cc" "cc - row \<le> length Y"
  shows "fill_pad (X @ Y) cc line row = ret (X @ replicate (cc - row) (Some Literal_empty) @ drop (cc - row) Y)"
  using assms
proof (induction "cc - row" arbitrary: X Y row)
  case 0
  then show ?case by (simp add: fill_pad.simps)
next
  case (Suc k)
  then obtain y Y' where Y: "Y = y # Y'" by (cases Y) auto
  have s: "set_cell (X @ Y) (line * cc + row) Literal_empty = Some (Ok ((X @ [Some Literal_empty]) @ Y'))"
    using Suc.prems Y by (simp add: set_cell_def list_update_append ret_def)
  have e: "cc - row = Suc (cc - Suc row)" using Suc.hyps(2) by simp
  have "fill_pad ((X @ [Some Literal_empty]) @ Y') cc line (Suc row)
    = ret ((X @ [Some Literal_empty]) @ replicate (cc - Suc row) (Some Literal_empty) @ drop (cc - Suc row) Y')"
    using Suc.hyps(2) Suc.prems Y by (intro Suc.hyps(1)) simp_all
  moreover have "row < cc" using Suc.hyps(2) by simp
  ultimately show ?case using s Y unfolding e by (subst fill_pad.simps) simp
qed

lemma fill_lines_append:
  assumes "length X = line * cc" "length Y = length ls * cc" "\<forall>l\<in>set ls. length l \<le> cc"
  shows "fill_lines (X @ Y) cc line ls = ret (X @ concat (map (row_cells cc) ls))"
  using assms
proof (induction ls arbitrary: X Y line)
  case (Cons l ls)
  let ?M = "map (\<lambda>q. Some (At q)) l"
  have "fill_cols (X @ Y) cc line 0 l = ret (length l, X @ ?M @ drop (length l) Y)"
    using fill_cols_append [of X line cc 0 l Y] Cons.prems by simp
  moreover have "fill_pad ((X @ ?M) @ drop (length l) Y) cc line (length l)
      = ret ((X @ ?M) @ replicate (cc - length l) (Some Literal_empty) @ drop (cc - length l) (drop (length l) Y))"
    using Cons.prems by (intro fill_pad_append) auto
  moreover have "fill_lines ((X @ row_cells cc l) @ drop cc Y) cc (line + 1) ls
      = ret ((X @ row_cells cc l) @ concat (map (row_cells cc) ls))"
    using Cons.prems by (intro Cons.IH) (auto simp: row_cells_def algebra_simps)
  moreover have "row_cells cc l = ?M @ replicate (cc - length l) (Some Literal_empty)" by (rule row_cells_def)
  ultimately show ?case using Cons.prems by simp
qed simp

lemma nth_concat_rows:
  assumes "\<forall>r\<in>set rs. length r = cc" "i < length rs" "j < cc"
  shows "concat rs ! (i * cc + j) = rs ! i ! j"
  using assms
proof (induction rs arbitrary: i)
  case (Cons r rs)
  show ?case
  proof (cases i)
    case 0
    then show ?thesis using Cons.prems by (simp add: nth_append)
  next
    case (Suc k)
    then show ?thesis using Cons.prems Cons.IH [of k] by (simp add: nth_append)
  qed
qed simp

lemma length_row_cells: "length l \<le> cc \<Longrightarrow> length (row_cells cc l) = cc"
  by (simp add: row_cells_def)

lemma length_concat_rows: "\<forall>r\<in>set rs. length r = cc \<Longrightarrow> length (concat rs) = length rs * cc"
  by (induction rs) auto

section \<open>The parser stays inside the array\<close>

text \<open>A position from which the array still holds a final zero.\<close>

definition zero_ahead :: "string \<Rightarrow> nat \<Rightarrow> bool" where
  "zero_ahead b i \<longleftrightarrow> (\<exists>k<length b. i \<le> k \<and> b ! k = NUL)"

lemma zero_ahead_here: "zero_ahead b i \<Longrightarrow> i < length b"
  by (auto simp: zero_ahead_def)

lemma zero_ahead_Suc: "zero_ahead b i \<Longrightarrow> b ! i \<noteq> NUL \<Longrightarrow> zero_ahead b (Suc i)"
  by (auto simp: zero_ahead_def) (metis Suc_leI le_neq_implies_less)

lemma zero_ahead_update: "zero_ahead b i \<Longrightarrow> j < i \<or> ch = NUL \<Longrightarrow> zero_ahead (b[j := ch]) i"
  unfolding zero_ahead_def by (metis leD length_list_update nth_list_update nth_list_update_neq)

lemma SET_CHAR_zero:
  assumes "n \<le> ptr" "ptr < length b" "zero_ahead b q"
  shows "\<exists>b'. SET_CHAR b ptr n NUL = ret b' \<and> zero_ahead b' q"
  using assms by (auto simp: SET_CHAR_def wr_def intro: zero_ahead_update)

lemma MV_CHAR_zero:
  assumes "n \<le> ptr" "ptr < length b" "zero_ahead b q" "ptr < q"
  shows "\<exists>b'. MV_CHAR b ptr n = ret b' \<and> zero_ahead b' q"
  using assms by (auto simp: MV_CHAR_def rd_def SET_CHAR_def wr_def intro: zero_ahead_update)

definition act_safe :: "csv_act \<Rightarrow> bool" where
  "act_safe act \<longleftrightarrow> (case act of Next b n ptr \<Rightarrow> n \<le> ptr \<and> zero_ahead b ptr
     | Done b pp _ \<Rightarrow> (\<forall>q. pp = Some q \<longrightarrow> zero_ahead b q) | Parse_error b ptr \<Rightarrow> True)"

lemma csv_step_safe:
  assumes n: "n \<le> ptr" and z: "zero_ahead b ptr"
  shows "\<exists>act. csv_step b wq n ptr = ret act \<and> act_safe act"
proof -
  have l: "ptr < length b" using z by (rule zero_ahead_here)
  note S = SET_CHAR_zero [OF n l] and M = MV_CHAR_zero [OF n l]
  show ?thesis
  proof (cases "b ! ptr = NUL")
    case True
    then show ?thesis using l by (simp add: csv_step_def rd_def act_safe_def)
  next
    case False
    note z1 = zero_ahead_Suc [OF z False]
    have l1: "Suc ptr < length b" using z1 by (rule zero_ahead_here)
    have z2: "b ! Suc ptr \<noteq> NUL \<Longrightarrow> zero_ahead b (Suc (Suc ptr))" using zero_ahead_Suc [OF z1] .
    have l2: "b ! Suc ptr \<noteq> NUL \<Longrightarrow> Suc (Suc ptr) < length b" using z2 zero_ahead_here by blast
    have z3: "b ! Suc ptr \<noteq> NUL \<Longrightarrow> b ! Suc (Suc ptr) \<noteq> NUL \<Longrightarrow> zero_ahead b (Suc (Suc (Suc ptr)))"
      using zero_ahead_Suc [OF z2] by blast
    obtain m1 where m1: "MV_CHAR b ptr n = ret m1" "zero_ahead m1 (Suc ptr)" using M [OF z1] by auto
    have q: "\<exists>act. csv_quote b wq n ptr = ret act \<and> act_safe act"
    proof -
      have "\<exists>b'. SET_CHAR b ptr n NUL = ret b' \<and> zero_ahead b' (Suc (Suc ptr))" if "b ! Suc ptr = CHR '',''"
        using S [OF z2] that by (simp add: NUL_def)
      moreover have "\<exists>b'. MV_CHAR b ptr n = ret b' \<and> zero_ahead b' (Suc (Suc ptr))" if "b ! Suc ptr = CHR 0x22"
        using M [OF z2] that by (simp add: NUL_def)
      moreover have "\<exists>b'. SET_CHAR b ptr n NUL = ret b' \<and> zero_ahead b' (Suc (Suc (Suc ptr)))"
        if "b ! Suc ptr = CHR 0x0D" "b ! Suc (Suc ptr) = CHR 0x0A"
        using S [OF z3] that by (simp add: NUL_def)
      moreover have "Suc (Suc ptr) < length b" if "b ! Suc ptr = CHR 0x0D" using l2 that by (simp add: NUL_def)
      ultimately show ?thesis using l1 n
        by (auto simp: csv_quote_def rd_def act_safe_def numeral_3_eq_3)
    qed
    have s1: "\<exists>b'. SET_CHAR b ptr n NUL = ret b' \<and> zero_ahead b' (Suc ptr)" using S [OF z1] .
    have s2: "\<exists>b'. SET_CHAR b ptr n NUL = ret b' \<and> zero_ahead b' (Suc (Suc ptr))" if "b ! Suc ptr = CHR 0x0A"
      using S [OF z2] that by (simp add: NUL_def)
    show ?thesis using False q s1 s2 m1 n l l1
      by (auto simp: csv_step_def rd_def act_safe_def)
  qed
qed

lemma csv_loop_Next_step: "csv_step b wq n ptr = ret (Next b' n' ptr') \<Longrightarrow> csv_loop b wq n ptr = csv_loop b' wq n' ptr'"
  by (subst csv_loop.simps) (simp add: ret_def)

lemma csv_loop_stop: "csv_step b wq n ptr = ret act \<Longrightarrow> (\<And>b n q. act \<noteq> Next b n q) \<Longrightarrow> csv_loop b wq n ptr = ret act"
  by (subst csv_loop.simps) (simp add: ret_def split: csv_act.splits)

lemma csv_loop_safe:
  assumes "n \<le> ptr" "zero_ahead b ptr"
  shows "\<exists>act. csv_loop b wq n ptr = ret act \<and> act_safe act"
  using assms
proof (induction b wq n ptr rule: csv_loop.induct)
  case (1 b wq n ptr)
  obtain act where act: "csv_step b wq n ptr = ret act" "act_safe act" using csv_step_safe [OF 1(2,3)] by blast
  show ?case
  proof (cases act)
    case (Next b' n' ptr')
    then have "\<exists>act. csv_loop b' wq n' ptr' = ret act \<and> act_safe act"
      using 1(1) act unfolding ret_def by (simp add: act_safe_def)
    then show ?thesis using csv_loop_Next_step act Next by metis
  qed (use act csv_loop_stop in auto)
qed

text \<open>The parser's own position has a zero ahead.\<close>

definition parser_safe :: "csv_parse \<Rightarrow> bool" where
  "parser_safe p \<longleftrightarrow> (case parse_ptr p of None \<Rightarrow> True | Some i \<Rightarrow> zero_ahead (mem p) i)"

lemma next_line_safe:
  "parser_safe p \<Longrightarrow> \<exists>ok. next_line p = ret (ok, p\<lparr>need_nextline := False\<rparr>) \<and> parser_safe (p\<lparr>need_nextline := False\<rparr>)"
  by (auto simp: next_line_def parser_safe_def Let_def rd_def zero_ahead_here split: option.splits)

lemma next_column_safe:
  assumes "parser_safe p"
  shows "\<exists>ok out p'. next_column p = ret (ok, out, p') \<and> parser_safe p' \<or> (\<exists>p'. next_column p = ret (False, None, p'))"
proof (cases "parse_ptr p")
  case None
  then show ?thesis using assms by (auto simp: next_column_def)
next
  case (Some i)
  then have z: "zero_ahead (mem p) i" using assms by (simp add: parser_safe_def)
  let ?wq = "mem p ! i = CHR 0x22" and ?ptr = "if mem p ! i = CHR 0x22 then i + 1 else i"
  have "zero_ahead (mem p) ?ptr" using z zero_ahead_Suc [OF z] by (auto simp: NUL_def)
  then obtain act where act: "csv_loop (mem p) ?wq 0 ?ptr = ret act" "act_safe act"
    using csv_loop_safe [of 0 ?ptr "mem p" ?wq] by blast
  have r: "rd (mem p) i = ret (mem p ! i)" using z by (simp add: rd_def zero_ahead_here)
  show ?thesis
  proof (cases "need_nextline p")
    case True
    then show ?thesis using Some assms by (auto simp: next_column_def)
  next
    case False
    show ?thesis
    proof (cases act)
      case (Next b n q)
      then show ?thesis using act(1) csv_loop_not_Next by metis
    next
      case (Done b pp nl)
      then show ?thesis using Some False r act
        by (auto simp: next_column_def Let_def act_safe_def parser_safe_def split: option.splits)
    next
      case (Parse_error b q)
      then show ?thesis using Some False r act(1) by (auto simp: next_column_def Let_def)
    qed
  qed
qed

lemma csv_columns_step:
  "next_column p = ret (True, Some ptr, p') \<Longrightarrow> csv_columns p cols = csv_columns p' (cols @ [ptr])"
  by (subst csv_columns.simps) (simp add: ret_def)

lemma csv_columns_end:
  "next_column p = ret (ok, None, p') \<Longrightarrow> csv_columns p cols = ret (ok, cols, p')"
  by (subst csv_columns.simps) (simp add: ret_def split: bool.splits)

lemma csv_columns_safe:
  assumes "parser_safe p"
  shows "\<exists>ok cols' p'. csv_columns p cols = ret (ok, cols', p') \<and> (ok \<longrightarrow> parser_safe p')"
  using assms
proof (induction p cols rule: csv_columns.induct)
  case (1 p cols)
  from next_column_safe [OF 1(2)] obtain ok out p' where
    n: "next_column p = ret (ok, out, p')" and ok: "ok \<longrightarrow> parser_safe p'" by auto
  show ?case
  proof (cases "ok \<and> out \<noteq> None")
    case True
    then obtain ptr where out: "out = Some ptr" by auto
    then have n': "next_column p = ret (True, Some ptr, p')" using n True by simp
    have "\<exists>ok cols' p''. csv_columns p' (cols @ [ptr]) = ret (ok, cols', p'') \<and> (ok \<longrightarrow> parser_safe p'')"
      using ok True by (intro 1(1) [OF n' [unfolded ret_def]]) simp_all
    then show ?thesis unfolding csv_columns_step [OF n'] .
  next
    case False
    then have "out = None" using n by (auto elim: next_column_cases)
    then show ?thesis using csv_columns_end n ok by metis
  qed
qed

lemma csv_lines_step:
  assumes "next_line p = ret (True, p1)" "csv_columns p1 [] = ret (True, cols, p2)"
  shows "csv_lines p cc lines = csv_lines p2 (max cc (length cols)) (lines @ [cols])"
  using assms by (subst csv_lines.simps) (simp add: ret_def max_def)

lemma csv_lines_end: "next_line p = ret (False, p1) \<Longrightarrow> csv_lines p cc lines = ret (True, cc, lines, p1)"
  by (subst csv_lines.simps) (simp add: ret_def)

lemma csv_lines_error:
  assumes "next_line p = ret (True, p1)" "csv_columns p1 [] = ret (False, cols, p2)"
  shows "csv_lines p cc lines = ret (False, cc, lines, p2)"
  using assms by (subst csv_lines.simps) (simp add: ret_def)

lemma csv_lines_safe:
  assumes "parser_safe p" "\<forall>l\<in>set lines. length l \<le> cc"
  shows "\<exists>ok cc' lines' p'. csv_lines p cc lines = ret (ok, cc', lines', p') \<and> (\<forall>l\<in>set lines'. length l \<le> cc')"
  using assms
proof (induction p cc lines rule: csv_lines.induct)
  case (1 p cc lines)
  from next_line_safe [OF 1(2)] obtain more_lines p1 where
    n: "next_line p = ret (more_lines, p1)" "parser_safe p1" by blast
  from csv_columns_safe [OF n(2)] obtain ok cols p2 where
    c: "csv_columns p1 [] = ret (ok, cols, p2)" "ok \<longrightarrow> parser_safe p2" by blast
  show ?case
  proof (cases "more_lines \<and> ok")
    case True
    then have n': "next_line p = ret (True, p1)" and c': "csv_columns p1 [] = ret (True, cols, p2)" using n c by simp_all
    have m: "max cc (length cols) = (if length cols > cc then length cols else cc)" by (simp add: max_def)
    have "\<exists>ok cc' lines' p'. csv_lines p2 (max cc (length cols)) (lines @ [cols]) = ret (ok, cc', lines', p')
        \<and> (\<forall>l\<in>set lines'. length l \<le> cc')"
      unfolding m using c(2) True 1(3) by (intro 1(1) [OF n' [unfolded ret_def] refl refl _ c' [unfolded ret_def]]) auto
    then show ?thesis unfolding csv_lines_step [OF n' c'] .
  next
    case False
    then show ?thesis
      using n(1) c(1) 1(3) by (cases more_lines) (auto simp: csv_lines_end csv_lines_error)
  qed
qed

lemma parser_safe_new: "NUL \<in> set str \<Longrightarrow> parser_safe (csv_parse_new junk str err)"
  by (auto simp: parser_safe_def csv_parse_new_def zero_ahead_def in_set_conv_nth)

lemma table_entries_fit: "lc * cc < 2 ^ 30 \<Longrightarrow> table_entries lc cc = lc * cc"
proof -
  assume "lc * cc < 2 ^ 30"
  then have "int lc * int cc < 2 ^ 30" by (metis of_nat_less_iff of_nat_mult of_nat_numeral of_nat_power)
  moreover have "0 \<le> int lc * int cc" by simp
  ultimately have "4 * (int lc * int cc) mod 2 ^ 32 = 4 * (int lc * int cc)" by (intro mod_pos_pos_trivial) (simp_all add: mult.commute)
  then show ?thesis by (simp add: table_entries_def mult.assoc nat_mult_distrib)
qed

lemma table_entries_wrap: "lc * cc \<ge> 2 ^ 30 \<Longrightarrow> table_entries lc cc < lc * cc"
proof -
  assume "lc * cc \<ge> 2 ^ 30"
  then have "(2 :: int) ^ 30 \<le> int lc * int cc" by (metis of_nat_le_iff of_nat_mult of_nat_numeral of_nat_power)
  moreover have "x mod 2 ^ 32 div 4 < 2 ^ 30" for x :: int by simp
  ultimately have "int (table_entries lc cc) < int lc * int cc" unfolding table_entries_def by (smt (verit) int_nat_eq pos_imp_zdiv_nonneg_iff pos_mod_sign zero_less_power)
  then show ?thesis by (metis of_nat_less_iff of_nat_mult)
qed

text \<open>A table that ends inside the lines to come is left: the first entry behind it is written.\<close>

lemma fill_cols_short:
  "line * cc + row \<le> length d \<Longrightarrow> length d < line * cc + row + length cs \<Longrightarrow> fill_cols d cc line row cs = abort OutOfBounds"
proof (induction cs arbitrary: d row)
  case (Cons c cs)
  show ?case
  proof (cases "line * cc + row < length d")
    case True
    then show ?thesis using Cons.IH [of "row + 1" "d[line * cc + row := Some (At c)]"] Cons.prems by (simp add: set_cell_def)
  next
    case False
    then show ?thesis by (simp add: set_cell_def)
  qed
qed simp

lemma fill_pad_short:
  "line * cc + row \<le> length d \<Longrightarrow> length d < line * cc + cc \<Longrightarrow> fill_pad d cc line row = abort OutOfBounds"
proof (induction "cc - row" arbitrary: d row)
  case 0
  then show ?case by simp
next
  case (Suc k)
  then have row: "row < cc" by simp
  show ?case
  proof (cases "line * cc + row < length d")
    case True
    let ?d = "d[line * cc + row := Some Literal_empty]"
    have "fill_pad ?d cc line (row + 1) = abort OutOfBounds" using Suc True by (intro Suc.hyps(1)) simp_all
    then show ?thesis using row True by (subst fill_pad.simps) (simp add: set_cell_def ret_def)
  next
    case False
    then show ?thesis using row by (subst fill_pad.simps) (simp add: set_cell_def abort_def)
  qed
qed

lemma fill_lines_short:
  assumes "length X = line * cc" "length Y < length ls * cc" "\<forall>l\<in>set ls. length l \<le> cc"
  shows "fill_lines (X @ Y) cc line ls = abort OutOfBounds"
  using assms
proof (induction ls arbitrary: X Y line)
  case (Cons l ls)
  have l: "length l \<le> cc" using Cons.prems(3) by simp
  let ?M = "map (\<lambda>q. Some (At q)) l"
  show ?case
  proof (cases "length Y < length l")
    case True
    then show ?thesis using fill_cols_short [of line cc 0 "X @ Y" l] Cons.prems(1) by simp
  next
    case False
    then have c: "fill_cols (X @ Y) cc line 0 l = ret (length l, (X @ ?M) @ drop (length l) Y)"
      using fill_cols_append [of X line cc 0 l Y] Cons.prems(1) by simp
    show ?thesis
    proof (cases "length Y < cc")
      case True
      then have "fill_pad ((X @ ?M) @ drop (length l) Y) cc line (length l) = abort OutOfBounds"
        using False Cons.prems(1) by (intro fill_pad_short) simp_all
      then show ?thesis using c by simp
    next
      case cc: False
      have "fill_pad ((X @ ?M) @ drop (length l) Y) cc line (length l)
        = ret ((X @ ?M) @ replicate (cc - length l) (Some Literal_empty) @ drop (cc - length l) (drop (length l) Y))"
        using Cons.prems(1) l cc by (intro fill_pad_append) auto
      moreover have "fill_lines ((X @ row_cells cc l) @ drop cc Y) cc (line + 1) ls = abort OutOfBounds"
        using Cons.prems cc l by (intro Cons.IH) (auto simp: row_cells_def algebra_simps)
      moreover have "row_cells cc l = ?M @ replicate (cc - length l) (Some Literal_empty)" by (rule row_cells_def)
      ultimately show ?thesis using c l by simp
    qed
  qed
qed simp

text \<open>
  C21. \<^verbatim>\<open>csv::parse\<close> on every text that has a final zero, whatever else is in it: the loops over the text end, and no read or write of
  the text leaves its array. If the text is well formed and has \<open>2 ^ 30\<close> cells or more, counted as lines times the widest line, the
  32-bit size of the table wraps and the code writes behind the table; in all other cases it returns.
\<close>

theorem csv_parse_returns:
  assumes "NUL \<in> set str"
  shows "\<exists>ok cc lines p. csv_lines (csv_parse_new junk str (csv_err self)) (col_cnt self) [] = ret (ok, cc, lines, p) \<and>
    (if ok \<and> length lines * cc \<ge> 2 ^ 30 then parse junk self str = abort OutOfBounds
     else \<exists>self'. parse junk self str = ret (ok, self'))"
proof -
  from csv_lines_safe [OF parser_safe_new [OF assms]]
  obtain ok cc' lines' p' where l: "csv_lines (csv_parse_new junk str (csv_err self)) (col_cnt self) [] = ret (ok, cc', lines', p')"
    "\<forall>l\<in>set lines'. length l \<le> cc'" by (metis empty_iff empty_set)
  let ?d = "replicate (table_entries (length lines') cc') None"
  have "fill_lines ([] @ ?d) cc' 0 lines' = abort OutOfBounds" if "length lines' * cc' \<ge> 2 ^ 30"
    using l(2) table_entries_wrap [OF that] by (intro fill_lines_short) simp_all
  moreover have "fill_lines ([] @ ?d) cc' 0 lines' = ret ([] @ concat (map (row_cells cc') lines'))" if "length lines' * cc' < 2 ^ 30"
    unfolding table_entries_fit [OF that] using l(2) by (intro fill_lines_append) simp_all
  ultimately have "if length lines' * cc' \<ge> 2 ^ 30 then fill_lines ?d cc' 0 lines' = abort OutOfBounds
      else \<exists>d. fill_lines ?d cc' 0 lines' = ret d"
    unfolding append_Nil using not_le by (metis (full_types))
  then show ?thesis using l(1) by (cases ok; cases "length lines' * cc' \<ge> 2 ^ 30") (auto simp: parse_def Let_def)
qed

theorem csv_parse_returns_witness:
  "\<exists>ok cc lines p. csv_lines (csv_parse_new False (''a,b'' @ [NUL]) []) 0 [] = ret (ok, cc, lines, p) \<and>
    (if ok \<and> length lines * cc \<ge> 2 ^ 30 then parse False (csv_new []) (''a,b'' @ [NUL]) = abort OutOfBounds
     else \<exists>self'. parse False (csv_new []) (''a,b'' @ [NUL]) = ret (ok, self'))"
  using csv_parse_returns [of "''a,b'' @ [NUL]" False "csv_new []"] by (simp add: csv_new_def)

section \<open>Reading back a printed table\<close>

definition esc :: "string \<Rightarrow> string" where
  "esc c = concat (map (\<lambda>ch. if ch = CHR 0x22 then [ch, ch] else [ch]) c)"

fun print_line :: "string list \<Rightarrow> string" where
  "print_line [] = []"
| "print_line [c] = CHR 0x22 # esc c @ [CHR 0x22, CHR 0x0D, CHR 0x0A]"
| "print_line (c # cs) = CHR 0x22 # esc c @ [CHR 0x22, CHR '',''] @ print_line cs"

definition print_csv :: "string list list \<Rightarrow> string" where
  "print_csv rows = concat (map print_line rows)"

lemma MV_CHAR_gap:
  "MV_CHAR (A @ G @ x # R) (length A + length G) (length G) = ret (A @ x # tl (G @ [x]) @ R)"
  by (cases G) (simp_all add: MV_CHAR_def rd_def SET_CHAR_def wr_def nth_append list_update_append)

lemma SET_CHAR_gap:
  "SET_CHAR (A @ G @ x # R) (length A + length G) (length G) ch = ret (A @ ch # tl (G @ [x]) @ R)"
  by (cases G) (simp_all add: SET_CHAR_def wr_def list_update_append)

lemma nth_gap:
  "(A @ G @ x # R) ! (length A + length G) = x"
  "(A @ G @ x # y # R) ! Suc (length A + length G) = y"
  "(A @ G @ x # y # z # R) ! Suc (Suc (length A + length G)) = z"
  by (simp_all add: nth_append)

lemma quoted_plain:
  assumes "x \<noteq> CHR 0x22" "x \<noteq> NUL"
  shows "csv_loop (A @ G @ x # R) True (length G) (length A + length G)
    = csv_loop ((A @ [x]) @ tl (G @ [x]) @ R) True (length (tl (G @ [x]))) (length (A @ [x]) + length (tl (G @ [x])))"
proof -
  have "csv_step (A @ G @ x # R) True (length G) (length A + length G)
    = ret (Next (A @ x # tl (G @ [x]) @ R) (length G) (length A + length G + 1))"
    using assms by (simp add: csv_step_def rd_def nth_gap MV_CHAR_gap)
  from csv_loop_Next_step [OF this] show ?thesis by simp
qed

lemma quoted_quote:
  defines "x \<equiv> CHR 0x22"
  shows "csv_loop (A @ G @ x # x # R) True (length G) (length A + length G)
    = csv_loop ((A @ [x]) @ (tl (G @ [x]) @ [x]) @ R) True (length (tl (G @ [x]) @ [x])) (length (A @ [x]) + length (tl (G @ [x]) @ [x]))"
proof -
  have "csv_step (A @ G @ x # x # R) True (length G) (length A + length G)
    = ret (Next (A @ x # tl (G @ [x]) @ x # R) (length G + 1) (length A + length G + 2))"
    by (simp add: csv_step_def csv_quote_def rd_def nth_gap MV_CHAR_gap x_def NUL_def)
  from csv_loop_Next_step [OF this] show ?thesis by simp
qed

lemma quoted_cell:
  assumes "NUL \<notin> set c"
  shows "\<exists>G'. csv_loop (A @ G @ esc c @ R) True (length G) (length A + length G)
    = csv_loop ((A @ c) @ G' @ R) True (length G') (length (A @ c) + length G') \<and> length G' + length c = length G + length (esc c)"
  using assms
proof (induction c arbitrary: A G)
  case Nil
  then show ?case by (auto simp: esc_def)
next
  case (Cons x c)
  define G1 where "G1 = (if x = CHR 0x22 then tl (G @ [x]) @ [x] else tl (G @ [x]))"
  have e: "esc (x # c) @ R = (if x = CHR 0x22 then x # x # esc c @ R else x # esc c @ R)" by (simp add: esc_def)
  have "csv_loop (A @ G @ esc (x # c) @ R) True (length G) (length A + length G)
      = csv_loop ((A @ [x]) @ G1 @ esc c @ R) True (length G1) (length (A @ [x]) + length G1)"
    unfolding e G1_def using quoted_plain [of x A G "esc c @ R"] quoted_quote [of A G "esc c @ R"] Cons.prems by auto
  moreover from Cons.IH [of "A @ [x]" G1] Cons.prems obtain G' where
    "csv_loop ((A @ [x]) @ G1 @ esc c @ R) True (length G1) (length (A @ [x]) + length G1)
      = csv_loop (((A @ [x]) @ c) @ G' @ R) True (length G') (length ((A @ [x]) @ c) + length G')"
    "length G' + length c = length G1 + length (esc c)" by auto
  moreover have "length G1 + length (esc c) + 1 = length G + length (esc (x # c))" by (simp add: G1_def esc_def)
  ultimately show ?case by (intro exI [of _ G']) simp
qed

lemma quoted_end:
  assumes "t = [CHR '',''] \<or> t = [CHR 0x0D, CHR 0x0A]"
  shows "csv_loop (A @ G @ CHR 0x22 # t @ R) True (length G) (length A + length G)
    = ret (Done (A @ NUL # tl (G @ [CHR 0x22]) @ t @ R) (Some (length A + length G + 1 + length t)) (t \<noteq> [CHR '','']))"
proof (rule csv_loop_stop)
  show "csv_step (A @ G @ CHR 0x22 # t @ R) True (length G) (length A + length G)
    = ret (Done (A @ NUL # tl (G @ [CHR 0x22]) @ t @ R) (Some (length A + length G + 1 + length t)) (t \<noteq> [CHR '','']))"
    using assms by (auto simp: csv_step_def csv_quote_def rd_def nth_gap SET_CHAR_gap NUL_def)
qed simp

lemma next_column_quoted:
  assumes c: "NUL \<notin> set c" and t: "t = [CHR '',''] \<or> t = [CHR 0x0D, CHR 0x0A]"
    and p: "parse_ptr p = Some (length pre)" "\<not> need_nextline p" "mem p = pre @ CHR 0x22 # esc c @ CHR 0x22 # t @ R"
  shows "\<exists>Z. next_column p = ret (True, Some (length pre + 1),
    p\<lparr>mem := (pre @ CHR 0x22 # c @ NUL # Z) @ R, parse_ptr := Some (length (pre @ CHR 0x22 # c @ NUL # Z)),
      need_nextline := (t \<noteq> [CHR '',''])\<rparr>)"
proof -
  let ?A = "pre @ [CHR 0x22]"
  from quoted_cell [OF c, of ?A "[]" "CHR 0x22 # t @ R"] obtain G where
    "csv_loop (mem p) True 0 (length pre + 1) = csv_loop ((?A @ c) @ G @ CHR 0x22 # t @ R) True (length G) (length (?A @ c) + length G)"
    unfolding p(3) by auto
  also have "\<dots> = ret (Done ((?A @ c) @ NUL # tl (G @ [CHR 0x22]) @ t @ R)
      (Some (length (?A @ c) + length G + 1 + length t)) (t \<noteq> [CHR '','']))"
    by (rule quoted_end [OF t])
  finally have l: "csv_loop (mem p) True 0 (length pre + 1) = \<dots>" .
  have r: "rd (mem p) (length pre) = ret (CHR 0x22)" by (simp add: p rd_def nth_append)
  show ?thesis using l r p(1,2) by (intro exI [of _ "tl (G @ [CHR 0x22]) @ t"]) (simp add: next_column_def)
qed

text \<open>The text of a cell stands at a position of a part of the array that the parser has passed.\<close>

definition has_cell :: "string \<Rightarrow> nat \<Rightarrow> string \<Rightarrow> bool" where
  "has_cell pre q c \<longleftrightarrow> (\<exists>U V. pre = U @ c @ NUL # V \<and> q = length U)"

lemma has_cell_append: "has_cell pre q c \<Longrightarrow> has_cell (pre @ Z) q c"
  by (force simp: has_cell_def)

lemma has_cell_cstr: "has_cell pre q c \<Longrightarrow> NUL \<notin> set c \<Longrightarrow> cstr_at (pre @ R) q = c"
  by (auto simp: has_cell_def cstr_at_def takeWhile_append)

lemma csv_columns_printed:
  assumes "cs \<noteq> []" "\<forall>c\<in>set cs. NUL \<notin> set c"
    "parse_ptr p = Some (length pre)" "\<not> need_nextline p" "mem p = pre @ print_line cs @ R"
  shows "\<exists>Z qs. csv_columns p cols = ret (True, cols @ qs,
      p\<lparr>mem := (pre @ Z) @ R, parse_ptr := Some (length (pre @ Z)), need_nextline := True\<rparr>)
    \<and> list_all2 (has_cell (pre @ Z)) qs cs"
  using assms
proof (induction cs arbitrary: p pre cols)
  case (Cons c cs)
  let ?t = "if cs = [] then [CHR 0x0D, CHR 0x0A] else [CHR '','']"
  let ?pre = "\<lambda>Z. pre @ CHR 0x22 # c @ NUL # Z"
  have m: "mem p = pre @ CHR 0x22 # esc c @ CHR 0x22 # ?t @ print_line cs @ R"
    using Cons.prems(5) by (cases cs) auto
  have "NUL \<notin> set c" "?t = [CHR '',''] \<or> ?t = [CHR 0x0D, CHR 0x0A]" using Cons.prems(2) by simp_all
  from next_column_quoted [OF this Cons.prems(3,4) m] obtain Z where
    n: "next_column p = ret (True, Some (length pre + 1),
      p\<lparr>mem := ?pre Z @ print_line cs @ R, parse_ptr := Some (length (?pre Z)), need_nextline := (?t \<noteq> [CHR '',''])\<rparr>)"
    (is "_ = ret (True, _, ?p')") by blast
  have h: "has_cell (?pre Z) (length pre + 1) c"
    unfolding has_cell_def by (intro exI [of _ "pre @ [CHR 0x22]"] exI [of _ Z]) simp
  show ?case
  proof (cases "cs = []")
    case True
    have "next_column ?p' = ret (True, None, ?p')" using True by (simp add: next_column_def)
    then show ?thesis using h True
      by (intro exI [of _ "CHR 0x22 # c @ NUL # Z"] exI [of _ "[length pre + 1]"])
        (simp add: csv_columns_step [OF n] csv_columns_end)
  next
    case False
    then obtain Z' qs where q: "csv_columns ?p' (cols @ [length pre + 1]) = ret (True, (cols @ [length pre + 1]) @ qs,
        ?p'\<lparr>mem := (?pre Z @ Z') @ R, parse_ptr := Some (length (?pre Z @ Z')), need_nextline := True\<rparr>)"
      "list_all2 (has_cell (?pre Z @ Z')) qs cs"
      using Cons.IH [of ?p' "?pre Z" "cols @ [length pre + 1]"] Cons.prems(2) by auto
    moreover have "has_cell (?pre Z @ Z') (length pre + 1) c" using h by (rule has_cell_append)
    ultimately show ?thesis
      by (intro exI [of _ "CHR 0x22 # c @ NUL # Z @ Z'"] exI [of _ "(length pre + 1) # qs"])
        (simp add: csv_columns_step [OF n])
  qed
qed simp

lemma print_line_first: "cs \<noteq> [] \<Longrightarrow> \<exists>t. print_line cs = CHR 0x22 # t"
  by (cases cs rule: print_line.cases) auto

lemma csv_lines_printed:
  assumes "\<forall>r\<in>set rows. r \<noteq> [] \<and> (\<forall>c\<in>set r. NUL \<notin> set c)"
    "parse_ptr p = Some (length pre)" "mem p = pre @ print_csv rows @ [NUL]"
  shows "\<exists>Z qss. csv_lines p cc lines = ret (True, foldl max cc (map length rows), lines @ qss,
      p\<lparr>mem := (pre @ Z) @ [NUL], parse_ptr := Some (length (pre @ Z)), need_nextline := False\<rparr>)
    \<and> list_all2 (list_all2 (has_cell (pre @ Z))) qss rows"
  using assms
proof (induction rows arbitrary: p pre cc lines)
  case Nil
  then have "next_line p = ret (False, p\<lparr>need_nextline := False\<rparr>)" by (simp add: next_line_def print_csv_def rd_def)
  then show ?case using Nil by (intro exI [of _ "[]"]) (simp add: csv_lines_end print_csv_def)
next
  case (Cons r rows)
  let ?p1 = "p\<lparr>need_nextline := False\<rparr>"
  have m: "mem p = pre @ print_line r @ print_csv rows @ [NUL]" using Cons.prems(3) by (simp add: print_csv_def)
  obtain t where "print_line r = CHR 0x22 # t" using print_line_first [of r] Cons.prems(1) by auto
  then have n: "next_line p = ret (True, ?p1)" using m Cons.prems(2) by (simp add: next_line_def rd_def nth_append NUL_def)
  from csv_columns_printed [of r ?p1 pre "print_csv rows @ [NUL]" "[]"] Cons.prems m obtain Z qs where
    c: "csv_columns ?p1 [] = ret (True, qs, ?p1\<lparr>mem := (pre @ Z) @ print_csv rows @ [NUL],
      parse_ptr := Some (length (pre @ Z)), need_nextline := True\<rparr>)" (is "_ = ret (True, _, ?p2)")
    and q: "list_all2 (has_cell (pre @ Z)) qs r" by auto
  from Cons.IH [of ?p2 "pre @ Z" "max cc (length qs)" "lines @ [qs]"] Cons.prems(1) obtain Z' qss where
    l: "csv_lines ?p2 (max cc (length qs)) (lines @ [qs]) = ret (True, foldl max (max cc (length qs)) (map length rows), (lines @ [qs]) @ qss,
      ?p2\<lparr>mem := ((pre @ Z) @ Z') @ [NUL], parse_ptr := Some (length ((pre @ Z) @ Z')), need_nextline := False\<rparr>)"
      "list_all2 (list_all2 (has_cell ((pre @ Z) @ Z'))) qss rows" by auto
  have "list_all2 (has_cell ((pre @ Z) @ Z')) qs r" using q by (rule list_all2_mono) (rule has_cell_append)
  moreover have "length qs = length r" using q by (rule list_all2_lengthD)
  ultimately show ?case using l by (intro exI [of _ "Z @ Z'"] exI [of _ "qs # qss"]) (simp add: csv_lines_step [OF n c])
qed

lemma foldl_max_init: "(cc :: nat) \<le> foldl max cc xs"
  by (induction xs arbitrary: cc) (auto intro: order_trans [OF max.cobounded1])

lemma foldl_max_upper: "x \<in> set xs \<Longrightarrow> (x :: nat) \<le> foldl max cc xs"
  by (induction xs arbitrary: cc) (auto intro: order_trans [OF max.cobounded2 foldl_max_init])

lemma csv_value_at:
  assumes "cells self = Some d" "i < line_cnt self" "j < col_cnt self" "i * col_cnt self + j < length d" "length d < 2 ^ 30"
  shows "csv_value self (int i) (int j) def =
    (case d ! (i * col_cnt self + j) of None \<Rightarrow> abort Uninitialised
       | Some (At q) \<Rightarrow> ret (Some (cstr_at (csv_mem self) q)) | Some Literal_empty \<Rightarrow> ret (Some []))"
proof -
  define k where "k = i * col_cnt self + j"
  have "k < 2 ^ 30" using assms(4,5) unfolding k_def by (rule less_trans)
  then have "int k < 2 ^ 30" by (metis of_nat_less_iff of_nat_numeral of_nat_power)
  then have "wrap_int (int k) = int k" by (simp add: wrap_int_def)
  then have n: "wrap_int (int i * int (col_cnt self) + int j) = int k" by (simp add: k_def)
  show ?thesis using assms unfolding csv_value_def n Let_def nat_int k_def [symmetric] by simp
qed

text \<open>
  C12. A table printed with every cell in quotes, quotes inside a cell doubled, cells separated by commas and
  lines ended by CR LF, is read back: the parse succeeds with as many lines as were printed and the
  widest line's number of columns, \<^verbatim>\<open>value\<close> gives every cell's text whatever characters it holds (commas,
  quotes and line ends included, the zero character apart), the empty text for the cells a short line does not have, and
  the caller's default outside the table. The table has fewer than \<open>2 ^ 30\<close> cells and the file fewer than \<open>2 ^ 32 - 1\<close> bytes, so that no
  size that is allocated wraps.
\<close>

theorem csv_roundtrip:
  assumes cells: "\<forall>r\<in>set rows. r \<noteq> [] \<and> (\<forall>c\<in>set r. NUL \<notin> set c)"
    and size: "length rows * foldl max 0 (map length rows) < 2 ^ 30" "length (print_csv rows) + 1 < 2 ^ 32"
  shows "\<exists>self. load junk err (csv_new buf) (Some (length (print_csv rows), print_csv rows)) = ret (True, self)
    \<and> line_cnt self = length rows \<and> col_cnt self = foldl max 0 (map length rows)
    \<and> (\<forall>i j def. csv_value self (int i) (int j) def =
        ret (if i < length rows \<and> j < col_cnt self then Some (if j < length (rows ! i) then rows ! i ! j else []) else def))"
proof -
  let ?p = "csv_parse_new junk (print_csv rows @ [NUL]) buf" and ?cc = "foldl max 0 (map length rows)"
  from csv_lines_printed [OF cells, of ?p "[]" 0 "[]"] obtain Z qss p' where
    l: "csv_lines ?p 0 [] = ret (True, ?cc, qss, p')" "mem p' = Z @ [NUL]" and
    q: "list_all2 (list_all2 (has_cell Z)) qss rows"
    by (auto simp: csv_parse_new_def)
  have lens: "length qss = length rows" "\<And>i. i < length rows \<Longrightarrow> length (qss ! i) = length (rows ! i)"
    using q by (auto simp: list_all2_conv_all_nth)
  have w: "\<forall>x\<in>set qss. length x \<le> ?cc"
    using lens foldl_max_upper [of _ "map length rows" 0] by (metis in_set_conv_nth length_map nth_map)
  then have rc: "\<forall>x\<in>set (map (row_cells ?cc) qss). length x = ?cc" by (simp add: length_row_cells)
  let ?d = "concat (map (row_cells ?cc) qss)"
  have "fill_lines ([] @ replicate (table_entries (length qss) ?cc) None) ?cc 0 qss = ret ([] @ ?d)"
    by (rule fill_lines_append) (use w lens(1) table_entries_fit [OF size(1)] in simp_all)
  then obtain self where self: "load junk err (csv_new buf) (Some (length (print_csv rows), print_csv rows)) = ret (True, self)"
    "line_cnt self = length rows" "col_cnt self = ?cc" "cells self = Some ?d" "csv_mem self = Z @ [NUL]"
    using l lens(1) size(2) by (auto simp: load_def parse_def csv_new_def)
  have "csv_value self (int i) (int j) def =
      ret (if i < length rows \<and> j < ?cc then Some (if j < length (rows ! i) then rows ! i ! j else []) else def)" for i j def
  proof (cases "i < length rows \<and> j < ?cc")
    case True
    have c: "?d ! (i * ?cc + j) = row_cells ?cc (qss ! i) ! j"
      using nth_concat_rows [OF rc, of i j] True lens(1) by simp
    have "i * ?cc + j < Suc i * ?cc" using True by simp
    also have "\<dots> \<le> length rows * ?cc" using True by (intro mult_le_mono1) simp
    finally have b: "i * ?cc + j < length ?d" using length_concat_rows [OF rc] lens(1) by simp
    have e: "length ?d < 2 ^ 30" using length_concat_rows [OF rc] lens(1) size(1) by simp
    have h: "has_cell Z (qss ! i ! j) (rows ! i ! j)" "NUL \<notin> set (rows ! i ! j)" if "j < length (rows ! i)"
      using q True that cells by (simp add: list_all2_conv_all_nth, metis nth_mem True that cells)
    show ?thesis using True self(2,3,5) csv_value_at [OF self(4), of i j def] b e c lens(2) [of i] h has_cell_cstr [of Z _ _ "[NUL]"]
      by (auto simp: row_cells_def nth_append)
  qed (use self in \<open>auto simp: csv_value_def\<close>)
  then show ?thesis using self by simp
qed

theorem csv_roundtrip_witness:
  "\<exists>self. load False [] (csv_new []) (Some (length (print_csv [[''a,b'', ''say \"'', ''c''], [''x'']]), print_csv [[''a,b'', ''say \"'', ''c''], [''x'']])) = ret (True, self)
    \<and> csv_value self 0 1 None = ret (Some ''say \"'') \<and> csv_value self 1 2 None = ret (Some [])"
proof -
  let ?rows = "[[''a,b'', ''say \"'', ''c''], [''x'']]"
  have "\<forall>r\<in>set ?rows. r \<noteq> [] \<and> (\<forall>c\<in>set r. NUL \<notin> set c)" by (simp add: NUL_def)
  moreover have "length ?rows * foldl max 0 (map length ?rows) < 2 ^ 30" "length (print_csv ?rows) + 1 < 2 ^ 32"
    by (simp_all add: print_csv_def esc_def)
  ultimately have "\<exists>self. load False [] (csv_new []) (Some (length (print_csv ?rows), print_csv ?rows)) = ret (True, self)
    \<and> line_cnt self = length ?rows \<and> col_cnt self = foldl max 0 (map length ?rows)
    \<and> (\<forall>i j def. csv_value self (int i) (int j) def =
        ret (if i < length ?rows \<and> j < col_cnt self then Some (if j < length (?rows ! i) then ?rows ! i ! j else []) else def))"
    by (rule csv_roundtrip)
  then obtain self where
    s: "load False [] (csv_new []) (Some (length (print_csv ?rows), print_csv ?rows)) = ret (True, self)" "col_cnt self = 3"
    and v: "\<And>i j def. csv_value self (int i) (int j) def =
        ret (if i < length ?rows \<and> j < col_cnt self then Some (if j < length (?rows ! i) then ?rows ! i ! j else []) else def)"
    by auto
  show ?thesis using s(1) v [of 0 1 None] v [of 1 2 None] by (intro exI [of _ self]) (simp add: s(2))
qed

section \<open>Where the reader and its format part\<close>

text \<open>
  A quoted cell at the end of the text is an error, since only a comma or CR LF may follow the closing quote;
  and in a cell without quotes at the end of the text a doubled quote leaves a character too many, since no zero is
  written where the shortened cell ends.
\<close>

lemma csv_quoted_at_end:
  "parse False (csv_new []) [CHR 0x22, CHR ''a'', CHR 0x22, NUL] = ret (False, csv_new [])"
  by code_simp

lemma csv_doubled_at_end:
  "bnd (parse False (csv_new []) [CHR ''a'', CHR 0x22, CHR 0x22, CHR ''b'', NUL]) (\<lambda>(ok, self). csv_value self 0 0 None)
    = ret (Some [CHR ''a'', CHR 0x22, CHR ''b'', CHR ''b''])"
  by code_simp

text \<open>A line end without CR is part of the cell, and a negative column reads a cell of the line before.\<close>

lemma csv_newline_alone:
  "bnd (parse False (csv_new []) [CHR ''a'', CHR 0x0A, CHR ''b'', NUL]) (\<lambda>(ok, self). csv_value self 0 0 None)
    = ret (Some [CHR ''a'', CHR 0x0A, CHR ''b''])"
  by code_simp

lemma csv_negative_column:
  "bnd (parse False (csv_new []) [CHR ''a'', CHR 0x0D, CHR 0x0A, CHR ''b'', NUL]) (\<lambda>(ok, self). csv_value self 1 (- 1) None)
    = ret (Some ''a'')"
  by code_simp

end
