(* ===== verification/Ini.thy ===== *)
theory Ini
  imports StringUtil
begin

text \<open>
  The INI reader of \<^verbatim>\<open>net/ini.cpp\<close> and \<^verbatim>\<open>net/ini.h\<close>. The parser cuts the caller's text into pieces by
  writing zeros into it; no piece is written again once a name, key or value points to it, so these
  pointers are modelled by the strings they point to. The two linked lists are lists, newest first, and the pointers
  \<^verbatim>\<open>cache\<close> and \<^verbatim>\<open>next\<close> into the section list are positions in it: the list does not change while they are set.
\<close>

section \<open>Trimming\<close>

text \<open>
  \<^verbatim>\<open>isspace\<close> of the standard library is called with a \<^verbatim>\<open>char\<close>, which is signed: it is defined for the values 0 to 127 and for
  \<^verbatim>\<open>EOF\<close>, -1, which is the byte 255. For the bytes in between the behaviour is undefined, and the debug library stops with a failed assertion.
\<close>

definition isspace_domain :: "char \<Rightarrow> bool" where
  "isspace_domain ch \<longleftrightarrow> (of_char ch :: nat) < 128 \<or> (of_char ch :: nat) = 255"

definition isspace_c :: "char \<Rightarrow> bool prog" where
  "isspace_c ch = (if isspace_domain ch then ret (c_isspace ch) else abort AssertionFailed)"

text \<open>The loops run over the characters from position \<open>i\<close> on.\<close>

fun ltrim_loop :: "string \<Rightarrow> nat \<Rightarrow> nat prog" where
  "ltrim_loop [] i = ret i"
| "ltrim_loop (ch # cs) i = bnd (isspace_c ch) (\<lambda>sp. if \<not> sp then ret i else ltrim_loop cs (i + 1))"

definition ltrim :: "string \<Rightarrow> string prog" where
  "ltrim str = bnd (ltrim_loop str 0) (\<lambda>i. ret (drop i str))"

fun rtrim_loop :: "string \<Rightarrow> nat \<Rightarrow> int \<Rightarrow> int prog" where
  "rtrim_loop [] i e = ret e"
| "rtrim_loop (ch # cs) i e = bnd (isspace_c ch) (\<lambda>sp.
     if sp then rtrim_loop cs (i + 1) (if e < 0 then int i else e)
     else rtrim_loop cs (i + 1) (if e \<ge> 0 then - 1 else e))"

definition rtrim :: "string \<Rightarrow> string prog" where
  "rtrim str = bnd (rtrim_loop str 0 (- 1)) (\<lambda>e. ret (if e \<ge> 0 then take (nat e) str else str))"

definition trim :: "string \<Rightarrow> string prog" where
  "trim str = bnd (ltrim str) rtrim"

section \<open>State\<close>

record keyval =
  key :: string
  val :: "string option"

record ini_section =
  name :: string
  kv :: "keyval list"

text \<open>\<open>None\<close> in \<open>cache\<close> or \<open>next\<close> is a pointer that was never set, \<open>Some None\<close> the null pointer.\<close>

record ini =
  base :: "ini_section list"
  cache :: "nat option option"
  nextp :: "nat option option"
  errmsg :: string

definition ini_new :: "string \<Rightarrow> ini" where
  "ini_new junk = \<lparr>base = [], cache = None, nextp = None, errmsg = junk\<rparr>"

definition inifile_new :: "string \<Rightarrow> ini" where
  "inifile_new junk = (ini_new junk)\<lparr>nextp := Some None\<rparr>"

definition clear :: "ini \<Rightarrow> ini" where
  "clear self = self\<lparr>base := [], cache := Some None, nextp := Some None, errmsg := (errmsg self)[0 := NUL]\<rparr>"

section \<open>Parsing\<close>

definition fail :: "ini \<Rightarrow> string \<Rightarrow> (bool \<times> ini) prog" where
  "fail self msg = ret (False, self\<lparr>errmsg := snprintf (errmsg self) msg\<rparr>)"

text \<open>What stands before the first \<open>ch\<close>, and what follows it if there is one (\<^verbatim>\<open>strchr\<close> and the zero written there).\<close>

definition cut :: "char \<Rightarrow> string \<Rightarrow> string \<times> string option" where
  "cut ch str = (takeWhile (\<lambda>x. x \<noteq> ch) str,
     (case dropWhile (\<lambda>x. x \<noteq> ch) str of [] \<Rightarrow> None | _ # rest \<Rightarrow> Some rest))"

definition parse_section :: "ini \<Rightarrow> string \<Rightarrow> (bool \<times> ini) prog" where
  "parse_section self str =
     (case cut (CHR '']'') (tl str) of
        (_, None) \<Rightarrow> fail self ''not found section end flag ]''
      | (nm, Some _) \<Rightarrow> bnd (trim nm) (\<lambda>nm.
          if nm = [] then fail self ''empty section name''
          else ret (True, self\<lparr>base := \<lparr>name = nm, kv = []\<rparr> # base self\<rparr>)))"

definition parse_keyval :: "ini \<Rightarrow> string \<Rightarrow> (bool \<times> ini) prog" where
  "parse_keyval self str =
     (case cut (CHR ''='') str of
        (_, None) \<Rightarrow> fail self ''not found key value flag =''
      | (k, Some v) \<Rightarrow> bnd (trim k) (\<lambda>k.
          if k = [] then fail self ''empty keyval name''
          else bnd (trim v) (\<lambda>v.
            let n = \<lparr>key = k, val = (if v = [] then None else Some v)\<rparr> in
            (case base self of [] \<Rightarrow> abort NullDeref
             | sec # secs \<Rightarrow> ret (True, self\<lparr>base := sec\<lparr>kv := n # kv sec\<rparr> # secs\<rparr>)))))"

definition parse_line :: "ini \<Rightarrow> string \<Rightarrow> (bool \<times> ini) prog" where
  "parse_line self line = bnd (trim (fst (cut (CHR '';'') line))) (\<lambda>line.
      if line = [] then ret (True, self)
      else if hd line = CHR ''['' then parse_section self line
      else parse_keyval self line)"

lemma cut_rest_shorter: "cut ch str = (a, Some r) \<Longrightarrow> length r < length str"
  by (auto simp: cut_def split: list.splits) (metis dropWhile_eq_Cons_conv length_dropWhile_le Suc_le_eq length_Cons)

function parse_lines :: "ini \<Rightarrow> string \<Rightarrow> (bool \<times> ini) prog" where
  "parse_lines self str =
     (case cut (CHR 0x0A) str of (line, nextline) \<Rightarrow>
        (case parse_line self line of
           Some (Ok (True, self')) \<Rightarrow> (case nextline of None \<Rightarrow> ret (True, self') | Some r \<Rightarrow> parse_lines self' r)
         | r \<Rightarrow> r))"
  by pat_completeness auto

termination
  by (relation "measure (length \<circ> snd)") (auto dest: cut_rest_shorter [OF sym])

declare parse_lines.simps [simp del]

text \<open>\<open>str\<close> holds the characters from the pointer on; the text ends before the first zero.\<close>

definition ini_parse :: "ini \<Rightarrow> string \<Rightarrow> (bool \<times> ini) prog" where
  "ini_parse self str =
     (let self = clear self in
      parse_lines (self\<lparr>base := \<lparr>name = [], kv = []\<rparr> # base self\<rparr>) (takeWhile (\<lambda>ch. ch \<noteq> NUL) str))"

section \<open>Looking up values\<close>

fun find_key :: "string \<Rightarrow> keyval list \<Rightarrow> string option \<Rightarrow> string option" where
  "find_key k [] def = def"
| "find_key k (n # ns) def = (if k = key n then (case val n of Some v \<Rightarrow> Some v | None \<Rightarrow> def) else find_key k ns def)"

text \<open>The loop over the sections does not stop at a match: the last one in the list counts.\<close>

fun scan_sections :: "string \<Rightarrow> ini_section list \<Rightarrow> nat \<Rightarrow> nat option \<Rightarrow> nat option" where
  "scan_sections sec [] i node = node"
| "scan_sections sec (s # ss) i node = scan_sections sec ss (i + 1) (if sec = name s then Some i else node)"

definition ini_value :: "ini \<Rightarrow> string \<Rightarrow> string \<Rightarrow> string option \<Rightarrow> (string option \<times> ini) prog" where
  "ini_value self sec k def =
     (case cache self of
        None \<Rightarrow> abort Uninitialised
      | Some c \<Rightarrow>
          let hit = (case c of None \<Rightarrow> False | Some i \<Rightarrow> sec = name (base self ! i));
              node = (if hit then c else scan_sections sec (base self) 0 None);
              self = (if hit \<or> node = None then self else self\<lparr>cache := Some node\<rparr>) in
          ret (case node of None \<Rightarrow> def | Some i \<Rightarrow> find_key k (kv (base self ! i)) def, self))"

definition ini_int_value :: "ini \<Rightarrow> string \<Rightarrow> string \<Rightarrow> int \<Rightarrow> (int \<times> ini) prog" where
  "ini_int_value self sec k def =
     bnd (ini_value self sec k None) (\<lambda>(v, self). case v of None \<Rightarrow> ret (def, self) | Some v \<Rightarrow> ret (tointeger v def, self))"

definition next_section :: "ini \<Rightarrow> (bool \<times> ini) prog" where
  "next_section self =
     (case nextp self of
        None \<Rightarrow> abort Uninitialised
      | Some n \<Rightarrow>
          let i = (case n of None \<Rightarrow> 0 | Some i \<Rightarrow> i + 1);
              n' = (if i < length (base self) then Some i else None) in
          ret (n' \<noteq> None, self\<lparr>nextp := Some n'\<rparr>))"

definition cur_value :: "ini \<Rightarrow> string \<Rightarrow> string option \<Rightarrow> string option prog" where
  "cur_value self k def =
     (case nextp self of
        None \<Rightarrow> abort Uninitialised
      | Some None \<Rightarrow> ret def
      | Some (Some i) \<Rightarrow> ret (find_key k (kv (base self ! i)) def))"

definition cur_int_value :: "ini \<Rightarrow> string \<Rightarrow> int \<Rightarrow> int prog" where
  "cur_int_value self k def =
     bnd (cur_value self k None) (\<lambda>v. case v of None \<Rightarrow> ret def | Some v \<Rightarrow> ret (tointeger v def))"

section \<open>inifile\<close>

text \<open>
  A file that \<^verbatim>\<open>fopen\<close> opened is its content. After \<^verbatim>\<open>fseek(f, 0, SEEK_END)\<close> the position is its end, and
  \<^verbatim>\<open>fread\<close> reads from there; \<open>errtext\<close> is \<^verbatim>\<open>strerror(errno)\<close>. For a file that is longer than a \<^verbatim>\<open>long\<close> can say \<^verbatim>\<open>ftell\<close> answers -1: then the size
  of the buffer wraps to 0 and the final zero is written outside it.
\<close>

definition inifile_load :: "string \<Rightarrow> ini \<Rightarrow> string option \<Rightarrow> (bool \<times> ini) prog" where
  "inifile_load errtext self f =
     (case f of
        None \<Rightarrow> fail self errtext
      | Some content \<Rightarrow>
          let pos = length content; len = pos; r = take len (drop pos content) in
          if int pos \<ge> 2 ^ 31 then abort OutOfBounds
          else if length r \<noteq> len then fail self errtext
          else bnd (ini_parse self (r @ [NUL])) (\<lambda>(ok, self).
            if ok then ret (True, self) else ret (False, clear self)))"

end
