(* ===== verification/IniProps.thy ===== *)
theory IniProps
  imports Ini
begin

text \<open>
  Properties of the INI reader: its index loops trim a string the way a reference definition does; the cached
  section never changes what a lookup finds; a document printed section by section is read back; and every
  non-empty file fails to load.
\<close>

section \<open>Trimming\<close>

text \<open>The reference: drop spaces from the front, and from the front of the reverse.\<close>

definition strip :: "string \<Rightarrow> string" where
  "strip str = rev (dropWhile c_isspace (rev (dropWhile c_isspace str)))"

lemma isspace_c_ret [simp]: "isspace_domain ch \<Longrightarrow> isspace_c ch = ret (c_isspace ch)"
  by (simp add: isspace_c_def)

lemma ltrim_loop_drop:
  "\<forall>ch\<in>set str. isspace_domain ch \<Longrightarrow> \<exists>n. ltrim_loop str i = ret n \<and> n \<ge> i \<and> drop (n - i) str = dropWhile c_isspace str"
proof (induction str arbitrary: i)
  case (Cons ch cs)
  show ?case
  proof (cases "c_isspace ch")
    case True
    from Cons obtain n where n: "ltrim_loop cs (i + 1) = ret n" "n \<ge> i + 1" "drop (n - (i + 1)) cs = dropWhile c_isspace cs" by fastforce
    moreover have "n - i = Suc (n - (i + 1))" using n(2) by simp
    ultimately show ?thesis using Cons.prems True by auto
  qed (use Cons.prems in auto)
qed simp

lemma ltrim_dropWhile: "\<forall>ch\<in>set str. isspace_domain ch \<Longrightarrow> ltrim str = ret (dropWhile c_isspace str)"
  using ltrim_loop_drop [of str 0] by (auto simp: ltrim_def)

text \<open>What the loop of \<^verbatim>\<open>rtrim\<close> has found: where the spaces at the end of the part it has passed begin.\<close>

definition tail_start :: "string \<Rightarrow> int" where
  "tail_start str = (let n = length (rev (dropWhile c_isspace (rev str))) in if n = length str then - 1 else int n)"

lemma tail_start_snoc:
  "tail_start (str @ [ch]) = (if c_isspace ch then (if tail_start str < 0 then int (length str) else tail_start str) else - 1)"
proof -
  have "length (dropWhile c_isspace (rev str)) \<le> length str" using length_dropWhile_le [of c_isspace "rev str"] by simp
  then show ?thesis by (auto simp: tail_start_def Let_def)
qed

lemma tail_start_neg: "tail_start str < 0 \<Longrightarrow> tail_start str = - 1"
  by (simp add: tail_start_def Let_def split: if_splits)

lemma rtrim_loop_tail:
  "\<forall>ch\<in>set cs. isspace_domain ch \<Longrightarrow> rtrim_loop cs (length str) (tail_start str) = ret (tail_start (str @ cs))"
proof (induction cs arbitrary: str)
  case (Cons ch cs)
  have "rtrim_loop (ch # cs) (length str) (tail_start str) = rtrim_loop cs (length (str @ [ch])) (tail_start (str @ [ch]))"
    using Cons.prems tail_start_neg [of str] by (simp add: tail_start_snoc)
  then show ?case using Cons.IH [of "str @ [ch]"] Cons.prems by simp
qed simp

lemma rtrim_reverse: "\<forall>ch\<in>set str. isspace_domain ch \<Longrightarrow> rtrim str = ret (rev (dropWhile c_isspace (rev str)))"
proof -
  assume "\<forall>ch\<in>set str. isspace_domain ch"
  then have "rtrim_loop str 0 (- 1) = ret (tail_start str)" using rtrim_loop_tail [of str "[]"] by (simp add: tail_start_def)
  moreover have "take (length (dropWhile c_isspace (rev str))) str = rev (dropWhile c_isspace (rev str))"
    by (metis append_eq_conv_conj length_rev rev_append rev_rev_ident takeWhile_dropWhile_id)
  moreover have "dropWhile c_isspace (rev str) = rev str" if "length (dropWhile c_isspace (rev str)) = length str"
    using that by (metis append_Nil append_eq_append_conv length_rev takeWhile_dropWhile_id)
  ultimately show ?thesis by (auto simp: rtrim_def tail_start_def Let_def)
qed

text \<open>
  The two index loops of \<^verbatim>\<open>ini::trim\<close> compute the string without its spaces at both ends, as the reference
  definition by reversal does, for every string of characters \<^verbatim>\<open>isspace\<close> is defined for.
\<close>

theorem ini_trim_equivalence: "\<forall>ch\<in>set str. isspace_domain ch \<Longrightarrow> trim str = ret (strip str)"
  by (simp add: trim_def strip_def ltrim_dropWhile rtrim_reverse set_dropWhileD)

text \<open>Any other character in a text that is trimmed stops the reader.\<close>

lemma rtrim_loop_undefined: "\<exists>ch\<in>set cs. \<not> isspace_domain ch \<Longrightarrow> rtrim_loop cs i e = abort AssertionFailed"
  by (induction cs i e rule: rtrim_loop.induct) (auto simp: isspace_c_def)

lemma trim_undefined: "\<exists>ch\<in>set str. \<not> isspace_domain ch \<Longrightarrow> trim str = abort AssertionFailed"
proof -
  assume bad: "\<exists>ch\<in>set str. \<not> isspace_domain ch"
  have "ltrim_loop cs i = abort AssertionFailed \<or>
    (\<exists>n. ltrim_loop cs i = ret n \<and> n \<ge> i \<and> (\<exists>ch\<in>set (drop (n - i) cs). \<not> isspace_domain ch))"
    if "\<exists>ch\<in>set cs. \<not> isspace_domain ch" for cs i using that
  proof (induction cs arbitrary: i)
    case (Cons ch cs)
    show ?case
    proof (cases "isspace_domain ch \<and> c_isspace ch")
      case True
      then have "\<exists>x\<in>set cs. \<not> isspace_domain x" using Cons.prems by auto
      from Cons.IH [OF this, of "Suc i"] show ?thesis using True by (auto simp: Suc_diff_le) (metis Suc_diff_le Suc_leD diff_Suc_Suc drop_Suc_Cons)
    next
      case False
      then show ?thesis using Cons.prems by (cases "isspace_domain ch") (auto simp: isspace_c_def)
    qed
  qed simp
  from this [OF bad, of 0] consider "ltrim_loop str 0 = abort AssertionFailed"
    | n where "ltrim_loop str 0 = ret n" "\<exists>ch\<in>set (drop n str). \<not> isspace_domain ch" by auto
  then show ?thesis
  proof cases
    case (2 n)
    then show ?thesis using rtrim_loop_undefined [OF 2(2)] by (simp add: trim_def ltrim_def rtrim_def)
  qed (simp add: trim_def ltrim_def)
qed

lemma strip_id:
  assumes "\<forall>ch\<in>set str. isspace_domain ch" "str \<noteq> [] \<Longrightarrow> \<not> c_isspace (hd str) \<and> \<not> c_isspace (last str)"
  shows "trim str = ret str"
proof (cases str rule: rev_cases)
  case (snoc ys y)
  then have "dropWhile c_isspace str = str" using assms(2) by (cases ys) auto
  then show ?thesis using assms snoc by (simp add: ini_trim_equivalence strip_def)
qed (simp add: trim_def ltrim_def rtrim_def)

section \<open>The section cache\<close>

definition cache_ok :: "ini \<Rightarrow> bool" where
  "cache_ok self \<longleftrightarrow> (case cache self of None \<Rightarrow> False | Some None \<Rightarrow> True
     | Some (Some i) \<Rightarrow> i < length (base self) \<and> scan_sections (name (base self ! i)) (base self) 0 None = Some i)"

text \<open>A lookup without a cache: the first section of that name in the text, the last setting of the key in it.\<close>

definition ini_lookup :: "ini_section list \<Rightarrow> string \<Rightarrow> string \<Rightarrow> string option \<Rightarrow> string option" where
  "ini_lookup secs sec k def = (case find (\<lambda>s. name s = sec) (rev secs) of None \<Rightarrow> def | Some s \<Rightarrow> find_key k (kv s) def)"

lemma scan_sections_append:
  "scan_sections sec (ss @ ts) i node = scan_sections sec ts (i + length ss) (scan_sections sec ss i node)"
  by (induction ss arbitrary: i node) simp_all

lemma scan_sections_bound:
  "scan_sections sec ss 0 None = Some i \<Longrightarrow> i < length ss \<and> name (ss ! i) = sec"
proof (induction ss arbitrary: i rule: rev_induct)
  case (snoc s ss)
  then show ?case by (auto simp: scan_sections_append nth_append split: if_splits)
qed simp

lemma scan_sections_find:
  "map_option (nth ss) (scan_sections sec ss 0 None) = find (\<lambda>s. name s = sec) (rev ss)"
proof (induction ss rule: rev_induct)
  case (snoc s ss)
  show ?case
  proof (cases "name s = sec")
    case False
    then have "scan_sections sec (ss @ [s]) 0 None = scan_sections sec ss 0 None" by (auto simp: scan_sections_append)
    moreover have "map_option (nth (ss @ [s])) (scan_sections sec ss 0 None) = map_option (nth ss) (scan_sections sec ss 0 None)"
      using scan_sections_bound [of sec ss] by (cases "scan_sections sec ss 0 None") (auto simp: nth_append)
    ultimately show ?thesis using snoc False by simp
  qed (auto simp: scan_sections_append)
qed simp

lemma scan_value:
  "(case scan_sections sec (base self) 0 None of None \<Rightarrow> def | Some i \<Rightarrow> find_key k (kv (base self ! i)) def)
    = ini_lookup (base self) sec k def"
  using scan_sections_find [of "base self" sec] by (auto simp: ini_lookup_def split: option.splits)

lemma ini_value_cache_lemma:
  assumes "cache_ok self"
  shows "\<exists>self'. ini_value self sec k def = ret (ini_lookup (base self) sec k def, self')
    \<and> cache_ok self' \<and> base self' = base self \<and> nextp self' = nextp self"
proof -
  obtain c where c: "cache self = Some c" using assms by (auto simp: cache_ok_def split: option.splits)
  show ?thesis
  proof (cases "\<exists>i. c = Some i \<and> sec = name (base self ! i)")
    case True
    then obtain i where i: "c = Some i" "sec = name (base self ! i)" by blast
    then have "scan_sections sec (base self) 0 None = Some i" using assms c by (simp add: cache_ok_def)
    then have "find_key k (kv (base self ! i)) def = ini_lookup (base self) sec k def"
      using scan_value [where sec = sec and self = self and def = def and k = k] by simp
    then show ?thesis using assms c i by (simp add: ini_value_def)
  next
    case False
    let ?node = "scan_sections sec (base self) 0 None"
    have "cache_ok (self\<lparr>cache := Some ?node\<rparr>)" if "?node \<noteq> None"
      using that scan_sections_bound [of sec "base self"] by (auto simp: cache_ok_def)
    then show ?thesis using False c assms
      by (cases c; cases ?node) (auto simp: ini_value_def Let_def scan_value [symmetric])
  qed
qed

lemma cache_ok_cleared: "cache_ok (clear self)"
  by (simp add: cache_ok_def clear_def)

text \<open>
  C22. The cache is invisible: in every state whose cache is right, \<^verbatim>\<open>ini::value\<close> gives what a lookup without a
  cache gives, leaves the sections alone and leaves a right cache for the next call.
\<close>

theorem ini_value_cache:
  assumes "cache_ok self"
  shows "\<exists>self'. ini_value self sec k def = ret (ini_lookup (base self) sec k def, self')
    \<and> cache_ok self' \<and> base self' = base self \<and> nextp self' = nextp self"
  using assms by (rule ini_value_cache_lemma)

theorem ini_value_cache_witness:
  "\<exists>self'. ini_value (clear (ini_new [])) ''a'' ''b'' None = ret (None, self') \<and> cache_ok self'"
  using ini_value_cache [OF cache_ok_cleared, of "ini_new []" "''a''" "''b''" None]
  by (auto simp: ini_lookup_def clear_def)

section \<open>Reading back a printed document\<close>

type_synonym ini_doc = "(string \<times> (string \<times> string) list) list"

definition print_keyval :: "string \<times> string \<Rightarrow> string" where
  "print_keyval p = fst p @ [CHR ''=''] @ snd p @ [CHR 0x0A]"

definition print_section :: "string \<times> (string \<times> string) list \<Rightarrow> string" where
  "print_section s = [CHR ''[''] @ fst s @ [CHR '']'', CHR 0x0A] @ concat (map print_keyval (snd s))"

definition print_ini :: "ini_doc \<Rightarrow> string" where
  "print_ini doc = concat (map print_section doc)"

definition trimmed :: "string \<Rightarrow> bool" where
  "trimmed str \<longleftrightarrow> str = [] \<or> \<not> c_isspace (hd str) \<and> \<not> c_isspace (last str)"

definition ok_text :: "char set \<Rightarrow> string \<Rightarrow> bool" where
  "ok_text bad str \<longleftrightarrow> trimmed str \<and> set str \<inter> (bad \<union> {NUL, CHR 0x0A, CHR '';''}) = {} \<and> (\<forall>ch\<in>set str. isspace_domain ch)"

definition ok_keyval :: "string \<times> string \<Rightarrow> bool" where
  "ok_keyval p \<longleftrightarrow> fst p \<noteq> [] \<and> hd (fst p) \<noteq> CHR ''['' \<and> ok_text {CHR ''=''} (fst p) \<and> ok_text {} (snd p)"

definition ok_section :: "string \<times> (string \<times> string) list \<Rightarrow> bool" where
  "ok_section s \<longleftrightarrow> fst s \<noteq> [] \<and> ok_text {CHR '']''} (fst s) \<and> (\<forall>p\<in>set (snd s). ok_keyval p)"

definition to_keyval :: "string \<times> string \<Rightarrow> keyval" where
  "to_keyval p = \<lparr>key = fst p, val = (if snd p = [] then None else Some (snd p))\<rparr>"

definition to_section :: "string \<times> (string \<times> string) list \<Rightarrow> ini_section" where
  "to_section s = \<lparr>name = fst s, kv = rev (map to_keyval (snd s))\<rparr>"

lemma cut_found: "ch \<notin> set a \<Longrightarrow> cut ch (a @ ch # r) = (a, Some r)"
proof -
  assume a: "ch \<notin> set a"
  then have "takeWhile (\<lambda>x. x \<noteq> ch) (a @ ch # r) = a" "dropWhile (\<lambda>x. x \<noteq> ch) (a @ ch # r) = ch # r"
    by (induction a) auto
  then show ?thesis by (simp add: cut_def)
qed

lemma cut_absent: "ch \<notin> set a \<Longrightarrow> fst (cut ch a) = a"
  by (induction a) (auto simp: cut_def)

lemma parse_lines_line:
  assumes "CHR 0x0A \<notin> set line" "parse_line self line = ret (True, self')"
  shows "parse_lines self (line @ CHR 0x0A # rest) = parse_lines self' rest"
  using assms by (subst parse_lines.simps) (simp add: cut_found ret_def)

lemma parse_lines_Nil: "parse_lines self [] = ret (True, self)"
  by (subst parse_lines.simps) (simp add: cut_def parse_line_def trim_def ltrim_def rtrim_def, simp add: ret_def)

lemma parse_line_section:
  assumes "ok_text {CHR '']''} n" "n \<noteq> []"
  shows "parse_line self (CHR ''['' # n @ [CHR '']'']) = ret (True, self\<lparr>base := \<lparr>name = n, kv = []\<rparr> # base self\<rparr>)"
proof -
  let ?l = "CHR ''['' # n @ [CHR '']'']"
  have "fst (cut (CHR '';'') ?l) = ?l" using assms by (intro cut_absent) (auto simp: ok_text_def)
  moreover have "trim ?l = ret ?l" using assms(1) by (intro strip_id) (auto simp: ok_text_def c_isspace_def isspace_domain_def)
  moreover have "cut (CHR '']'') (n @ [CHR '']'']) = (n, Some [])" using assms cut_found [of "CHR '']''" n "[]"] by (auto simp: ok_text_def)
  moreover have "trim n = ret n" using assms by (intro strip_id) (auto simp: ok_text_def trimmed_def)
  ultimately show ?thesis using assms(2) by (simp add: parse_line_def parse_section_def)
qed

lemma parse_line_keyval:
  assumes "ok_keyval (k, v)" "base self = sec # secs"
  shows "parse_line self (k @ CHR ''='' # v) = ret (True, self\<lparr>base := sec\<lparr>kv := to_keyval (k, v) # kv sec\<rparr> # secs\<rparr>)"
proof -
  let ?l = "k @ CHR ''='' # v"
  have ok: "k \<noteq> []" "hd k \<noteq> CHR ''[''" "trimmed k" "trimmed v" "CHR ''='' \<notin> set k" "CHR '';'' \<notin> set k" "CHR '';'' \<notin> set v"
    and d: "\<forall>ch\<in>set k. isspace_domain ch" "\<forall>ch\<in>set v. isspace_domain ch"
    using assms(1) by (auto simp: ok_keyval_def ok_text_def)
  have "fst (cut (CHR '';'') ?l) = ?l" using ok by (intro cut_absent) auto
  moreover have "trim ?l = ret ?l"
    using ok d by (intro strip_id) (auto simp: trimmed_def c_isspace_def isspace_domain_def hd_append)
  moreover have "cut (CHR ''='') ?l = (k, Some v)" using ok(5) by (rule cut_found)
  moreover have "trim k = ret k" "trim v = ret v" using ok d by (auto intro!: strip_id simp: trimmed_def)
  ultimately show ?thesis using ok assms(2) by (simp add: parse_line_def parse_keyval_def to_keyval_def hd_append)
qed

lemma parse_lines_keyvals:
  assumes "\<forall>p\<in>set kvs. ok_keyval p" "base self = sec # secs"
  shows "parse_lines self (concat (map print_keyval kvs) @ rest)
    = parse_lines (self\<lparr>base := sec\<lparr>kv := rev (map to_keyval kvs) @ kv sec\<rparr> # secs\<rparr>) rest"
  using assms
proof (induction kvs arbitrary: self sec)
  case Nil
  then have "self\<lparr>base := sec # secs\<rparr> = self" by (cases self) simp
  then show ?case by simp
next
  case (Cons p kvs)
  obtain k v where p: "p = (k, v)" by (cases p)
  have "CHR 0x0A \<notin> set (k @ CHR ''='' # v)" using Cons.prems(1) p by (auto simp: ok_keyval_def ok_text_def)
  moreover have "parse_line self (k @ CHR ''='' # v) = ret (True, self\<lparr>base := sec\<lparr>kv := to_keyval p # kv sec\<rparr> # secs\<rparr>)"
    using Cons.prems p by (simp add: parse_line_keyval)
  ultimately show ?case using Cons.IH [of "self\<lparr>base := sec\<lparr>kv := to_keyval p # kv sec\<rparr> # secs\<rparr>"] Cons.prems(1)
      parse_lines_line [of "k @ CHR ''='' # v"] by (simp add: print_keyval_def p)
qed

lemma parse_lines_doc:
  assumes "\<forall>s\<in>set doc. ok_section s"
  shows "parse_lines self (print_ini doc) = ret (True, self\<lparr>base := rev (map to_section doc) @ base self\<rparr>)"
  using assms
proof (induction doc arbitrary: self)
  case Nil
  then show ?case by (simp add: print_ini_def parse_lines_Nil)
next
  case (Cons s doc)
  obtain n kvs where s: "s = (n, kvs)" by (cases s)
  have ok: "n \<noteq> []" "ok_text {CHR '']''} n" "\<forall>p\<in>set kvs. ok_keyval p" using Cons.prems s by (auto simp: ok_section_def)
  let ?self = "self\<lparr>base := \<lparr>name = n, kv = []\<rparr> # base self\<rparr>"
  have "CHR 0x0A \<notin> set (CHR ''['' # n @ [CHR '']''])" using ok(2) by (auto simp: ok_text_def)
  from parse_lines_line [OF this parse_line_section [OF ok(2,1)]]
  have "parse_lines self (print_ini (s # doc)) = parse_lines ?self (concat (map print_keyval kvs) @ print_ini doc)"
    by (simp add: print_ini_def print_section_def s)
  also have "\<dots> = parse_lines (?self\<lparr>base := to_section s # base self\<rparr>) (print_ini doc)"
    using parse_lines_keyvals [OF ok(3), of ?self] by (simp add: to_section_def s)
  finally show ?case using Cons by simp
qed

text \<open>No zero is printed.\<close>

lemma print_ini_zero: "\<forall>s\<in>set doc. ok_section s \<Longrightarrow> takeWhile (\<lambda>ch. ch \<noteq> NUL) (print_ini doc @ NUL # rest) = print_ini doc"
proof -
  assume "\<forall>s\<in>set doc. ok_section s"
  then have "\<forall>ch\<in>set (print_ini doc). ch \<noteq> NUL"
    by (auto simp: print_ini_def print_section_def print_keyval_def ok_section_def ok_keyval_def ok_text_def NUL_def)
  then show ?thesis by (simp add: takeWhile_append2)
qed

lemma find_key_doc:
  "find_key k (map to_keyval ps) def = (case map_of ps k of None \<Rightarrow> def | Some v \<Rightarrow> if v = [] then def else Some v)"
  by (induction ps) (auto simp: to_keyval_def)

lemma find_section_doc: "find (\<lambda>s. name s = sec) (map to_section doc) = map_option (\<lambda>kvs. to_section (sec, kvs)) (map_of doc sec)"
  by (induction doc) (auto simp: to_section_def)

text \<open>
  C13. A printed document is read back, whatever follows its final zero: for every list of sections, with names, keys and values of
  characters \<^verbatim>\<open>isspace\<close> is defined for, with no zero, no line end, no semicolon and no space at their ends, the parse
  succeeds, and \<^verbatim>\<open>value\<close> of a section and a key gives the last value set for the key in the first section of that name, the caller's default when there is none or the value
  is empty. It leaves the sections and a right cache, so the same holds for every later call.
\<close>

theorem ini_roundtrip:
  assumes "\<forall>s\<in>set doc. ok_section s" "sec \<noteq> []"
  shows "\<exists>self. ini_parse (ini_new junk) (print_ini doc @ NUL # rest) = ret (True, self)
    \<and> (\<forall>self'. cache_ok self' \<and> base self' = base self \<longrightarrow>
        (\<exists>self''. ini_value self' sec k def =
            ret (case map_of doc sec of None \<Rightarrow> def
               | Some kvs \<Rightarrow> (case map_of (rev kvs) k of None \<Rightarrow> def | Some v \<Rightarrow> if v = [] then def else Some v), self'')
          \<and> cache_ok self'' \<and> base self'' = base self))
    \<and> cache_ok self"
proof -
  define self where "self = (clear (ini_new junk))\<lparr>base := rev (map to_section doc) @ [\<lparr>name = [], kv = []\<rparr>]\<rparr>"
  have p: "ini_parse (ini_new junk) (print_ini doc @ NUL # rest) = ret (True, self)"
    unfolding ini_parse_def Let_def self_def print_ini_zero [OF assms(1)] using parse_lines_doc [OF assms(1)] by (simp add: clear_def)
  have c: "cache_ok self" by (simp add: self_def cache_ok_def clear_def)
  have l: "ini_lookup (base self) sec k def = (case map_of doc sec of None \<Rightarrow> def
      | Some kvs \<Rightarrow> (case map_of (rev kvs) k of None \<Rightarrow> def | Some v \<Rightarrow> if v = [] then def else Some v))"
    using assms(2) find_key_doc [of k "rev _" def]
    by (simp add: self_def ini_lookup_def find_section_doc to_section_def rev_map split: option.split)
  have "\<exists>self''. ini_value self' sec k def = ret (ini_lookup (base self) sec k def, self'') \<and> cache_ok self'' \<and> base self'' = base self"
    if "cache_ok self'" "base self' = base self" for self'
    using ini_value_cache_lemma [OF that(1), of sec k def] that(2) by auto
  then show ?thesis using p c unfolding l by blast
qed

theorem ini_roundtrip_witness:
  "\<exists>self self'. ini_parse (ini_new []) (print_ini [(''net'', [(''port'', ''80''), (''port'', ''81'')])] @ [NUL]) = ret (True, self)
    \<and> ini_value self ''net'' ''port'' None = ret (Some ''81'', self')"
proof -
  let ?doc = "[(''net'', [(''port'', ''80''), (''port'', ''81'')])]"
  have "\<forall>s\<in>set ?doc. ok_section s"
    by (simp add: ok_section_def ok_keyval_def ok_text_def trimmed_def c_isspace_def isspace_domain_def NUL_def)
  from ini_roundtrip [OF this, of "''net''" "[]" "[]" "''port''" None] obtain self where
    "ini_parse (ini_new []) (print_ini ?doc @ [NUL]) = ret (True, self)" "cache_ok self"
    "\<forall>self'. cache_ok self' \<and> base self' = base self \<longrightarrow>
      (\<exists>self''. ini_value self' ''net'' ''port'' None = ret (Some ''81'', self'') \<and> cache_ok self'' \<and> base self'' = base self)"
    by auto
  then show ?thesis by blast
qed

section \<open>Walking through the sections\<close>

fun next_sections :: "nat \<Rightarrow> ini \<Rightarrow> (nat option list \<times> ini) prog" where
  "next_sections 0 self = ret ([], self)"
| "next_sections (Suc n) self =
     bnd (next_section self) (\<lambda>(ok, self). bnd (next_sections n self) (\<lambda>(vs, self').
       ret ((if ok then (case nextp self of Some v \<Rightarrow> v | None \<Rightarrow> None) else None) # vs, self')))"

lemma next_sections_from:
  assumes "nextp self = Some (if i = 0 then None else Some (i - 1))" "i \<le> length (base self)"
  shows "next_sections (length (base self) - i + 1) self
    = ret (map Some [i..<length (base self)] @ [None], self\<lparr>nextp := Some None\<rparr>)"
  using assms
proof (induction "length (base self) - i" arbitrary: self i)
  case 0
  then have "next_section self = ret (False, self\<lparr>nextp := Some None\<rparr>)" by (auto simp: next_section_def)
  then show ?case using 0 by simp
next
  case (Suc m)
  let ?self = "self\<lparr>nextp := Some (Some i)\<rparr>"
  have n: "next_section self = ret (True, ?self)" using Suc by (auto simp: next_section_def)
  have "next_sections (length (base ?self) - Suc i + 1) ?self
      = ret (map Some [Suc i..<length (base ?self)] @ [None], ?self\<lparr>nextp := Some None\<rparr>)"
    using Suc.hyps(2) by (intro Suc.hyps(1)) simp_all
  moreover have "length (base self) - i + 1 = Suc (length (base self) - Suc i + 1)" using Suc.hyps(2) by simp
  moreover have "[i..<length (base self)] = i # [Suc i..<length (base self)]" using Suc.hyps(2) by (intro upt_conv_Cons) simp
  ultimately show ?case using n by simp
qed

text \<open>
  Calling \<^verbatim>\<open>next_section\<close> until it answers false visits every section exactly once, in the order of the list,
  and leaves the walk at its start, so that it can be repeated.
\<close>

theorem ini_walk_complete:
  assumes "nextp self = Some None"
  shows "next_sections (length (base self) + 1) self = ret (map Some [0..<length (base self)] @ [None], self)"
  using next_sections_from [of self 0] assms by simp

theorem ini_walk_complete_witness:
  "next_sections 1 (clear (ini_new [])) = ret ([None], clear (ini_new []))"
  using ini_walk_complete [of "clear (ini_new [])"] by (simp add: clear_def)

section \<open>Errors\<close>

text \<open>
  No file with any content can be loaded, up to the length \<^verbatim>\<open>ftell\<close> can report: after measuring the length \<^verbatim>\<open>inifile::load\<close> reads from the end of the
  file, so every read is short, and the answer is false with the sections left as they were.
\<close>

theorem inifile_load_fails:
  assumes "content \<noteq> []" "int (length content) < 2 ^ 31"
  shows "inifile_load err self (Some content) = ret (False, self\<lparr>errmsg := snprintf (errmsg self) err\<rparr>)"
  using assms by (simp add: inifile_load_def fail_def Let_def)

theorem inifile_load_fails_witness:
  "inifile_load ''e'' (inifile_new []) (Some ''[a]'') = ret (False, inifile_new [])"
  using inifile_load_fails [of "''[a]''" "''e''" "inifile_new []"] by (simp add: inifile_new_def ini_new_def snprintf_def)

text \<open>A lookup before the first parse uses a pointer the constructor does not set.\<close>

lemma ini_value_before_parse: "ini_value (ini_new junk) sec k def = abort Uninitialised"
  by (simp add: ini_value_def ini_new_def)

end
