(* ===== verification/CoreLog.thy ===== *)
theory CoreLog
  imports StringUtil
begin

text \<open>
  The log of \<^verbatim>\<open>net/corelog.c\<close> and the loggers of \<^verbatim>\<open>net/corelogger.c\<close>: the tables of loggers by name and by key, the
  registry of logger types, formatting, and writing a message to the loggers of its key. Chains of nodes are lists from
  their head on. A logger is a number, null when it was never set; what it writes is appended to the world's log.
  \<^verbatim>\<open>corelog_init\<close> and \<^verbatim>\<open>logcfg_analyse\<close> do not compile and are not modelled.
\<close>

section \<open>Strings\<close>

text \<open>\<^verbatim>\<open>char\<close> is signed: a byte from 128 on is subtracted.\<close>

definition schar :: "char \<Rightarrow> u32" where
  "schar ch = scast (of_nat (of_char ch) :: u8)"

fun hash_loop :: "u32 \<Rightarrow> string \<Rightarrow> u32" where
  "hash_loop h [] = h"
| "hash_loop h (ch # buf) = hash_loop ((push_bit 5 h + h) + schar ch) buf"

definition hash_string :: "string \<Rightarrow> u32" where
  "hash_string buf = hash_loop 5318 buf"

definition cstr :: "string \<Rightarrow> string prog" where
  "cstr arr = (if NUL \<in> set arr then ret (takeWhile (\<lambda>ch. ch \<noteq> NUL) arr) else abort OutOfBounds)"

definition LOG_LEVEL :: "string list" where
  "LOG_LEVEL = [''FATAL'', ''ERROR'', ''WARN'', ''INFO'', ''DEBUG'']"

datatype corelog_level = corelog_fatal | corelog_error | corelog_warnning | corelog_info | corelog_debug

fun level_int :: "corelog_level \<Rightarrow> int" where
  "level_int corelog_fatal = 0"
| "level_int corelog_error = 1"
| "level_int corelog_warnning = 2"
| "level_int corelog_info = 3"
| "level_int corelog_debug = 4"

section \<open>The tables\<close>

record logger_node =
  log :: "nat option"
  ln_name :: string
  keylist :: "string option"
  level_max :: int
  level_min :: int
  ln_hash :: u32

record logger_keyhead =
  lk_key :: string
  lk_hash :: u32
  lk_node :: "logger_node list"

record logger_store =
  slot_key :: "logger_keyhead list list"
  key_sz :: u32
  slot_name :: "logger_node list list"
  name_sz :: u32

record core_logger_ctx =
  cx_key :: string
  cx_level :: int

text \<open>
  The node found or added, by its slot and its position in the slot's chain. A new node is zeroed by \<^verbatim>\<open>memset\<close>,
  and its \<^verbatim>\<open>hash\<close> is not set afterwards.
\<close>

fun find_node :: "string \<Rightarrow> u32 \<Rightarrow> logger_node list \<Rightarrow> nat \<Rightarrow> nat option" where
  "find_node nm hashint [] i = None"
| "find_node nm hashint (n # ns) i = (if ln_hash n = hashint \<and> nm = ln_name n then Some i else find_node nm hashint ns (i + 1))"

definition hash_rawadd :: "logger_store \<Rightarrow> string \<Rightarrow> ((nat \<times> nat) \<times> logger_store) prog" where
  "hash_rawadd store nm =
     (let hashint = hash_string nm; h = unat (hashint AND (name_sz store - 1)) in
      if h < length (slot_name store) then
        (case find_node nm hashint (slot_name store ! h) 0 of
           Some i \<Rightarrow> ret ((h, i), store)
         | None \<Rightarrow>
             let node = \<lparr>log = None, ln_name = nm, keylist = None, level_max = level_int corelog_debug,
                   level_min = level_int corelog_fatal, ln_hash = 0\<rparr> in
             ret ((h, 0), store\<lparr>slot_name := (slot_name store)[h := node # slot_name store ! h]\<rparr>))
      else abort OutOfBounds)"

section \<open>Writing\<close>

text \<open>What the loggers were called with, oldest first.\<close>

type_synonym log_out = "(nat \<times> core_logger_ctx \<times> string \<times> string) list"

fun write_nodes :: "logger_node list \<Rightarrow> core_logger_ctx \<Rightarrow> string \<Rightarrow> string \<Rightarrow> log_out \<Rightarrow> log_out prog" where
  "write_nodes [] ctx head msg w = ret w"
| "write_nodes (n # ns) ctx head msg w =
     (if level_max n \<ge> cx_level ctx \<and> level_min n \<le> cx_level ctx then
        (case log n of None \<Rightarrow> abort NullDeref
         | Some l \<Rightarrow> write_nodes ns ctx head msg (w @ [(l, ctx, head, msg)]))
      else write_nodes ns ctx head msg w)"

text \<open>
  The loop over the heads of a slot. The condition asks for a different text with the same hash; the loop's body advances
  the pointer before the loop's own step does, which reads through it again.
\<close>

fun write_heads :: "string \<Rightarrow> u32 \<Rightarrow> logger_keyhead list \<Rightarrow> core_logger_ctx \<Rightarrow> string \<Rightarrow> string \<Rightarrow> log_out \<Rightarrow> log_out prog" where
  "write_heads k hash [] ctx head msg w = ret w"
| "write_heads k hash [n] ctx head msg w =
     (if lk_hash n = hash \<and> k \<noteq> lk_key n then write_nodes (lk_node n) ctx head msg w else abort NullDeref)"
| "write_heads k hash (n # _ # ns) ctx head msg w =
     (if lk_hash n = hash \<and> k \<noteq> lk_key n then write_nodes (lk_node n) ctx head msg w
      else write_heads k hash ns ctx head msg w)"

definition logger_write :: "logger_store \<Rightarrow> core_logger_ctx \<Rightarrow> string \<Rightarrow> string \<Rightarrow> string \<Rightarrow> log_out \<Rightarrow> log_out prog" where
  "logger_write store ctx k head msg w =
     (let hash = hash_string k; h = unat (hash AND (key_sz store - 1)) in
      if h < length (slot_key store) then write_heads k hash (slot_key store ! h) ctx head msg w
      else abort OutOfBounds)"

text \<open>
  \<open>now\<close> is the text \<^verbatim>\<open>strftime\<close> makes of the local time with \<^verbatim>\<open>"%c"\<close>. The call allows 512 bytes for an array of
  32; \<^verbatim>\<open>sprintf\<close> allows any number for an array of 64.
\<close>

definition log_head :: "core_logger_ctx \<Rightarrow> string \<Rightarrow> string prog" where
  "log_head ctx now =
     bnd (require (length now + 1 \<le> 32) OutOfBounds) (\<lambda>_.
     bnd (require (0 \<le> cx_level ctx \<and> cx_level ctx < int (length LOG_LEVEL)) OutOfBounds) (\<lambda>_.
     let head = now @ '' ['' @ cx_key ctx @ '']['' @ LOG_LEVEL ! nat (cx_level ctx) @ '']'' in
     bnd (require (length head + 1 \<le> 64) OutOfBounds) (\<lambda>_. ret head)))"

definition logger_impl :: "logger_store option \<Rightarrow> string \<Rightarrow> core_logger_ctx \<Rightarrow> string \<Rightarrow> log_out \<Rightarrow> log_out prog" where
  "logger_impl cur now ctx msg w =
     (case cur of
        None \<Rightarrow> ret w
      | Some s \<Rightarrow>
          bnd (log_head ctx now) (\<lambda>head.
          bnd (logger_write s ctx (cx_key ctx) head msg w) (\<lambda>w.
          logger_write s ctx ''*'' head msg w)))"

text \<open>
  \<^verbatim>\<open>vsnprintf\<close> of a format whose full text is \<open>text\<close> into \<open>sz\<close> bytes: what it returns and the array. The C standard
  has it return the length of the full text and always write a final zero. The library of the project's toolset (v120)
  returns -1 when the text is longer than the array, and writes no final zero unless there is room for it.
\<close>

definition vsnprintf_c99 :: "nat \<Rightarrow> string \<Rightarrow> int \<times> string" where
  "vsnprintf_c99 sz txt = (int (length txt), take (sz - 1) txt @ [NUL])"

definition vsnprintf_v120 :: "nat \<Rightarrow> string \<Rightarrow> int \<times> string" where
  "vsnprintf_v120 sz txt = (if length txt > sz then - 1 else int (length txt), take sz (txt @ [NUL]))"

text \<open>The loop that doubles the array; beyond \<open>2 ^ 30\<close> the shift overflows \<^verbatim>\<open>int\<close>.\<close>

function grow_loop :: "(nat \<Rightarrow> string \<Rightarrow> int \<times> string) \<Rightarrow> string \<Rightarrow> nat \<Rightarrow> string prog" where
  "grow_loop vsn txt max_sz =
     (if max_sz = 0 \<or> max_sz \<ge> 2 ^ 30 then abort OutOfBounds
      else let (len, data) = vsn (max_sz * 2) txt in
        if len < int (max_sz * 2) then ret data else grow_loop vsn txt (max_sz * 2))"
  by pat_completeness auto

termination
  by (relation "measure (\<lambda>(v, t, m). 2 ^ 30 - m)") auto

declare grow_loop.simps [simp del]

definition BUF_SIZE :: nat where
  "BUF_SIZE = 512"

definition logger_log ::
  "(nat \<Rightarrow> string \<Rightarrow> int \<times> string) \<Rightarrow> logger_store option \<Rightarrow> string \<Rightarrow> string \<Rightarrow> int \<Rightarrow> string \<Rightarrow> log_out \<Rightarrow> log_out prog" where
  "logger_log vsn cur now k level txt w =
     (let ctx = \<lparr>cx_key = k, cx_level = level\<rparr>; (len, tmp) = vsn BUF_SIZE txt in
      if len < int BUF_SIZE then bnd (cstr tmp) (\<lambda>msg. logger_impl cur now ctx msg w)
      else bnd (grow_loop vsn txt BUF_SIZE) (\<lambda>data. bnd (cstr data) (\<lambda>msg. logger_impl cur now ctx msg w)))"

section \<open>Types of loggers\<close>

text \<open>
  The list of logger types hangs on a static head node, whose own type is the empty string and whose function is null.
\<close>

datatype nptr = NNull | NHead | NNode nat

record logger_new_node =
  nn_next :: nptr
  nn_func :: "nat option"
  nn_type :: string

record newfunc_list =
  nf_next :: nptr
  nf_nodes :: "logger_new_node list"

definition nf_node :: "newfunc_list \<Rightarrow> nptr \<Rightarrow> logger_new_node prog" where
  "nf_node l p = (case p of NNull \<Rightarrow> abort NullDeref
     | NHead \<Rightarrow> ret \<lparr>nn_next = nf_next l, nn_func = None, nn_type = []\<rparr>
     | NNode i \<Rightarrow> if i < length (nf_nodes l) then ret (nf_nodes l ! i) else abort WildPointer)"

partial_function (option) nf_find :: "newfunc_list \<Rightarrow> string \<Rightarrow> nptr \<Rightarrow> nptr prog" where
  "nf_find l ty p =
     (if p = NNull then ret NNull
      else bnd (nf_node l p) (\<lambda>n. if ty = nn_type n then ret p else nf_find l ty (nn_next n)))"

definition logger_new_func_reg :: "newfunc_list \<Rightarrow> string \<Rightarrow> nat \<Rightarrow> (int \<times> newfunc_list) prog" where
  "logger_new_func_reg l ty func =
     bnd (nf_find l ty (nf_next l)) (\<lambda>p.
       if p \<noteq> NNull then ret (- 1, l)
       else let node = \<lparr>nn_next = nf_next l, nn_func = Some func, nn_type = ty\<rparr> in
         ret (0, l\<lparr>nf_nodes := nf_nodes l @ [node], nf_next := NHead\<rparr>))"

text \<open>The type's function is a parameter: \<open>call func args\<close> gives the new logger, or null.\<close>

definition do_logger_new :: "(nat \<Rightarrow> string \<Rightarrow> 'w \<Rightarrow> nat option \<times> 'w) \<Rightarrow> newfunc_list \<Rightarrow> string \<Rightarrow> string \<Rightarrow> 'w \<Rightarrow> (nat option \<times> 'w) prog" where
  "do_logger_new call l ty args w =
     bnd (nf_find l ty (nf_next l)) (\<lambda>p.
       if p = NNull then ret (None, w)
       else bnd (nf_node l p) (\<lambda>n. case nn_func n of None \<Rightarrow> abort NullDeref | Some f \<Rightarrow> ret (call f args w)))"

record corelogger_conf =
  cf_name :: string
  cf_type :: string
  cf_keylist :: string
  cf_level_max :: int
  cf_level_min :: int
  cf_args :: string

text \<open>\<open>del\<close> stands for \<^verbatim>\<open>logger_delete\<close>, which the repository does not define.\<close>

definition corelogger_create ::
  "(nat option \<Rightarrow> 'w \<Rightarrow> 'w) \<Rightarrow> (nat \<Rightarrow> string \<Rightarrow> 'w \<Rightarrow> nat option \<times> 'w) \<Rightarrow> newfunc_list \<Rightarrow> logger_store option \<Rightarrow> corelogger_conf \<Rightarrow> 'w
    \<Rightarrow> (int \<times> logger_store option \<times> 'w) prog" where
  "corelogger_create del call l cur conf w =
     (case cur of
        None \<Rightarrow> abort NullDeref
      | Some store \<Rightarrow>
          bnd (hash_rawadd store (cf_name conf)) (\<lambda>((h, i), store).
          let node = slot_name store ! h ! i; w = del (log node) w;
              node = node\<lparr>log := None, keylist := Some (cf_keylist conf)\<rparr> in
          bnd (do_logger_new call l (cf_type conf) (cf_args conf) w) (\<lambda>(lg, w).
          let node = (if lg \<noteq> None then node\<lparr>log := lg\<rparr> else node) in
          ret (0, Some (store\<lparr>slot_name := (slot_name store)[h := (slot_name store ! h)[i := node]]\<rparr>), w))))"

section \<open>The loggers\<close>

text \<open>The streams a logger writes to: the console's two and the files by name.\<close>

record log_io =
  io_out :: string
  io_err :: string
  io_files :: "string \<rightharpoonup> string"

datatype log_func = log_console_fn | log_daterolle_fn

record logger =
  lg_log :: log_func
  lg_release :: "nat option"
  lg_extra :: "string option"

text \<open>The console logger takes four arguments; a caller passes five, so its text for the head is the time's structure.\<close>

definition log_console :: "core_logger_ctx \<Rightarrow> string \<Rightarrow> string \<Rightarrow> log_io \<Rightarrow> log_io" where
  "log_console ctx head msg io =
     (if cx_level ctx < level_int corelog_info then io\<lparr>io_err := io_err io @ head @ msg\<rparr>
      else io\<lparr>io_out := io_out io @ head @ msg\<rparr>)"

text \<open>\<open>mem\<close> tells whether \<^verbatim>\<open>malloc\<close> succeeds; the error is the number \<^verbatim>\<open>errno\<close>.\<close>

definition logger_new_console :: "bool \<Rightarrow> int \<Rightarrow> int \<Rightarrow> logger option \<times> int" where
  "logger_new_console mem errno err =
     (if \<not> mem then (None, errno) else (Some \<lparr>lg_log = log_console_fn, lg_release = None, lg_extra = None\<rparr>, err))"

definition logger_new_daterolle_file :: "bool \<Rightarrow> int \<Rightarrow> int \<Rightarrow> logger option \<times> int" where
  "logger_new_daterolle_file mem errno err =
     (if \<not> mem then (None, errno) else (Some \<lparr>lg_log = log_console_fn, lg_release = None, lg_extra = None\<rparr>, err))"

text \<open>
  The file's format stands behind the logger's structure; \<open>strft\<close> is \<^verbatim>\<open>strftime\<close> for the message's time and \<open>may\<close> tells
  which files can be opened.
\<close>

definition log_daterolle_file :: "(string \<Rightarrow> string) \<Rightarrow> (string \<Rightarrow> bool) \<Rightarrow> logger \<Rightarrow> string \<Rightarrow> string \<Rightarrow> log_io \<Rightarrow> log_io prog" where
  "log_daterolle_file strft may lg head msg io =
     (case lg_extra lg of
        None \<Rightarrow> abort OutOfBounds
      | Some fmt \<Rightarrow>
          let filename = strft fmt in
          if length filename + 1 > 128 then abort Uninitialised
          else if may filename then
            ret (io\<lparr>io_files := (io_files io)(filename \<mapsto> (case io_files io filename of None \<Rightarrow> [] | Some t \<Rightarrow> t) @ head @ msg)\<rparr>)
          else ret io)"

end
