(* ===== verification/LogProps.thy ===== *)
theory LogProps
  imports CoreLog
begin

text \<open>
  Properties of the log: which texts reach the loggers whole, how long a head line may be, and where the tables and the
  registry of types fail.
\<close>

section \<open>Formatting\<close>

lemma cstr_text: "NUL \<notin> set tx \<Longrightarrow> cstr (tx @ NUL # r) = ret tx"
  by (simp add: cstr_def takeWhile_append)

lemma grow_loop_c99:
  assumes "max_sz > 0" "max_sz \<le> length tx" "length tx < 2 ^ 30" "NUL \<notin> set tx"
  shows "\<exists>data. grow_loop vsnprintf_c99 tx max_sz = ret data \<and> cstr data = ret tx"
  using assms
proof (induction "2 ^ 30 - max_sz" arbitrary: max_sz rule: less_induct)
  case less
  show ?case
  proof (cases "length tx < max_sz * 2")
    case True
    then have "take (max_sz * 2 - 1) tx = tx" by simp
    then show ?thesis using less.prems True cstr_text [of tx "[]"]
      by (subst grow_loop.simps) (simp add: vsnprintf_c99_def)
  next
    case False
    then have "\<exists>data. grow_loop vsnprintf_c99 tx (max_sz * 2) = ret data \<and> cstr data = ret tx"
      using less.prems by (intro less.hyps) auto
    then show ?thesis using less.prems False by (subst grow_loop.simps) (simp add: vsnprintf_c99_def)
  qed
qed

text \<open>
  With the \<^verbatim>\<open>vsnprintf\<close> of the C standard every text of less than \<open>2 ^ 30\<close> characters reaches the loggers whole: the loop that
  doubles the array ends with one that holds the text and its final zero.
\<close>

theorem logger_log_complete:
  assumes "length tx < 2 ^ 30" "NUL \<notin> set tx"
  shows "logger_log vsnprintf_c99 cur now k level tx w = logger_impl cur now \<lparr>cx_key = k, cx_level = level\<rparr> tx w"
proof (cases "length tx < BUF_SIZE")
  case True
  then have "take (BUF_SIZE - 1) tx = tx" by simp
  then show ?thesis using True assms(2) cstr_text [of tx "[]"] by (simp add: logger_log_def vsnprintf_c99_def)
next
  case False
  from grow_loop_c99 [of BUF_SIZE tx] False assms obtain data where
    "grow_loop vsnprintf_c99 tx BUF_SIZE = ret data" "cstr data = ret tx" by (auto simp: BUF_SIZE_def)
  then show ?thesis using False by (simp add: logger_log_def vsnprintf_c99_def)
qed

theorem logger_log_complete_witness:
  "logger_log vsnprintf_c99 None ''now'' ''net'' 3 (replicate 2000 (CHR ''x'')) [] = ret []"
  using logger_log_complete [of "replicate 2000 (CHR ''x'')" None "''now''" "''net''" 3 "[]"]
  by (simp add: logger_impl_def NUL_def)

text \<open>
  With the library of the project's toolset a text of at most 512 characters reaches the loggers whole, and a
  longer one reads past the end of the array: the answer -1 is taken for a text that fits, and the array has no
  final zero.
\<close>

theorem logger_log_v120:
  assumes "NUL \<notin> set tx"
  shows "logger_log vsnprintf_v120 cur now k level tx w =
    (if length tx \<le> 512 then logger_impl cur now \<lparr>cx_key = k, cx_level = level\<rparr> tx w else abort OutOfBounds)"
proof -
  consider "length tx < 512" | "length tx = 512" | "length tx > 512" by linarith
  then show ?thesis
  proof cases
    case 1
    then show ?thesis using cstr_text [OF assms, of "[]"] by (simp add: logger_log_def vsnprintf_v120_def BUF_SIZE_def)
  next
    case 2
    then have "grow_loop vsnprintf_v120 tx BUF_SIZE = ret (tx @ [NUL])"
      by (subst grow_loop.simps) (simp add: vsnprintf_v120_def BUF_SIZE_def)
    then show ?thesis using 2 cstr_text [OF assms, of "[]"] by (simp add: logger_log_def vsnprintf_v120_def BUF_SIZE_def)
  next
    case 3
    then have "NUL \<notin> set (take 512 tx)" using assms by (meson in_set_takeD)
    then show ?thesis using 3 by (simp add: logger_log_def vsnprintf_v120_def BUF_SIZE_def cstr_def)
  qed
qed

theorem logger_log_v120_witness:
  "logger_log vsnprintf_v120 None ''now'' ''net'' 3 (replicate 513 (CHR ''x'')) [] = abort OutOfBounds"
  using logger_log_v120 [of "replicate 513 (CHR ''x'')" None "''now''" "''net''" 3 "[]"] by (simp add: NUL_def)

text \<open>
  The head line of a message is built exactly when the time's text has at most 31 characters, the level is one of the
  five, and time, key and level leave room for the five characters around them in 63; in every other case an
  array is overrun.
\<close>

theorem log_head_bounds:
  "log_head ctx now =
    (if length now \<le> 31 \<and> 0 \<le> cx_level ctx \<and> cx_level ctx \<le> 4
        \<and> length now + length (cx_key ctx) + length (LOG_LEVEL ! nat (cx_level ctx)) + 5 \<le> 63
     then ret (now @ '' ['' @ cx_key ctx @ '']['' @ LOG_LEVEL ! nat (cx_level ctx) @ '']'')
     else abort OutOfBounds)"
  by (auto simp: log_head_def LOG_LEVEL_def require_def Let_def)

section \<open>The tables\<close>

definition names_wf :: "logger_store \<Rightarrow> bool" where
  "names_wf store \<longleftrightarrow> (\<exists>j<32. name_sz store = 2 ^ j \<and> length (slot_name store) = 2 ^ j)
     \<and> (\<forall>ns\<in>set (slot_name store). \<forall>n\<in>set ns. ln_hash n = 0)"

lemma slot_in_range:
  assumes "j < 32" "sz = (2 :: u32) ^ j" "length (xs :: 'a list) = 2 ^ j"
  shows "unat (h AND (sz - 1)) < length xs"
  using assms and_pow2_minus_1 [where 'a = 32, of j h] by simp

lemma find_node_other_hash: "\<forall>n\<in>set ns. ln_hash n = 0 \<Longrightarrow> hashint \<noteq> 0 \<Longrightarrow> find_node nm hashint ns i = None"
  by (induction ns arbitrary: i) auto

text \<open>
  Since no node's hash is ever set, a name whose hash is not zero is never found: on every table that \<^verbatim>\<open>hash_rawadd\<close> itself
  keeps, it adds a new node in front, also when the name is there already, and the table stays such a table.
\<close>

theorem hash_rawadd_duplicates:
  assumes "names_wf store" "hash_string nm \<noteq> 0"
  defines "h \<equiv> unat (hash_string nm AND (name_sz store - 1))"
  shows "\<exists>node. hash_rawadd store nm = ret ((h, 0), store\<lparr>slot_name := (slot_name store)[h := node # slot_name store ! h]\<rparr>)
    \<and> ln_name node = nm \<and> names_wf (store\<lparr>slot_name := (slot_name store)[h := node # slot_name store ! h]\<rparr>)"
proof -
  have h: "h < length (slot_name store)" using assms(1) slot_in_range unfolding h_def names_wf_def by blast
  then have z: "\<forall>n\<in>set (slot_name store ! h). ln_hash n = 0" using assms(1) nth_mem unfolding names_wf_def by blast
  define node where "node = \<lparr>log = None, ln_name = nm, keylist = None, level_max = 4, level_min = 0, ln_hash = 0\<rparr>"
  have "hash_rawadd store nm = ret ((h, 0), store\<lparr>slot_name := (slot_name store)[h := node # slot_name store ! h]\<rparr>)"
    using h find_node_other_hash [OF z assms(2)] by (simp add: hash_rawadd_def h_def [symmetric] Let_def node_def)
  moreover have "names_wf (store\<lparr>slot_name := (slot_name store)[h := node # slot_name store ! h]\<rparr>)"
    using assms(1) z h by (auto simp: names_wf_def node_def dest!: set_update_subset_insert [THEN subsetD])
  ultimately show ?thesis by (auto simp: node_def)
qed

theorem hash_rawadd_duplicates_witness:
  "\<exists>node. hash_rawadd \<lparr>slot_key = [], key_sz = 0, slot_name = [[]], name_sz = 1\<rparr> ''c''
    = ret ((0, 0), \<lparr>slot_key = [], key_sz = 0, slot_name = [[node]], name_sz = 1\<rparr>) \<and> ln_name node = ''c''"
proof -
  let ?s = "\<lparr>slot_key = [], key_sz = 0, slot_name = [[]], name_sz = 1\<rparr> :: logger_store"
  have "names_wf ?s" by (auto simp: names_wf_def intro!: exI [of _ 0])
  moreover have "hash_string ''c'' \<noteq> 0" by (simp add: hash_string_def schar_def)
  ultimately show ?thesis using hash_rawadd_duplicates [of ?s "''c''"] by auto
qed

lemma write_heads_none:
  assumes "\<forall>n\<in>set hs. lk_hash n \<noteq> hash \<or> lk_key n = k"
  shows "write_heads k hash hs ctx head msg w = (if even (length hs) then ret w else abort NullDeref)"
  using assms by (induction k hash hs ctx head msg w rule: write_heads.induct) auto

text \<open>
  C40. A message is never written to the loggers of its own key: on a chain whose heads have either the key itself or another
  hash, nothing is written when the chain's length is even, and the process ends on a null pointer when it is odd.
\<close>

theorem logger_write_own_key:
  assumes "j < 32" "key_sz store = 2 ^ j" "length (slot_key store) = 2 ^ j"
    and "\<forall>n\<in>set (slot_key store ! unat (hash_string k AND (key_sz store - 1))). lk_hash n \<noteq> hash_string k \<or> lk_key n = k"
  shows "logger_write store ctx k head msg w =
    (if even (length (slot_key store ! unat (hash_string k AND (key_sz store - 1)))) then ret w else abort NullDeref)"
  using slot_in_range [OF assms(1-3)] write_heads_none [OF assms(4)] by (simp add: logger_write_def Let_def)

theorem logger_write_own_key_witness:
  "logger_write \<lparr>slot_key = [[\<lparr>lk_key = ''net'', lk_hash = hash_string ''net'', lk_node = []\<rparr>]], key_sz = 1, slot_name = [], name_sz = 0\<rparr>
     \<lparr>cx_key = ''net'', cx_level = 3\<rparr> ''net'' ''h'' ''m'' [] = abort NullDeref"
  using logger_write_own_key [of 0 "\<lparr>slot_key = [[\<lparr>lk_key = ''net'', lk_hash = hash_string ''net'', lk_node = []\<rparr>]], key_sz = 1, slot_name = [], name_sz = 0\<rparr>" "''net''" "\<lparr>cx_key = ''net'', cx_level = 3\<rparr>" "''h''" "''m''" "[]"]
  by simp

section \<open>Logger types\<close>

lemma nf_find_self_loop:
  assumes "nf_next l = NHead" "ty \<noteq> []"
  shows "nf_find l ty NHead = None"
proof -
  have "\<not> (nf_find l ty NHead = Some y)" for y
  proof
    assume "nf_find l ty NHead = Some y"
    moreover have "l' = l \<and> ty' = ty \<and> p = NHead \<longrightarrow> False" if "nf_find l' ty' p = Some y" for l' ty' p
      using that
    proof (rule nf_find.raw_induct [rotated])
      fix f l' ty' p y
      assume IH: "\<And>l' ty' p y. f l' ty' p = Some y \<Longrightarrow> l' = l \<and> ty' = ty \<and> p = NHead \<longrightarrow> False"
        and s: "(if p = NNull then ret NNull else bnd (nf_node l' p) (\<lambda>n. if ty' = nn_type n then ret p else f l' ty' (nn_next n))) = Some y"
      show "l' = l \<and> ty' = ty \<and> p = NHead \<longrightarrow> False"
        using s IH [of l ty NHead y] assms by (auto simp: nf_node_def)
    qed
    ultimately show False by blast
  qed
  then show ?thesis by (cases "nf_find l ty NHead") auto
qed

text \<open>
  The first logger type that is registered closes the list on its own head: registering it succeeds, but the type is
  not found afterwards, and every later registration or creation with a type that is not empty never returns.
\<close>

theorem logger_types_closed:
  assumes "ty2 \<noteq> []"
  shows "\<exists>l. logger_new_func_reg \<lparr>nf_next = NNull, nf_nodes = []\<rparr> ty func = ret (0, l)
    \<and> logger_new_func_reg l ty2 func2 = diverge \<and> do_logger_new call l ty2 args w = diverge"
proof -
  let ?l = "\<lparr>nf_next = NHead, nf_nodes = [\<lparr>nn_next = NNull, nn_func = Some func, nn_type = ty\<rparr>]\<rparr>"
  have "logger_new_func_reg \<lparr>nf_next = NNull, nf_nodes = []\<rparr> ty func = ret (0, ?l)"
    by (simp add: logger_new_func_reg_def nf_find.simps)
  moreover have "nf_find ?l ty2 NHead = None" using assms by (intro nf_find_self_loop) simp_all
  ultimately show ?thesis by (auto simp: logger_new_func_reg_def do_logger_new_def diverge_def)
qed

theorem logger_types_closed_witness:
  "\<exists>l. logger_new_func_reg \<lparr>nf_next = NNull, nf_nodes = []\<rparr> ''console'' 7 = ret (0, l)
    \<and> do_logger_new (\<lambda>f args w. (Some 0, w)) l ''console'' [] () = diverge"
  using logger_types_closed [of "''console''" "''console''" 7 8 "\<lambda>f args w. (Some 0, w)" "[]" "()"] by auto

end
