(* ===== verification/Errmsg.thy ===== *)
theory Errmsg
  imports CoreErrmsg
begin

text \<open>
  The older cache of error texts in \<^verbatim>\<open>net/errmsg.cpp\<close>: a fixed table of 256 chains, each sorted by the unsigned error
  number. A chain is the list of the nodes behind its head. Nodes and the system's \<^verbatim>\<open>FormatMessage\<close> are as in
  \<^verbatim>\<open>net/coreerrmsg.c\<close>, whose \<^verbatim>\<open>sys_errmsg\<close> has the same text.
\<close>

section \<open>Operations\<close>

record errtable =
  et_head :: "errnode list list"
  et_lock :: u32

definition ERRNO_HASH_SIZE :: nat where
  "ERRNO_HASH_SIZE = 2 ^ 8"

definition errtable_init :: errtable where
  "errtable_init = \<lparr>et_head = replicate ERRNO_HASH_SIZE [], et_lock = 0\<rparr>"

definition et_hash :: "u32 \<Rightarrow> nat" where
  "et_hash e = unat e mod ERRNO_HASH_SIZE"

fun et_walk :: "u32 \<Rightarrow> errnode list \<Rightarrow> errnode list \<times> errnode list" where
  "et_walk e [] = ([], [])"
| "et_walk e (n # ns) = (if en_err n < e then (case et_walk e ns of (a, b) \<Rightarrow> (n # a, b)) else ([], n # ns))"

text \<open>The function walks the chain once without the lock and twice with it.\<close>

definition et_found :: "u32 \<Rightarrow> errnode list \<Rightarrow> bool" where
  "et_found e cur \<longleftrightarrow> cur \<noteq> [] \<and> en_err (hd cur) = e"

definition et_str_inner :: "(u32 \<Rightarrow> string option) \<Rightarrow> u32 \<Rightarrow> string option \<Rightarrow> errtable \<Rightarrow> (string \<times> errtable) prog" where
  "et_str_inner fmt e def hash =
     (let h = et_hash e; (_, cur) = et_walk e (et_head hash ! h) in
      if et_found e cur then ret (en_msg (hd cur), hash)
      else
        bnd (if et_lock hash = 0 then ret (hash\<lparr>et_lock := 1\<rparr>) else diverge) (\<lambda>hash.
        let (_, cur) = et_walk e (et_head hash ! h) in
        if et_found e cur then ret (en_msg (hd cur), hash\<lparr>et_lock := 0\<rparr>)
        else let (before, cur) = et_walk e (et_head hash ! h) in
          if et_found e cur then ret (en_msg (hd cur), hash\<lparr>et_lock := 0\<rparr>)
          else
            bnd (sys_errmsg fmt e def) (\<lambda>newnode.
            ret (en_msg newnode, hash\<lparr>et_head := (et_head hash)[h := before @ newnode # cur], et_lock := 0\<rparr>))))"

definition et_append :: "(u32 \<Rightarrow> string option) \<Rightarrow> u32 \<Rightarrow> string \<Rightarrow> errtable \<Rightarrow> (bool \<times> errtable) prog" where
  "et_append fmt e msg hash = bnd (et_str_inner fmt e (Some msg) hash) (\<lambda>(s, hash). ret (strcmp s msg = 0, hash))"

definition et_str :: "(u32 \<Rightarrow> string option) \<Rightarrow> u32 \<Rightarrow> errtable \<Rightarrow> (string \<times> errtable) prog" where
  "et_str fmt e hash = et_str_inner fmt e None hash"

section \<open>The table as a map\<close>

definition et_sorted :: "errnode list \<Rightarrow> bool" where
  "et_sorted ns \<longleftrightarrow> sorted_wrt (\<lambda>a b. en_err a < en_err b) ns"

definition et_ok :: "errtable \<Rightarrow> bool" where
  "et_ok hash \<longleftrightarrow> et_lock hash = 0 \<and> length (et_head hash) = ERRNO_HASH_SIZE
     \<and> (\<forall>ns\<in>set (et_head hash). et_sorted ns)"

definition et_cached :: "errtable \<Rightarrow> u32 \<rightharpoonup> string" where
  "et_cached hash e = map_option en_msg (find (\<lambda>n. en_err n = e) (et_head hash ! et_hash e))"

lemma et_hash_bound: "et_hash e < ERRNO_HASH_SIZE"
  by (simp add: et_hash_def ERRNO_HASH_SIZE_def)

lemma et_walk_append:
  "et_walk e ns = (a, b) \<Longrightarrow> ns = a @ b \<and> (\<forall>n\<in>set a. en_err n < e) \<and> (b \<noteq> [] \<longrightarrow> e \<le> en_err (hd b))"
  by (induction ns arbitrary: a b) (auto split: if_splits prod.splits)

lemma et_walk_rest:
  assumes "et_walk e ns = (a, b)" "et_sorted ns"
  shows "\<forall>n\<in>set b. n = hd b \<or> e < en_err n"
proof (cases b)
  case (Cons x xs)
  then show ?thesis using et_walk_append [OF assms(1)] assms(2) by (fastforce simp: et_sorted_def sorted_wrt_append)
qed simp

lemma et_walk_find:
  assumes "et_walk e ns = (a, b)" "et_sorted ns"
  shows "find (\<lambda>n. en_err n = e) ns = (if et_found e b then Some (hd b) else None)"
proof -
  have "find (\<lambda>n. en_err n = e) a = None" using et_walk_append [OF assms(1)] by (auto simp: find_None_iff)
  moreover have "find (\<lambda>n. en_err n = e) b = (if et_found e b then Some (hd b) else None)"
    using et_walk_rest [OF assms] by (cases b) (auto simp: et_found_def find_None_iff)
  ultimately show ?thesis using et_walk_append [OF assms(1)] by (simp add: find_append)
qed

lemma et_insert_sorted:
  assumes "et_walk e ns = (a, b)" "et_sorted ns" "\<not> et_found e b"
  shows "et_sorted (a @ \<lparr>en_err = e, en_msg = m\<rparr> # b)"
proof -
  note w = et_walk_append [OF assms(1)]
  have "e < en_err n" if "n \<in> set b" for n
    using et_walk_rest [OF assms(1,2)] that w assms(3) by (cases b) (force simp: et_found_def)+
  then show ?thesis using w assms(2) by (auto simp: et_sorted_def sorted_wrt_append)
qed

text \<open>
  C23. The table is a map from error numbers to texts: a number that has a text gets it and nothing changes; a new number gets the
  system's text, or else the default, and exactly that entry is added, so no later request ever changes or loses a
  text; without either the copied text comes from an array whose block has ended.
\<close>

theorem et_str_inner_map:
  assumes "et_ok hash"
  shows "(case et_cached hash e of
      Some m \<Rightarrow> et_str_inner fmt e def hash = ret (m, hash)
    | None \<Rightarrow> (case (if fmt e = None then def else fmt e) of
          None \<Rightarrow> et_str_inner fmt e def hash = abort WildPointer
        | Some m \<Rightarrow> \<exists>hash'. et_str_inner fmt e def hash = ret (m, hash')
            \<and> et_ok hash' \<and> et_cached hash' = (et_cached hash)(e \<mapsto> m)))"
proof -
  let ?h = "et_hash e"
  obtain a b where w: "et_walk e (et_head hash ! ?h) = (a, b)" by (cases "et_walk e (et_head hash ! ?h)")
  have h: "?h < length (et_head hash)" using assms et_hash_bound by (simp add: et_ok_def)
  then have s: "et_sorted (et_head hash ! ?h)" using assms by (simp add: et_ok_def)
  have f: "et_cached hash e = (if et_found e b then Some (en_msg (hd b)) else None)"
    using et_walk_find [OF w s] by (simp add: et_cached_def)
  have l: "et_lock hash = 0" using assms by (simp add: et_ok_def)
  show ?thesis
  proof (cases "et_found e b")
    case True
    then show ?thesis using f w by (simp add: et_str_inner_def)
  next
    case False
    let ?new = "\<lambda>m. hash\<lparr>et_head := (et_head hash)[?h := a @ \<lparr>en_err = e, en_msg = m\<rparr> # b], et_lock := 0\<rparr>"
    have ok: "et_ok (?new m)" for m
      using assms et_insert_sorted [OF w s False] by (auto simp: et_ok_def dest!: set_update_subset_insert [THEN subsetD])
    have "find (\<lambda>n. en_err n = e') (a @ \<lparr>en_err = e, en_msg = m\<rparr> # b) = find (\<lambda>n. en_err n = e') (et_head hash ! ?h)"
      if "e' \<noteq> e" for e' m using that et_walk_append [OF w] by (simp add: find_append split: option.split)
    moreover have "find (\<lambda>n. en_err n = e) (a @ \<lparr>en_err = e, en_msg = m\<rparr> # b) = Some \<lparr>en_err = e, en_msg = m\<rparr>" for m
    proof -
      have "find (\<lambda>n. en_err n = e) a = None" using et_walk_append [OF w] by (auto simp: find_None_iff)
      then show ?thesis by (simp add: find_append)
    qed
    ultimately have "et_cached (?new m) = (et_cached hash)(e \<mapsto> m)" for m
      using h by (auto simp: et_cached_def fun_eq_iff nth_list_update)
    with ok show ?thesis using f False w l by (auto simp: et_str_inner_def sys_errmsg_def split: option.splits)
  qed
qed

theorem et_str_inner_map_witness:
  "\<exists>hash'. et_str_inner (\<lambda>_. None) 5 (Some ''x'') errtable_init = ret (''x'', hash') \<and> et_cached hash' 5 = Some ''x''"
proof -
  have "et_ok errtable_init" by (simp add: et_ok_def errtable_init_def et_sorted_def)
  have none: "et_cached errtable_init 5 = None" using et_hash_bound [of 5] by (simp add: et_cached_def errtable_init_def)
  from et_str_inner_map [OF \<open>et_ok errtable_init\<close>, where e = 5 and fmt = "\<lambda>_. None" and def = "Some ''x''"] show ?thesis
    using none by auto
qed

end
