(* ===== verification/Spec2Isabelle.thy ===== *)
theory Spec2Isabelle
  imports Locks Iocp ConnProps EndpointProps RingBuffer CsvProps IniProps LogProps LogicObjects Errmsg
begin

text \<open>
  Verification of ho_net, an event-driven network library for Windows: worker threads wait at a completion port,
  run the handlers of finished socket operations, and pass messages to logic objects, which start and stop sockets; a timer
  wheel calls back at given times. The library exists twice: the C code (\<^verbatim>\<open>net/core*.c\<close>), which the project file
  \<^verbatim>\<open>net/ho.vcxproj\<close> builds, and the older C++ code beside it, which has the same parts as classes and, besides them, the readers for configuration files.

  \<^bold>\<open>How the code is modelled.\<close> Theory \<^verbatim>\<open>Prelude\<close> fixes the build: 32-bit Windows, so \<^verbatim>\<open>int\<close>, \<^verbatim>\<open>long\<close> and
  \<^verbatim>\<open>size_t\<close> are 32-bit words wherever their width matters. A function of the source is a function of the model that takes
  and returns the state it works on. Its result type \<open>prog\<close> has a value for each way a call can end: a result (\<open>ret\<close>), a fault
  (\<open>abort\<close>: a null or wild pointer, an index out of bounds, a failed assertion, a variable never set, overlapping
  \<^verbatim>\<open>memcpy\<close> ranges), or never returning (\<open>diverge\<close>). Loops are recursive functions; those that may spin are
  \<^verbatim>\<open>partial_function (option)\<close>, where not returning is \<open>None\<close>; the others have a termination proof, so no fuel is used. Linked structures
  live in an explicit memory from pointers to nodes where the code relinks them, and are lists where a chain is only
  searched or extended. Code that is not part of the repository (Winsock, \<^verbatim>\<open>FormatMessage\<close>, the clock, files, callbacks of the application)
  is a parameter of the definitions that call it.

  \<^bold>\<open>The theories.\<close>

  \<^item> \<^verbatim>\<open>CoreLock\<close> (\<^verbatim>\<open>corelock.c\<close>): the reader/writer spin lock as a transition system of any number of threads, each shared
    access one step. A writer is alone inside; readers may share; no reachable state is a deadlock.

  \<^item> \<^verbatim>\<open>CoreBuffer\<close>, \<^verbatim>\<open>BufferChain\<close> (\<^verbatim>\<open>corebuffer.c\<close>): the byte ring with its two free-running 32-bit counters and the chain of
    rings in a heap. The locale \<open>byte_queue\<close> states what a send loop needs of a queue of bytes; it is interpreted on this ring and
    on the C++ ring. Writes append, chunked reads drain in order, the chain is first in first out; the faults of reading across
    the end of the array, of popping a drained chain and of releasing a chain are lemmas of their own.

  \<^item> \<^verbatim>\<open>TimerLinks\<close>, \<^verbatim>\<open>TimerRings\<close>, \<^verbatim>\<open>CoreTimer\<close>, \<^verbatim>\<open>TimerSlots\<close>, \<^verbatim>\<open>TimerWheel\<close>, \<^verbatim>\<open>TimerInv\<close>, \<^verbatim>\<open>TimerSpec\<close>,
    \<^verbatim>\<open>TimerProps\<close> (\<^verbatim>\<open>coretimer.c\<close>): every pointer write of the doubly linked rings, the four-level wheel, allocation with
    the free list, ticks and updates. A locale over a pair of links is interpreted on the wheel lists and on the hash buckets. The
    abstract specification is a calendar, a list of pending entries; any sequence of operations, with callbacks that add timers, refines
    it as long as the clock stays below \<open>2 ^ 26\<close> ticks, the point from which the row \<^verbatim>\<open>n[3]\<close> that is never linked is used.

  \<^item> \<^verbatim>\<open>CoreLogic\<close> (\<^verbatim>\<open>coremodule.c\<close>, \<^verbatim>\<open>corelogic.c\<close>): modules, the identifier table of the logic objects with its doubling,
    reference counts and message dispatch. Registration terminates, with at most \<open>2 ^ 29\<close> slots, and adds exactly one entry.

  \<^item> \<^verbatim>\<open>CoreErrmsg\<close> (\<^verbatim>\<open>coreerrmsg.c\<close>) and \<^verbatim>\<open>Errmsg\<close> (\<^verbatim>\<open>errmsg.cpp\<close>): the caches of error texts. The C++ table is a map that
    never loses a text; the C table forgets all of them when it should grow.

  \<^item> \<^verbatim>\<open>CorePoller\<close> (\<^verbatim>\<open>corepoller.c\<close>): the completion port as a queue and the workers as interleaving threads; stopping waits for
    every worker; the workers cannot take turns for ever while it waits, and with handlers that return they can always come to the end.

  \<^item> \<^verbatim>\<open>CoreSocket\<close>, \<^verbatim>\<open>SocketProps\<close> (\<^verbatim>\<open>coresocket.c\<close>): the 65536 socket slots with their states, reference counts and event
    contexts, all operations and completion handlers over a Winsock given as a parameter. Identifiers are fresh and positive for the
    first \<open>2 ^ 31 - 1\<close> sockets; connecting, reports to the owner, closing and the faults of accepting and sending are described
    on every branch. Each function runs here without interference of other threads.

  \<^item> \<^verbatim>\<open>CoreEndpoint\<close>, \<^verbatim>\<open>EndpointProps\<close> (\<^verbatim>\<open>coreconnector.c\<close>, \<^verbatim>\<open>corelistener.c\<close>, \<^verbatim>\<open>client/main.c\<close>, \<^verbatim>\<open>server/main.c\<close>): the two modules
    and the two programs, put together from the theories above. What the workers do while a program waits is a parameter, assumed to keep the
    timers well formed and not to assign the module field of a logic object; then neither program returns.

  \<^item> \<^verbatim>\<open>CoreLog\<close>, \<^verbatim>\<open>LogProps\<close> (\<^verbatim>\<open>corelog.c\<close>, \<^verbatim>\<open>corelogger.c\<close>): logger tables, formatting into arrays of fixed size, the registry of
    logger types.

  \<^item> \<^verbatim>\<open>RingBuffer\<close> (\<^verbatim>\<open>ring_buffer.cpp\<close>, \<^verbatim>\<open>buffer.cpp\<close>): the C++ ring and queue; the ring refines the same queue of bytes as the C
    ring.

  \<^item> \<^verbatim>\<open>StringUtil\<close>, \<^verbatim>\<open>Csv\<close>, \<^verbatim>\<open>CsvProps\<close>, \<^verbatim>\<open>Ini\<close>, \<^verbatim>\<open>IniProps\<close> (\<^verbatim>\<open>stringutil.cpp\<close>, \<^verbatim>\<open>csv.cpp\<close>, \<^verbatim>\<open>ini.cpp\<close>): the readers for configuration
    files. The CSV parser works in place, with every access bounded; on every text that has a final zero its loops end, it returns
    for every table of fewer than \<open>2 ^ 30\<close> cells, the bound from which the 32-bit size of the table wraps and the code writes outside it, and it reads
    printed tables back. The INI reader calls \<^verbatim>\<open>isspace\<close> with a signed character: it stops at bytes that function is not defined for; on all other
    texts it trims as a reference definition does, its cache is invisible, and it reads printed documents back.

  \<^item> \<^verbatim>\<open>BinaryArry\<close> (\<^verbatim>\<open>binary_arry.h\<close>): insertion keeps the array sorted, binary search finds what is there and reads behind a
    full array when the key is larger than all.

  \<^item> \<^verbatim>\<open>Locks\<close> (\<^verbatim>\<open>lock.h\<close>): the C++ spin lock as a transition system, exclusive and without deadlock; the C++ reader/writer
    lock takes the steps of the C one.

  \<^item> \<^verbatim>\<open>TimerObject\<close> (\<^verbatim>\<open>timer.cpp\<close> and the timer operations of \<^verbatim>\<open>poller.cpp\<close>): the timer class, over the memory model of the C
    timer. It locks and recycles nodes differently; the locale \<open>timer_service\<close>, which states a timer's contract against the calendar, is
    interpreted on both timers, so they agree on every sequence of operations.

  \<^item> \<^verbatim>\<open>Iocp\<close> (\<^verbatim>\<open>poller.cpp\<close>): the poller class. Its workers take steps of the C poller's transition system, so stopping it waits for
    every worker too.

  \<^item> \<^verbatim>\<open>LogicObjects\<close> (\<^verbatim>\<open>logic_store.cpp\<close>, \<^verbatim>\<open>logic.cpp\<close>): the identifier table of the C++ library, which simulates that of
    \<^verbatim>\<open>corelogic.c\<close>, and objects with their handlers in a sorted array, from construction to the delivery of a message.

  \<^item> \<^verbatim>\<open>SocketServer\<close>, \<^verbatim>\<open>ServerProps\<close> (\<^verbatim>\<open>socketserver.cpp\<close>, \<^verbatim>\<open>socket.h\<close>): the C++ socket server with its reference counts, its operation
    contexts, the queues of rings and the messages to logic objects, put together from the models of the poller, the objects and the
    rings; Winsock is the parameter of the C server. An abstract sender, a list of pieces, is refined by every run of sends and partial
    completions; what a receive delivers reaches the owner. Each function runs without interference of other threads.

  \<^item> \<^verbatim>\<open>Endpoints\<close>, \<^verbatim>\<open>ConnProps\<close> (\<^verbatim>\<open>socketinterface.cpp\<close>, \<^verbatim>\<open>listener.cpp\<close>, \<^verbatim>\<open>connector.cpp\<close>): the global server and the two classes of objects.
    The connector sends back what it receives; a socket is freed when the references of table and receive are the last, and a connection
    that was established, or on which anything was sent, has one more that is never given back.

  \<^bold>\<open>Not modelled.\<close> Conversion to floating point (\<^verbatim>\<open>todouble\<close> and the \<^verbatim>\<open>double\<close> variants of \<^verbatim>\<open>value\<close>); \<^verbatim>\<open>corelog_init\<close> and
  \<^verbatim>\<open>logcfg_analyse\<close>, which do not compile (calls with types for arguments, conflicting declarations); the second copies of the trimming and
  registration functions in \<^verbatim>\<open>corelogger.c\<close>; \<^verbatim>\<open>queue.cpp\<close>, \<^verbatim>\<open>mysqlcon\<close> and \<^verbatim>\<open>http_request\<close>, which are unfinished; the vendored MySQL headers; and the test programs. Memory
  exhaustion is not modelled except where the code checks for it.
\<close>

end
